(* ===== verification/Prelude.thy ===== *)
theory Prelude
  imports Main "HOL-Library.Word"
begin

text \<open>
  What every component shares: the names of the Go integer types, the collections that
  carry the automation, and facts about lists, folds and 64-bit words that the library
  does not state in the shape the components need.
\<close>

section \<open>Go integer types\<close>

text \<open>
  Go's \<open>uint64\<close> is a 64-bit word: \<open>+\<close> and \<open>-\<close> wrap and comparison is unsigned.
  \<open>int64\<close> and \<open>int\<close> (64 bits on every platform the program is built for) are integers
  with the wrap-around written out by \<open>int64_wrap\<close> wherever the code computes.
\<close>

type_synonym u64 = "64 word"

definition int64_wrap :: "int \<Rightarrow> int" where
  "int64_wrap i = (i + 2 ^ 63) mod 2 ^ 64 - 2 ^ 63"

definition in_int64 :: "int \<Rightarrow> bool" where
  "in_int64 i \<longleftrightarrow> - (2 ^ 63) \<le> i \<and> i < 2 ^ 63"

text \<open>
  Three collections: \<open>words\<close> moves statements about words to natural numbers,
  \<open>model\<close> unfolds the small definitions of a component, \<open>keeps\<close> holds the facts that an
  operation preserves a component's invariant.
\<close>

named_theorems words
named_theorems model
named_theorems keeps

lemma int64_wrap_id [simp]: "in_int64 i \<Longrightarrow> int64_wrap i = i"
  by (simp add: int64_wrap_def in_int64_def)

lemma int64_wrap_range: "in_int64 (int64_wrap i)"
  unfolding int64_wrap_def in_int64_def by simp

text \<open>Go's integer division truncates towards zero.\<close>

definition go_quot :: "int \<Rightarrow> int \<Rightarrow> int" where
  "go_quot a b = sgn a * sgn b * (\<bar>a\<bar> div \<bar>b\<bar>)"

definition go_rem :: "int \<Rightarrow> int \<Rightarrow> int" where
  "go_rem a b = a - go_quot a b * b"

lemma go_rem_bound: "0 < b \<Longrightarrow> \<bar>go_rem a b\<bar> < b"
proof (cases "0 \<le> a")
  case True
  assume "0 < b"
  then have "go_rem a b = a mod b" using True
    by (cases "a = 0") (simp_all add: go_rem_def go_quot_def minus_div_mult_eq_mod)
  then show ?thesis using \<open>0 < b\<close> by simp
next
  case False
  assume "0 < b"
  have "go_rem a b = - (- a - (- a) div b * b)" using False \<open>0 < b\<close> by (simp add: go_rem_def go_quot_def)
  also have "\<dots> = - ((- a) mod b)" by (simp only: minus_div_mult_eq_mod)
  finally show ?thesis using \<open>0 < b\<close> by simp
qed

lemma go_quot_bound: "0 < b \<Longrightarrow> \<bar>go_quot a b\<bar> \<le> \<bar>a\<bar> div b"
  by (auto simp: go_quot_def sgn_if pos_imp_zdiv_nonneg_iff)

section \<open>Words read as natural numbers\<close>

lemma unat_less_u64 [simp]: "unat (x :: u64) < 18446744073709551616"
  using unsigned_less [of x] by simp

lemma unat_Suc_u64 [words]:
  "unat (x :: u64) + 1 < 2 ^ 64 \<Longrightarrow> unat (x + 1) = unat x + 1"
  by (simp add: unat_word_ariths)

lemma unat_diff_u64 [words]: "y \<le> (x :: u64) \<Longrightarrow> unat (x - y) = unat x - unat y"
  by (simp add: unat_sub)

lemma unat_mod_u64 [words]: "unat ((x :: u64) mod y) = unat x mod unat y"
  by (simp add: unat_mod)

lemma unat_plus_u64 [words]:
  "unat (x :: u64) + unat y < 2 ^ 64 \<Longrightarrow> unat (x + y) = unat x + unat y"
  by (simp add: unat_word_ariths)

lemma unat_of_nat_u64 [words]: "n < 2 ^ 64 \<Longrightarrow> unat (of_nat n :: u64) = n"
  by (simp add: unat_of_nat)

lemma le_u64_nat [words]: "(x :: u64) \<le> y \<longleftrightarrow> unat x \<le> unat y"
  by (simp add: word_le_nat_alt)

lemma less_u64_nat [words]: "(x :: u64) < y \<longleftrightarrow> unat x < unat y"
  by (simp add: word_less_nat_alt)

section \<open>Lists and folds\<close>

lemma fold_Cons_rev: "fold (\<lambda>x xs. xs @ [f x]) ys acc = acc @ map f ys"
  by (induction ys arbitrary: acc) auto

lemma fold_filter_snoc:
  "fold (\<lambda>x xs. if P x then xs @ [f x] else xs) ys acc = acc @ map f (filter P ys)"
  by (induction ys arbitrary: acc) auto

lemma fold_count:
  "fold (\<lambda>x n. if P x then n + 1 else n) ys n = n + of_nat (length (filter P ys))"
  for n :: "'a :: comm_semiring_1"
  by (induction ys arbitrary: n) (auto simp: algebra_simps)

lemma map_upt_shift: "map (\<lambda>i. f (k + i)) [0..<n] = map f [k..<k + n]"
  by (induction n) auto

lemma take_upt_map: "n \<le> m - k \<Longrightarrow> take n (map f [k..<m]) = map f [k..<k + n]"
  by (cases "n = 0") (auto simp: take_map)

lemma drop_upt_map: "drop n (map f [k..<m]) = map f [k + n..<m]"
  by (simp add: drop_map)

text \<open>Slots of a ring of \<open>s\<close> cells: indices less than \<open>s\<close> apart have different residues.\<close>

lemma mod_inj_window:
  fixes i j s :: nat
  assumes "i mod s = j mod s" and "i \<le> j" and "j < i + s"
  shows "i = j"
proof -
  have "s dvd j - i"
    using assms(1,2) by (metis mod_eq_dvd_iff_nat)
  moreover have "j - i < s" using assms(2,3) by linarith
  ultimately have "j - i = 0" by (metis nat_dvd_not_less neq0_conv)
  with assms(2) show ?thesis by simp
qed

end
