(* ===== verification/RingBuffer.thy ===== *)
theory RingBuffer
  imports Prelude
begin

text \<open>
  internal/telemetry/ringbuffer.go, run by one goroutine at a time: the \<open>Metric\<close> record,
  the ring and its three operations, the invariant that ties the two monotonic counters to
  the slots, and the refinement of the ring to a bounded first-in first-out queue. The
  interface of that queue is the locale \<open>bounded_queue\<close>; the drain loops of the judge and
  of the bot fleet are clients of it. Interleaved producers are in \<open>RingRace\<close>.
\<close>

section \<open>Metric and RingBuffer\<close>

record metric =
  m_TestRunID :: string
  m_ContestantID :: string
  m_ClientID :: string
  m_OrderID :: string
  m_SentTimeNs :: u64
  m_RecvTimeNs :: u64
  m_EngineTimeNs :: u64
  m_IsCorrect :: bool
  m_ErrorCode :: string

definition zero_metric :: metric where
  "zero_metric = \<lparr>m_TestRunID = [], m_ContestantID = [], m_ClientID = [], m_OrderID = [],
     m_SentTimeNs = 0, m_RecvTimeNs = 0, m_EngineTimeNs = 0, m_IsCorrect = False, m_ErrorCode = []\<rparr>"

text \<open>
  The ring is generic in its element: nothing but \<open>NewRingBuffer\<close>, which fills the slots
  with the zero \<open>Metric\<close> as \<open>make\<close> does, looks at what an element is.
\<close>

record 'a ring =
  rb_size :: u64
  rb_buf :: "'a list"
  rb_write :: u64
  rb_read :: u64

definition NewRingBuffer :: "u64 \<Rightarrow> metric ring" where
  "NewRingBuffer size0 =
     (let n = (if size0 = 0 then 1 else size0)
      in \<lparr>rb_size = n, rb_buf = replicate (unat n) zero_metric, rb_write = 0, rb_read = 0\<rparr>)"

definition slot :: "'a ring \<Rightarrow> u64 \<Rightarrow> nat" where
  "slot r w = unat (w mod rb_size r)"

definition Push :: "'a ring \<Rightarrow> 'a \<Rightarrow> 'a ring \<times> bool" where
  "Push r m =
     (let w = rb_write r; rd = rb_read r
      in if w - rd \<ge> rb_size r then (r, False)
         else (r\<lparr>rb_write := w + 1, rb_buf := (rb_buf r)[slot r w := m]\<rparr>, True))"

text \<open>The copy loop of \<open>PopInto\<close>: slots \<open>rd + i\<close> for \<open>i\<close> up to \<open>n\<close> go to \<open>dst[i]\<close>.\<close>

function copy_slots :: "'a ring \<Rightarrow> u64 \<Rightarrow> nat \<Rightarrow> nat \<Rightarrow> 'a list \<Rightarrow> 'a list" where
  "copy_slots r rd i n dst =
     (if i < n then copy_slots r rd (i + 1) n (dst[i := rb_buf r ! slot r (rd + of_nat i)])
      else dst)"
  by pat_completeness auto
termination
  by (relation "measure (\<lambda>(r, rd, i, n, dst). n - i)") auto

declare copy_slots.simps [simp del]

definition PopInto :: "'a ring \<Rightarrow> 'a list \<Rightarrow> 'a ring \<times> 'a list \<times> nat" where
  "PopInto r dst =
     (let rd = rb_read r; w = rb_write r
      in if w \<le> rd then (r, dst, 0)
         else let avail = w - rd;
                  len = (of_nat (length dst) :: u64);
                  n = (if avail < len then avail else len)
              in (r\<lparr>rb_read := rd + n\<rparr>, copy_slots r rd 0 (unat n) dst, unat n))"

section \<open>The invariant and the queue a ring stands for\<close>

text \<open>
  Both counters only grow, the reader never overtakes the writers, and the writers never
  run more than one lap ahead. Between them lie the occupied slots, oldest first.
\<close>

definition rb_inv :: "'a ring \<Rightarrow> bool" where
  "rb_inv r \<longleftrightarrow> 0 < rb_size r \<and> length (rb_buf r) = unat (rb_size r) \<and>
     unat (rb_read r) \<le> unat (rb_write r) \<and>
     unat (rb_write r) - unat (rb_read r) \<le> unat (rb_size r)"

definition contents :: "'a ring \<Rightarrow> 'a list" where
  "contents r = map (\<lambda>i. rb_buf r ! (i mod unat (rb_size r))) [unat (rb_read r)..<unat (rb_write r)]"

lemma contents_length [simp]: "length (contents r) = unat (rb_write r) - unat (rb_read r)"
  by (simp add: contents_def)

lemma rb_inv_capacity: "rb_inv r \<Longrightarrow> length (contents r) \<le> unat (rb_size r)"
  by (simp add: rb_inv_def)

lemma rb_size_pos: "rb_inv r \<Longrightarrow> 0 < unat (rb_size r)"
  by (simp add: rb_inv_def word_less_nat_alt)

lemma slot_less: "rb_inv r \<Longrightarrow> slot r w < length (rb_buf r)"
  by (simp add: slot_def words rb_size_pos) (simp add: rb_inv_def word_less_nat_alt)

lemma NewRingBuffer_inv [keeps]: "rb_inv (NewRingBuffer n)"
  by (auto simp: rb_inv_def NewRingBuffer_def Let_def word_gt_0)

lemma NewRingBuffer_contents [simp]: "contents (NewRingBuffer n) = []"
  by (simp add: contents_def NewRingBuffer_def Let_def)

lemma NewRingBuffer_size: "rb_size (NewRingBuffer n) = (if n = 0 then 1 else n)"
  by (simp add: NewRingBuffer_def Let_def)

lemma NewRingBuffer_counters [simp]:
  "rb_write (NewRingBuffer n) = 0" "rb_read (NewRingBuffer n) = 0"
  by (simp_all add: NewRingBuffer_def Let_def)

lemma full_iff:
  assumes "rb_inv r"
  shows "rb_write r - rb_read r \<ge> rb_size r \<longleftrightarrow> length (contents r) = unat (rb_size r)"
  using assms by (auto simp: rb_inv_def words)

subsection \<open>Push appends\<close>

lemma Push_full:
  "rb_inv r \<Longrightarrow> length (contents r) = unat (rb_size r) \<Longrightarrow> Push r m = (r, False)"
  using full_iff [of r] by (simp add: Push_def Let_def)

text \<open>
  While the writer's counter is below its last value, a push into a ring with room stores
  the metric behind the others. At \<open>2 ^ 64 - 1\<close> the counter would wrap to 0.
\<close>

lemma Push_room:
  assumes inv: "rb_inv r" and room: "length (contents r) < unat (rb_size r)"
    and nowrap: "unat (rb_write r) + 1 < 2 ^ 64"
  shows "snd (Push r m)" and "rb_inv (fst (Push r m))"
    and "contents (fst (Push r m)) = contents r @ [m]"
proof -
  let ?s = "unat (rb_size r)" and ?w = "unat (rb_write r)" and ?rd = "unat (rb_read r)"
  let ?r' = "r\<lparr>rb_write := rb_write r + 1, rb_buf := (rb_buf r)[slot r (rb_write r) := m]\<rparr>"
  have P: "Push r m = (?r', True)"
    using full_iff [OF inv] room by (simp add: Push_def Let_def)
  have w1: "unat (rb_write r + 1) = ?w + 1" using nowrap by (simp add: words)
  show "snd (Push r m)" by (simp add: P)
  show "rb_inv (fst (Push r m))"
    using inv room w1 by (simp add: P rb_inv_def)
  have sl: "slot r (rb_write r) = ?w mod ?s" by (simp add: slot_def words)
  have lt: "?w mod ?s < length (rb_buf r)" using slot_less [OF inv, of "rb_write r"] sl by simp
  have rd: "?rd \<le> ?w" using inv by (simp add: rb_inv_def)
  have "(rb_buf r)[?w mod ?s := m] ! (i mod ?s) = rb_buf r ! (i mod ?s)"
    if "i \<in> set [?rd..<?w]" for i
  proof -
    have "?w < i + ?s" "i < ?w" using that room by auto
    then have "i mod ?s \<noteq> ?w mod ?s"
      using mod_inj_window [of i ?s ?w] by auto
    then show ?thesis by simp
  qed
  then have "map (\<lambda>i. (rb_buf r)[?w mod ?s := m] ! (i mod ?s)) [?rd..<?w] = contents r"
    by (simp add: contents_def)
  then show "contents (fst (Push r m)) = contents r @ [m]"
    using rd lt by (simp add: P contents_def w1 sl)
qed

subsection \<open>PopInto removes from the front\<close>

lemma copy_slots_length [simp]: "length (copy_slots r rd i n dst) = length dst"
  by (induction r rd i n dst rule: copy_slots.induct) (subst copy_slots.simps, simp)

lemma copy_slots_nth:
  "n \<le> length dst \<Longrightarrow> j < length dst \<Longrightarrow>
   copy_slots r rd i n dst ! j =
     (if i \<le> j \<and> j < n then rb_buf r ! slot r (rd + of_nat j) else dst ! j)"
proof (induction r rd i n dst rule: copy_slots.induct)
  case (1 r rd i n dst)
  show ?case
  proof (cases "i < n")
    case True
    then show ?thesis using 1 by (subst copy_slots.simps) (auto simp: nth_list_update)
  next
    case False
    then show ?thesis by (subst copy_slots.simps) auto
  qed
qed

lemma copy_slots_take:
  assumes "n \<le> length dst"
  shows "copy_slots r rd 0 n dst =
     map (\<lambda>i. rb_buf r ! slot r (rd + of_nat i)) [0..<n] @ drop n dst"
  using assms by (intro nth_equalityI) (auto simp: copy_slots_nth nth_append)

text \<open>
  A pop with a buffer of \<open>length dst\<close> cells takes that many elements, or all there are,
  from the front and leaves the rest.
\<close>

lemma PopInto_spec:
  assumes inv: "rb_inv r" and len: "length dst < 2 ^ 64"
  defines "k \<equiv> min (length dst) (length (contents r))"
  shows "\<exists>r'. PopInto r dst = (r', take k (contents r) @ drop k dst, k) \<and> rb_inv r' \<and>
     contents r' = drop k (contents r) \<and> rb_size r' = rb_size r"
proof (cases "rb_write r \<le> rb_read r")
  case True
  then have "k = 0" by (simp add: k_def words)
  with True inv show ?thesis by (simp add: PopInto_def)
next
  case False
  let ?s = "unat (rb_size r)" and ?w = "unat (rb_write r)" and ?rd = "unat (rb_read r)"
  let ?n = "if rb_write r - rb_read r < of_nat (length dst) then rb_write r - rb_read r
            else (of_nat (length dst) :: u64)"
  let ?r' = "r\<lparr>rb_read := rb_read r + ?n\<rparr>"
  have rw: "rb_read r \<le> rb_write r" using False by simp
  have n: "unat ?n = k"
    using len rw by (auto simp: k_def words)
  have kw: "k \<le> ?w - ?rd" by (simp add: k_def)
  have add: "unat (rb_read r + of_nat i) = ?rd + i" if "i \<le> k" for i
  proof -
    have "?rd + i \<le> ?w" using that kw rw unfolding words by linarith
    then have "?rd + i < 2 ^ 64" using unat_less_u64 [of "rb_write r"]
      by (simp del: unat_less_u64)
    moreover from this have "unat (of_nat i :: u64) = i" by (intro words) simp
    ultimately show ?thesis by (simp add: words)
  qed
  have rdn: "unat (rb_read r + ?n) = ?rd + k"
    using add [of k] by (simp flip: n)
  have "map (\<lambda>i. rb_buf r ! slot r (rb_read r + of_nat i)) [0..<k]
      = map (\<lambda>i. rb_buf r ! ((?rd + i) mod ?s)) [0..<k]"
    by (auto simp: slot_def words add)
  also have "\<dots> = take k (contents r)"
    using kw map_upt_shift [of "\<lambda>i. rb_buf r ! (i mod ?s)" ?rd k]
    by (simp add: contents_def take_upt_map)
  finally have front: "copy_slots r (rb_read r) 0 k dst = take k (contents r) @ drop k dst"
    by (simp add: copy_slots_take k_def)
  have "PopInto r dst = (?r', take k (contents r) @ drop k dst, k)"
    using False front n by (simp add: PopInto_def Let_def)
  moreover have "rb_inv ?r'"
  proof -
    have "?rd + k \<le> ?w" and "?w - (?rd + k) \<le> ?s"
      using inv kw unfolding rb_inv_def by linarith+
    then show ?thesis using inv rdn by (simp add: rb_inv_def)
  qed
  moreover have "contents ?r' = drop k (contents r)"
    using rdn by (simp add: contents_def drop_upt_map)
  ultimately show ?thesis by auto
qed

section \<open>The interface of a bounded queue\<close>

text \<open>
  What the code's users of the ring rely on. \<open>quota\<close> is how many more pushes the
  implementation can count; for the ring, how far the write counter is from wrapping.
\<close>

locale bounded_queue =
  fixes inv :: "'q \<Rightarrow> bool"
    and items :: "'q \<Rightarrow> 'm list"
    and cap :: "'q \<Rightarrow> nat"
    and quota :: "'q \<Rightarrow> nat"
    and push :: "'q \<Rightarrow> 'm \<Rightarrow> 'q \<times> bool"
    and pop :: "'q \<Rightarrow> 'q \<times> 'm list"
  assumes items_cap: "inv q \<Longrightarrow> length (items q) \<le> cap q"
    and push_full: "inv q \<Longrightarrow> length (items q) = cap q \<Longrightarrow> push q m = (q, False)"
    and push_room: "inv q \<Longrightarrow> length (items q) < cap q \<Longrightarrow> 0 < quota q \<Longrightarrow>
      \<exists>q'. push q m = (q', True) \<and> inv q' \<and> items q' = items q @ [m] \<and>
        cap q' = cap q \<and> quota q' = quota q - 1"
    and pop_front: "inv q \<Longrightarrow> pop q = (q', ms) \<Longrightarrow>
      inv q' \<and> items q = ms @ items q' \<and> (ms = [] \<longrightarrow> items q = []) \<and>
      cap q' = cap q \<and> quota q' = quota q"

text \<open>
  The loop both consumers run: pop a batch, process it, stop at the first empty batch. It
  is tail recursion into \<open>option\<close>, so that it ends is something to prove.
\<close>

partial_function (option) drain_loop ::
  "('q \<Rightarrow> 'q \<times> 'm list) \<Rightarrow> ('m \<Rightarrow> 'acc \<Rightarrow> 'acc) \<Rightarrow> 'q \<Rightarrow> 'acc \<Rightarrow> ('q \<times> 'acc) option" where
  "drain_loop pop process q acc =
     (case pop q of (q', ms) \<Rightarrow>
        if ms = [] then Some (q', acc) else drain_loop pop process q' (fold process ms acc))"

fun push_all :: "('q \<Rightarrow> 'm \<Rightarrow> 'q \<times> bool) \<Rightarrow> 'q \<Rightarrow> 'm list \<Rightarrow> 'q \<times> bool list" where
  "push_all push q [] = (q, [])"
| "push_all push q (m # ms) =
     (let (q', ok) = push q m; (q'', oks) = push_all push q' ms in (q'', ok # oks))"

context bounded_queue begin

lemma drain_spec:
  assumes "inv q"
  shows "\<exists>q'. drain_loop pop process q acc = Some (q', fold process (items q) acc) \<and>
    inv q' \<and> items q' = [] \<and> cap q' = cap q \<and> quota q' = quota q"
  using assms
proof (induction "length (items q)" arbitrary: q acc rule: less_induct)
  case less
  obtain q1 ms where p: "pop q = (q1, ms)" by fastforce
  note front = pop_front [OF less.prems p]
  show ?case
  proof (cases "ms = []")
    case True
    then have "items q = []" and "items q1 = []" using front by auto
    then show ?thesis using True front p by (simp add: drain_loop.simps)
  next
    case False
    then have "length (items q1) < length (items q)" using front by auto
    from less.hyps [OF this, of "fold process ms acc"] front False p
    show ?thesis by (subst drain_loop.simps) (auto simp: fold_append)
  qed
qed

lemma push_all_spec:
  assumes "inv q" and "length ms \<le> quota q"
  defines "k \<equiv> min (length ms) (cap q - length (items q))"
  shows "\<exists>q'. push_all push q ms = (q', replicate k True @ replicate (length ms - k) False) \<and>
    inv q' \<and> items q' = items q @ take k ms \<and> cap q' = cap q"
  using assms(1,2) unfolding k_def
proof (induction ms arbitrary: q)
  case Nil
  then show ?case by simp
next
  case (Cons m ms)
  show ?case
  proof (cases "length (items q) < cap q")
    case True
    with push_room [of q m] Cons.prems obtain q1 where
      q1: "push q m = (q1, True)" "inv q1" "items q1 = items q @ [m]" "cap q1 = cap q"
        "quota q1 = quota q - 1" by auto
    obtain j where j: "cap q - length (items q) = Suc j"
      using True by (metis Suc_diff_Suc)
    have "cap q1 - length (items q1) = j" using q1 j by simp
    moreover have "length ms \<le> quota q1" using Cons.prems q1 by simp
    ultimately show ?thesis using Cons.IH [OF q1(2)] q1 j by auto
  next
    case False
    then have full: "length (items q) = cap q" using items_cap [OF Cons.prems(1)] by simp
    have "length ms \<le> quota q" using Cons.prems by simp
    from Cons.IH [OF Cons.prems(1) this] full push_full [OF Cons.prems(1) full]
    show ?thesis by auto
  qed
qed

lemma push_all_quota:
  "inv q \<Longrightarrow> length ms \<le> quota q \<Longrightarrow> quota q \<le> quota (fst (push_all push q ms)) + length ms"
proof (induction ms arbitrary: q)
  case (Cons m ms)
  show ?case
  proof (cases "length (items q) < cap q")
    case True
    with push_room [of q m] Cons.prems obtain q1 where
      "push q m = (q1, True)" "inv q1" "quota q1 = quota q - 1" by auto
    then have "length ms \<le> quota q1" "quota q = Suc (quota q1)" using Cons.prems(2) by simp_all
    then show ?thesis using Cons.IH [OF \<open>inv q1\<close>] \<open>push q m = (q1, True)\<close> by (cases "push_all push q1 ms") simp
  next
    case False
    then have "push q m = (q, False)" using push_full items_cap Cons.prems(1) by force
    then show ?thesis using Cons.IH [of q] Cons.prems by (cases "push_all push q ms") auto
  qed
qed simp

text \<open>Pushing a batch into an empty queue with room and draining it gives the batch back.\<close>

lemma push_then_drain:
  assumes "inv q" "items q = []" "length ms \<le> cap q" "length ms \<le> quota q"
  shows "\<exists>q'. drain_loop pop process (fst (push_all push q ms)) acc = Some (q', fold process ms acc)"
proof -
  obtain q1 where "fst (push_all push q ms) = q1" "inv q1" "items q1 = ms"
    using push_all_spec [OF assms(1,4)] assms(2,3) by auto
  then show ?thesis using drain_spec [of q1 process acc] by auto
qed

end

text \<open>
  The ring with the consumer's batch slice, which both consumers allocate once and reuse:
  \<open>PopInto\<close> overwrites its first cells and the consumer reads as many as were written.
\<close>

definition rq_push :: "'a ring \<times> 'a list \<Rightarrow> 'a \<Rightarrow> ('a ring \<times> 'a list) \<times> bool" where
  "rq_push q m = (case q of (r, dst) \<Rightarrow> case Push r m of (r', ok) \<Rightarrow> ((r', dst), ok))"

definition rq_pop :: "'a ring \<times> 'a list \<Rightarrow> ('a ring \<times> 'a list) \<times> 'a list" where
  "rq_pop q = (case q of (r, dst) \<Rightarrow>
     case PopInto r dst of (r', dst', n) \<Rightarrow> ((r', dst'), take n dst'))"

definition rq_inv :: "'a ring \<times> 'a list \<Rightarrow> bool" where
  "rq_inv q \<longleftrightarrow> rb_inv (fst q) \<and> snd q \<noteq> [] \<and> length (snd q) < 2 ^ 64"

definition rq_quota :: "'a ring \<times> 'a list \<Rightarrow> nat" where
  "rq_quota q = 2 ^ 64 - 1 - unat (rb_write (fst q))"

lemma rq_pop_front:
  assumes "rq_inv q" and "rq_pop q = (q', ms)"
  shows "rq_inv q' \<and> contents (fst q) = ms @ contents (fst q') \<and>
    (ms = [] \<longrightarrow> contents (fst q) = []) \<and>
    unat (rb_size (fst q')) = unat (rb_size (fst q)) \<and> rq_quota q' = rq_quota q"
proof -
  obtain r dst where q: "q = (r, dst)" by fastforce
  let ?k = "min (length dst) (length (contents r))"
  from assms(1) have inv: "rb_inv r" "length dst < 2 ^ 64" "dst \<noteq> []"
    by (auto simp: rq_inv_def q)
  from PopInto_spec [OF inv(1,2)] obtain r' where
    r': "PopInto r dst = (r', take ?k (contents r) @ drop ?k dst, ?k)" "rb_inv r'"
      "contents r' = drop ?k (contents r)" "rb_size r' = rb_size r" by auto
  have q': "q' = (r', take ?k (contents r) @ drop ?k dst)" and ms: "ms = take ?k (contents r)"
    using assms(2) r'(1) by (auto simp: rq_pop_def q)
  have "rb_write r' = rb_write r"
    using r'(1) by (auto simp: PopInto_def Let_def split: if_splits)
  then have quota: "rq_quota q' = rq_quota q" by (simp add: rq_quota_def q q')
  have "length (snd q') = length dst" and "fst q' = r'" by (simp_all add: q')
  moreover from this(1) have "snd q' \<noteq> []" using inv(3) by (metis length_0_conv)
  ultimately have "rq_inv q'" using r'(2) inv(2) by (simp add: rq_inv_def)
  moreover have "contents r = ms @ contents r'" by (simp add: ms r'(3))
  moreover have "contents r = []" if "ms = []"
    using that inv(3) ms by (auto simp: min_def simp del: contents_length split: if_splits)
  ultimately show ?thesis using r'(4) quota by (simp add: q q')
qed

lemma rq_push_room:
  assumes "rq_inv q" "length (contents (fst q)) < unat (rb_size (fst q))" "0 < rq_quota q"
  shows "\<exists>q'. rq_push q m = (q', True) \<and> rq_inv q' \<and> contents (fst q') = contents (fst q) @ [m] \<and>
    unat (rb_size (fst q')) = unat (rb_size (fst q)) \<and> rq_quota q' = rq_quota q - 1"
proof -
  obtain r dst where q: "q = (r, dst)" by fastforce
  have inv: "rb_inv r" and w: "unat (rb_write r) + 1 < 2 ^ 64"
    and room: "length (contents r) < unat (rb_size r)"
    using assms by (auto simp: rq_inv_def rq_quota_def q)
  obtain r' where r': "Push r m = (r', True)" using Push_room(1) [OF inv room w, of m] by (cases "Push r m") auto
  have "rb_write r' = rb_write r + 1" "rb_size r' = rb_size r"
    using r' by (auto simp: Push_def Let_def split: if_splits)
  then show ?thesis
    using Push_room(2,3) [OF inv room w, of m] r' assms(1) w
    by (simp add: rq_push_def q rq_inv_def rq_quota_def words)
qed

interpretation rq: bounded_queue rq_inv "\<lambda>q. contents (fst q)" "\<lambda>q. unat (rb_size (fst q))"
  rq_quota rq_push rq_pop
proof
  fix q :: "'a ring \<times> 'a list" and m
  assume "rq_inv q" "length (contents (fst q)) = unat (rb_size (fst q))"
  then show "rq_push q m = (q, False)"
    by (cases q) (simp add: rq_push_def rq_inv_def Push_full)
next
  fix q :: "'a ring \<times> 'a list"
  assume "rq_inv q"
  then show "length (contents (fst q)) \<le> unat (rb_size (fst q))"
    unfolding rq_inv_def using rb_inv_capacity by blast
qed (rule rq_push_room rq_pop_front; assumption)+

section \<open>Properties\<close>

text \<open>
  C1: a fresh ring is a bounded first-in first-out queue. Pushing a batch succeeds for
  exactly as many metrics as fit (the capacity is the requested size, 1 for a request of 0)
  and fails for the rest; the drain loop then terminates and hands the accepted metrics to
  its body once each, oldest first.
\<close>

theorem ring_is_bounded_fifo:
  fixes ms :: "metric list" and n :: u64
  assumes "dst \<noteq> []" "length dst < 2 ^ 64" "length ms < 2 ^ 64"
  defines "k \<equiv> min (length ms) (if n = 0 then 1 else unat n)"
  shows "\<exists>q q'. push_all rq_push (NewRingBuffer n, dst) ms
      = (q, replicate k True @ replicate (length ms - k) False) \<and>
    drain_loop rq_pop process q acc = Some (q', fold process (take k ms) acc)"
proof -
  let ?q = "(NewRingBuffer n, dst)"
  have "rq_inv ?q" using assms by (simp add: rq_inv_def NewRingBuffer_inv)
  moreover have "rq_quota ?q = 2 ^ 64 - 1" by (simp add: rq_quota_def NewRingBuffer_def Let_def)
  moreover have "min (length ms) (unat (rb_size (NewRingBuffer n)) - 0) = k"
    by (simp add: k_def NewRingBuffer_size)
  ultimately obtain q where
    "push_all rq_push ?q ms = (q, replicate k True @ replicate (length ms - k) False)"
    "rq_inv q" "contents (fst q) = take k ms"
    using rq.push_all_spec [of ?q ms] assms(3) by auto
  then show ?thesis using rq.drain_spec [of q process acc] by auto
qed

lemma ring_is_bounded_fifo_witness:
  "\<exists>q q'. push_all rq_push (NewRingBuffer 1, [zero_metric]) [zero_metric, zero_metric]
      = (q, [True, False]) \<and>
    drain_loop rq_pop (\<lambda>m n. n + 1) q (0 :: nat) = Some (q', 1)"
  using ring_is_bounded_fifo [of "[zero_metric]" "[zero_metric, zero_metric]" 1 "\<lambda>m n. n + 1" "0 :: nat"]
  by simp

text \<open>
  Every branch of one \<open>Push\<close>. On a well-formed ring it returns false and changes nothing
  exactly when the ring is full, and otherwise appends the metric and keeps the invariant, as
  long as the 64-bit write counter has not reached its last value.
\<close>

theorem Push_branches:
  assumes "rb_inv r" and "unat (rb_write r) + 1 < 2 ^ 64"
  shows "if length (contents r) = unat (rb_size r) then Push r m = (r, False)
    else \<exists>r'. Push r m = (r', True) \<and> rb_inv r' \<and> contents r' = contents r @ [m]"
proof (cases "length (contents r) = unat (rb_size r)")
  case False
  then have "length (contents r) < unat (rb_size r)" using rb_inv_capacity [OF assms(1)] by simp
  from Push_room [OF assms(1) this assms(2)] False show ?thesis by (metis prod.collapse)
qed (use Push_full [OF assms(1)] in simp)

lemma Push_branches_witness:
  "\<exists>r'. Push (NewRingBuffer 4) zero_metric = (r', True) \<and> rb_inv r' \<and> contents r' = [zero_metric]"
  using Push_branches [of "NewRingBuffer 4" zero_metric] NewRingBuffer_inv [of 4]
  by (simp add: NewRingBuffer_def Let_def contents_def)

text \<open>
  \<open>PopInto(dst)\<close> writes the oldest \<open>min(len(dst), stored)\<close> metrics, in order, to the front of
  \<open>dst\<close>, leaves the other cells alone, returns that number, and removes exactly those metrics.
\<close>

theorem PopInto_takes_front:
  assumes "rb_inv r" and "length dst < 2 ^ 64"
  shows "\<exists>r' k. k = min (length dst) (length (contents r)) \<and>
     PopInto r dst = (r', take k (contents r) @ drop k dst, k) \<and>
     rb_inv r' \<and> contents r' = drop k (contents r)"
  using PopInto_spec [OF assms] by auto

lemma PopInto_takes_front_witness:
  "\<exists>r' k. k = 1 \<and> PopInto (fst (Push (NewRingBuffer 4) zero_metric)) [zero_metric, zero_metric]
      = (r', [zero_metric, zero_metric], k) \<and> rb_inv r' \<and> contents r' = []"
proof -
  let ?r = "fst (Push (NewRingBuffer 4) zero_metric)"
  have r: "rb_inv ?r" "contents ?r = [zero_metric]"
    using Push_room [of "NewRingBuffer 4" zero_metric] NewRingBuffer_inv [of 4]
    by (simp_all add: NewRingBuffer_size)
  show ?thesis
    using PopInto_takes_front [OF r(1), of "[zero_metric, zero_metric]"]
    by (simp add: r(2) del: contents_length)
qed

text \<open>
  The counters are not safe at the end of their range. In a well-formed empty ring whose
  write counter is at \<open>2 ^ 64 - 1\<close> a push succeeds and wraps the counter to 0, and from then on
  \<open>PopInto\<close>, which compares the counters with \<open><=\<close> where \<open>Push\<close> subtracts them, returns nothing
  although a metric was accepted.
\<close>

theorem write_counter_wraps:
  assumes "rb_size r > 0" "rb_write r = - 1" "rb_read r = - 1"
  shows "\<exists>r'. Push r m = (r', True) \<and> rb_write r' = 0 \<and> PopInto r' dst = (r', dst, 0)"
  using assms by (auto simp: Push_def PopInto_def Let_def not_le)

lemma write_counter_wraps_witness:
  "\<exists>r'. Push \<lparr>rb_size = 1, rb_buf = [0 :: nat], rb_write = - 1, rb_read = - 1\<rparr> 7 = (r', True) \<and>
     rb_write r' = 0 \<and> PopInto r' [0, 0] = (r', [0, 0], 0)"
  by (rule write_counter_wraps) simp_all

end
