(* ===== verification/RingRace.thy ===== *)
theory RingRace
  imports RingBuffer "HOL-Library.Multiset"
begin

text \<open>
  internal/telemetry/ringbuffer.go under concurrency. \<open>Push\<close> and \<open>PopInto\<close> are cut at every
  access to shared memory: the two atomic loads, the compare-and-swap, the plain store into
  the slot, the plain loads of the copy loop and the atomic store of the read counter. A
  schedule is a list of events; each event lets one goroutine make its next access. Accesses
  interleave in one order (sequentially consistent), which is what Go promises for the
  atomics and more than it promises for the plain slot accesses.

  The lemmas show what holds under every schedule (the counters), what holds while the
  consumer rests (the judge drains after all bots have returned), and, by concrete
  schedules, what the consumer that runs beside the bots can observe.
\<close>

section \<open>Goroutines and their program counters\<close>

text \<open>A producer inside \<open>Push(m)\<close>: the value of \<open>w\<close> is kept once it is loaded.\<close>

datatype 'a ppc =
    PIdle
  | PLoop 'a        \<comment> \<open>at the top of the loop\<close>
  | PGotW 'a u64    \<comment> \<open>\<open>w\<close> loaded, \<open>rd\<close> not yet\<close>
  | PTry 'a u64     \<comment> \<open>room was seen, about to compare and swap\<close>
  | PStore 'a u64   \<comment> \<open>position \<open>w\<close> claimed, slot not yet written\<close>

text \<open>The consumer inside \<open>PopInto(dst)\<close> with \<open>len(dst) = n\<close>.\<close>

datatype 'a cpc =
    CIdle
  | CGotR nat u64          \<comment> \<open>\<open>rd\<close> loaded\<close>
  | CCopy u64 nat "'a list" \<comment> \<open>\<open>rd\<close>, \<open>n\<close> and the cells of \<open>dst\<close> written so far\<close>

text \<open>
  Beside the ring and the program counters the state keeps a history that the code does
  not have: the metrics in the order in which their positions were claimed, the metrics
  whose \<open>Push\<close> returned true or false, and everything \<open>PopInto\<close> handed out.
\<close>

record 'a rsys =
  ring :: "'a ring"
  pcs :: "nat \<Rightarrow> 'a ppc"
  reader :: "'a cpc"
  claimed :: "'a list"
  accepted :: "'a list"
  dropped :: "'a list"
  popped :: "'a list"

datatype 'a rev = Call nat 'a | Prod nat | PopCall nat | Reader

definition start_sys :: "'a ring \<Rightarrow> 'a rsys" where
  "start_sys r = \<lparr>ring = r, pcs = (\<lambda>_. PIdle), reader = CIdle, claimed = [],
     accepted = [], dropped = [], popped = []\<rparr>"

definition set_pc :: "nat \<Rightarrow> 'a ppc \<Rightarrow> 'a rsys \<Rightarrow> 'a rsys" where
  "set_pc i p s = s\<lparr>pcs := (pcs s)(i := p)\<rparr>"

definition push_step :: "nat \<Rightarrow> 'a rsys \<Rightarrow> 'a rsys" where
  "push_step i s = (let r = ring s in
     case pcs s i of
       PIdle \<Rightarrow> s
     | PLoop m \<Rightarrow> set_pc i (PGotW m (rb_write r)) s
     | PGotW m w \<Rightarrow>
         if w - rb_read r \<ge> rb_size r
         then set_pc i PIdle (s\<lparr>dropped := dropped s @ [m]\<rparr>)
         else set_pc i (PTry m w) s
     | PTry m w \<Rightarrow>
         if rb_write r = w
         then set_pc i (PStore m w) (s\<lparr>ring := r\<lparr>rb_write := w + 1\<rparr>, claimed := claimed s @ [m]\<rparr>)
         else set_pc i (PLoop m) s
     | PStore m w \<Rightarrow>
         set_pc i PIdle (s\<lparr>ring := r\<lparr>rb_buf := (rb_buf r)[slot r w := m]\<rparr>,
                           accepted := accepted s @ [m]\<rparr>))"

definition pop_step :: "'a rsys \<Rightarrow> 'a rsys" where
  "pop_step s = (let r = ring s in
     case reader s of
       CIdle \<Rightarrow> s
     | CGotR n rd \<Rightarrow>
         let w = rb_write r in
         if w \<le> rd then s\<lparr>reader := CIdle\<rparr>
         else s\<lparr>reader := CCopy rd (unat (if w - rd < of_nat n then w - rd else (of_nat n :: u64))) []\<rparr>
     | CCopy rd n got \<Rightarrow>
         if length got < n
         then s\<lparr>reader := CCopy rd n (got @ [rb_buf r ! slot r (rd + of_nat (length got))])\<rparr>
         else s\<lparr>ring := r\<lparr>rb_read := rd + of_nat n\<rparr>, reader := CIdle, popped := popped s @ got\<rparr>)"

fun rb_step :: "'a rsys \<Rightarrow> 'a rev \<Rightarrow> 'a rsys" where
  "rb_step s (Call i m) = (if pcs s i = PIdle then set_pc i (PLoop m) s else s)"
| "rb_step s (Prod i) = push_step i s"
| "rb_step s (PopCall n) =
     (if reader s = CIdle then s\<lparr>reader := CGotR n (rb_read (ring s))\<rparr> else s)"
| "rb_step s Reader = pop_step s"

definition rb_run :: "'a rsys \<Rightarrow> 'a rev list \<Rightarrow> 'a rsys" where
  "rb_run s es = fold (\<lambda>e s. rb_step s e) es s"

lemma rb_run_Nil [simp]: "rb_run s [] = s"
  by (simp add: rb_run_def)

lemma rb_run_Cons [simp]: "rb_run s (e # es) = rb_run (rb_step s e) es"
  by (simp add: rb_run_def)

text \<open>A property kept by every event of a kind is kept by every schedule of that kind.\<close>

lemma rb_run_inv:
  assumes "\<And>s e. P s \<Longrightarrow> e \<in> set es \<Longrightarrow> P (rb_step s e)" and "P s"
  shows "P (rb_run s es)"
  using assms by (induction es arbitrary: s) auto

lemmas step_defs = push_step_def pop_step_def set_pc_def Let_def

section \<open>The counters under every schedule\<close>

text \<open>
  \<open>PTry m w\<close> remembers that fewer than \<open>size\<close> positions separated \<open>w\<close> from the read counter
  when it was loaded; the read counter only grows, so this still bounds the claim. The
  reader's \<open>rd\<close> is the read counter, since nobody else writes it.
\<close>

definition counters_ok :: "'a rsys \<Rightarrow> bool" where
  "counters_ok s \<longleftrightarrow> (let r = ring s in
     rb_inv r \<and> unat (rb_write r) = length (claimed s) \<and> unat (rb_read r) = length (popped s) \<and>
     (\<forall>i m w. pcs s i = PGotW m w \<longrightarrow> unat w \<le> unat (rb_write r)) \<and>
     (\<forall>i m w. pcs s i = PTry m w \<longrightarrow>
        unat w \<le> unat (rb_write r) \<and> unat w < unat (rb_read r) + unat (rb_size r)) \<and>
     (\<forall>n rd. reader s = CGotR n rd \<longrightarrow> rd = rb_read r) \<and>
     (\<forall>rd n got. reader s = CCopy rd n got \<longrightarrow>
        rd = rb_read r \<and> length got \<le> n \<and> unat rd + n \<le> unat (rb_write r)))"

lemma counters_ok_start:
  "rb_inv r \<Longrightarrow> rb_write r = 0 \<Longrightarrow> rb_read r = 0 \<Longrightarrow> counters_ok (start_sys r)"
  by (simp add: counters_ok_def start_sys_def)

lemma counters_ok_push:
  assumes ok: "counters_ok s" and few: "length (claimed s) + 1 < 2 ^ 64"
  shows "counters_ok (push_step i s)"
proof (cases "pcs s i")
  case (PGotW m w)
  have "unat w < unat (rb_read (ring s)) + unat (rb_size (ring s))"
    if "w - rb_read (ring s) < rb_size (ring s)"
  proof (cases "rb_read (ring s) \<le> w")
    case True
    then show ?thesis using that by (simp add: words)
  next
    case False
    then show ?thesis by (simp add: words)
  qed
  with ok PGotW show ?thesis
    by (auto simp: counters_ok_def step_defs rb_inv_def not_le)
next
  case (PTry m w)
  show ?thesis
  proof (cases "rb_write (ring s) = w")
    case True
    then have "unat (w + 1) = unat w + 1"
      using ok few by (auto simp: counters_ok_def Let_def words)
    with ok PTry True show ?thesis
      by (fastforce simp: counters_ok_def step_defs rb_inv_def)
  next
    case False
    with ok PTry show ?thesis
      by (auto simp: counters_ok_def step_defs rb_inv_def)
  qed
qed (use ok in \<open>auto simp: counters_ok_def step_defs rb_inv_def\<close>)

lemma counters_ok_pop:
  assumes ok: "counters_ok s"
  shows "counters_ok (pop_step s)"
proof (cases "reader s")
  case (CGotR n rd)
  let ?w = "rb_write (ring s)"
  have "unat rd + unat (if ?w - rd < of_nat n then ?w - rd else (of_nat n :: u64)) \<le> unat ?w"
    if "rd < ?w"
    using that by (auto simp: words)
  with ok CGotR show ?thesis
    by (auto simp: counters_ok_def step_defs not_le)
next
  case (CCopy rd n got)
  have bound: "unat rd + n \<le> unat (rb_write (ring s))" "rd = rb_read (ring s)"
    using ok CCopy by (auto simp: counters_ok_def Let_def)
  then have "unat rd + n < 2 ^ 64" using unat_less_u64 [of "rb_write (ring s)"]
    by (simp del: unat_less_u64)
  then have "unat (rd + of_nat n) = unat rd + n"
    by (subst unat_plus_u64) (simp_all add: unat_of_nat_u64)
  with ok CCopy bound show ?thesis
    by (fastforce simp: counters_ok_def step_defs rb_inv_def)
qed (use ok in \<open>simp add: pop_step_def\<close>)

lemma claimed_step: "length (claimed (rb_step s e)) \<le> length (claimed s) + 1"
  by (cases e) (auto simp: step_defs split: ppc.splits cpc.splits)

lemma counters_ok_step [keeps]:
  "counters_ok s \<Longrightarrow> length (claimed s) + 1 < 2 ^ 64 \<Longrightarrow> counters_ok (rb_step s e)"
  by (cases e) (auto simp: counters_ok_push counters_ok_pop,
    auto simp: counters_ok_def set_pc_def Let_def)

lemma counters_ok_run:
  "counters_ok s \<Longrightarrow> length (claimed s) + length es < 2 ^ 64 \<Longrightarrow> counters_ok (rb_run s es)"
proof (induction es arbitrary: s)
  case (Cons e es)
  have "length (claimed (rb_step s e)) + length es < 2 ^ 64"
    using claimed_step [of s e] Cons.prems(2) by simp
  moreover have "counters_ok (rb_step s e)" using Cons.prems by (simp add: counters_ok_step)
  ultimately show ?case using Cons.IH by simp
qed simp

lemma fresh_ring_counters [simp]:
  "rb_write (NewRingBuffer n) = 0" "rb_read (NewRingBuffer n) = 0"
  by (simp_all add: NewRingBuffer_def Let_def)

lemma fresh_counters_ok:
  "length es < 2 ^ 64 \<Longrightarrow> counters_ok (rb_run (start_sys (NewRingBuffer n)) es)"
  by (rule counters_ok_run) (simp_all add: counters_ok_start NewRingBuffer_inv, simp add: start_sys_def)

section \<open>No push is lost or made up in the history\<close>

text \<open>Producers between their compare-and-swap and their store, and the metric each holds.\<close>

definition inflight :: "'a rsys \<Rightarrow> nat set" where
  "inflight s = {i. \<exists>m w. pcs s i = PStore m w}"

definition held :: "'a rsys \<Rightarrow> nat \<Rightarrow> 'a" where
  "held s i = (case pcs s i of PStore m w \<Rightarrow> m | _ \<Rightarrow> undefined)"

definition history_ok :: "'a rsys \<Rightarrow> bool" where
  "history_ok s \<longleftrightarrow> finite (inflight s) \<and>
     mset (claimed s) = mset (accepted s) + image_mset (held s) (mset_set (inflight s))"

lemma history_ok_start: "history_ok (start_sys r)"
  by (simp add: history_ok_def start_sys_def inflight_def)

text \<open>Moving a producer to a state other than \<open>PStore\<close>, from one other than \<open>PStore\<close>, changes nothing.\<close>

lemma inflight_same:
  assumes "pcs t = (pcs s)(i := p)" and "i \<notin> inflight s" and "\<And>m w. p \<noteq> PStore m w"
  shows "inflight t = inflight s" and "j \<in> inflight s \<Longrightarrow> held t j = held s j"
  using assms by (auto simp: inflight_def held_def)

lemma history_ok_same:
  assumes "history_ok s" "pcs t = (pcs s)(i := p)" "i \<notin> inflight s" "\<And>m w. p \<noteq> PStore m w"
    "claimed t = claimed s" "accepted t = accepted s"
  shows "history_ok t"
proof -
  have "image_mset (held t) (mset_set (inflight s)) = image_mset (held s) (mset_set (inflight s))"
    using assms(1) inflight_same(2) [OF assms(2-4)]
    by (intro image_mset_cong) (auto simp: history_ok_def)
  then show ?thesis
    using assms inflight_same(1) [OF assms(2-4)] by (simp add: history_ok_def)
qed

lemma history_ok_claim:
  assumes "history_ok s" "pcs t = (pcs s)(i := PStore m w)" "i \<notin> inflight s"
    "claimed t = claimed s @ [m]" "accepted t = accepted s"
  shows "history_ok t"
proof -
  have ins: "inflight t = insert i (inflight s)"
    using assms(2) by (auto simp: inflight_def)
  have "image_mset (held t) (mset_set (inflight s)) = image_mset (held s) (mset_set (inflight s))"
    using assms(1-3) by (intro image_mset_cong) (auto simp: history_ok_def held_def)
  moreover have "held t i = m" by (simp add: held_def assms(2))
  ultimately show ?thesis
    using assms ins by (simp add: history_ok_def)
qed

lemma history_ok_store:
  assumes "history_ok s" "pcs s i = PStore m w" "pcs t = (pcs s)(i := PIdle)"
    "claimed t = claimed s" "accepted t = accepted s @ [m]"
  shows "history_ok t"
proof -
  have i: "i \<in> inflight s" and del: "inflight t = inflight s - {i}"
    using assms(2,3) by (auto simp: inflight_def)
  have fin: "finite (inflight s)" using assms(1) by (simp add: history_ok_def)
  have "image_mset (held t) (mset_set (inflight t)) = image_mset (held s) (mset_set (inflight t))"
    using fin assms(3) by (intro image_mset_cong) (auto simp: held_def del)
  moreover have "mset_set (inflight s) = add_mset i (mset_set (inflight t))"
    using fin i by (simp add: del mset_set.remove)
  moreover have "held s i = m" by (simp add: held_def assms(2))
  ultimately show ?thesis
    using assms(1,4,5) fin by (simp add: history_ok_def del)
qed

lemma history_ok_frame:
  "pcs t = pcs s \<Longrightarrow> claimed t = claimed s \<Longrightarrow> accepted t = accepted s \<Longrightarrow> history_ok t = history_ok s"
proof -
  assume "pcs t = pcs s" "claimed t = claimed s" "accepted t = accepted s"
  moreover from this(1) have "held t = held s" "inflight t = inflight s"
    by (auto simp: held_def inflight_def)
  ultimately show ?thesis by (simp add: history_ok_def)
qed

lemma pop_step_frame [simp]:
  "pcs (pop_step s) = pcs s" "claimed (pop_step s) = claimed s"
  "accepted (pop_step s) = accepted s" "dropped (pop_step s) = dropped s"
  by (auto simp: step_defs split: cpc.splits)

lemma history_ok_step [keeps]:
  assumes "history_ok s" shows "history_ok (rb_step s e)"
proof (cases e)
  case (Call i m)
  then show ?thesis
    using assms by (auto simp: set_pc_def inflight_def intro: history_ok_same [of s _ i "PLoop m"])
next
  case (Prod i)
  show ?thesis
  proof (cases "pcs s i")
    case (PTry m w)
    then show ?thesis using assms Prod
      by (auto simp: step_defs inflight_def intro: history_ok_claim [of s _ i m w]
        history_ok_same [of s _ i "PLoop m"])
  next
    case (PStore m w)
    then show ?thesis using assms Prod
      by (auto simp: step_defs intro: history_ok_store [of s i m w])
  qed (use assms Prod in \<open>auto simp: step_defs inflight_def intro: history_ok_same [of s _ i]\<close>)
qed (use assms history_ok_frame [of "rb_step s e" s] in \<open>simp_all\<close>)

lemma history_ok_run: "history_ok s \<Longrightarrow> history_ok (rb_run s es)"
  by (rule rb_run_inv [of history_ok es]) (simp_all add: history_ok_step)

lemma history_quiet:
  assumes "history_ok s" and "\<And>i. pcs s i = PIdle"
  shows "mset (claimed s) = mset (accepted s)"
  using assms by (simp add: history_ok_def inflight_def)

section \<open>Bots first, drain afterwards\<close>

text \<open>
  The judge drains the ring after \<open>botfleet.Run\<close> has waited for every bot, so no reader
  event interleaves with the producers. Then slot \<open>k\<close> belongs to the \<open>k\<close>-th claim for good:
  it holds that metric or the claiming producer is about to store it.
\<close>

definition producer_event :: "'a rev \<Rightarrow> bool" where
  "producer_event e = (case e of Call i m \<Rightarrow> True | Prod i \<Rightarrow> True | _ \<Rightarrow> False)"

definition no_reader_yet :: "'a rsys \<Rightarrow> bool" where
  "no_reader_yet s \<longleftrightarrow> rb_read (ring s) = 0 \<and> reader s = CIdle \<and> popped s = []"

definition stores_ok :: "'a rsys \<Rightarrow> bool" where
  "stores_ok s \<longleftrightarrow>
     (\<forall>i m w. pcs s i = PStore m w \<longrightarrow> unat w < length (claimed s) \<and> claimed s ! unat w = m) \<and>
     (\<forall>i j m m' w. pcs s i = PStore m w \<longrightarrow> pcs s j = PStore m' w \<longrightarrow> i = j) \<and>
     (\<forall>k < length (claimed s). rb_buf (ring s) ! k = claimed s ! k \<or>
        (\<exists>i. pcs s i = PStore (claimed s ! k) (of_nat k)))"

definition drops_ok :: "'a rsys \<Rightarrow> bool" where
  "drops_ok s \<longleftrightarrow> (dropped s \<noteq> [] \<longrightarrow> length (claimed s) = unat (rb_size (ring s)))"

definition phase_one :: "'a rsys \<Rightarrow> bool" where
  "phase_one s \<longleftrightarrow> counters_ok s \<and> no_reader_yet s \<and> stores_ok s \<and> drops_ok s"

lemma phase_one_claims:
  assumes "phase_one s"
  shows "length (claimed s) \<le> unat (rb_size (ring s))"
    and "unat (rb_write (ring s)) = length (claimed s)"
    and "length (rb_buf (ring s)) = unat (rb_size (ring s))"
    and "pcs s i = PTry m w \<Longrightarrow> unat w < unat (rb_size (ring s))"
    and "pcs s i = PGotW m w \<Longrightarrow> unat w \<le> length (claimed s)"
  using assms by (auto simp: phase_one_def counters_ok_def no_reader_yet_def rb_inv_def Let_def)

lemma stores_ok_claim:
  assumes "stores_ok s" "pcs s i = PTry m w" "unat w = length (claimed s)"
    "pcs t = (pcs s)(i := PStore m w)" "claimed t = claimed s @ [m]" "rb_buf (ring t) = rb_buf (ring s)"
  shows "stores_ok t"
  unfolding stores_ok_def
proof (intro conjI allI impI)
  fix j m' w' assume "pcs t j = PStore m' w'"
  then show "unat w' < length (claimed t)" "claimed t ! unat w' = m'"
    using assms by (auto simp: stores_ok_def nth_append less_Suc_eq split: if_splits)
next
  fix j j' m1 m2 w' assume "pcs t j = PStore m1 w'" "pcs t j' = PStore m2 w'"
  then show "j = j'" using assms by (fastforce simp: stores_ok_def split: if_splits)
next
  fix k assume k: "k < length (claimed t)"
  show "rb_buf (ring t) ! k = claimed t ! k \<or> (\<exists>j. pcs t j = PStore (claimed t ! k) (of_nat k))"
  proof (cases "k < length (claimed s)")
    case True
    then consider "rb_buf (ring s) ! k = claimed s ! k"
      | j where "pcs s j = PStore (claimed s ! k) (of_nat k)"
      using assms(1) by (auto simp: stores_ok_def)
    then show ?thesis
    proof cases
      case (2 j)
      then have "j \<noteq> i" using assms(2) by auto
      then show ?thesis using 2 True assms(4,5) by (auto simp: nth_append)
    qed (use True assms in \<open>simp add: nth_append\<close>)
  next
    case False
    then have kw: "k = unat w" using k assms by simp
    then have "of_nat k = w" by simp
    moreover have "claimed t ! k = m" using kw assms by simp
    ultimately have "pcs t i = PStore (claimed t ! k) (of_nat k)" using assms by simp
    then show ?thesis by blast
  qed
qed

lemma stores_ok_store:
  assumes ok: "stores_ok s" and i: "pcs s i = PStore m w" and b: "length (claimed s) \<le> length (rb_buf (ring s))"
      "length (claimed s) < 2 ^ 64"
    and t: "pcs t = (pcs s)(i := PIdle)" "claimed t = claimed s"
      "rb_buf (ring t) = (rb_buf (ring s))[unat w := m]"
  shows "stores_ok t"
  unfolding stores_ok_def
proof (intro conjI allI impI)
  fix j m' w' assume "pcs t j = PStore m' w'"
  then show "unat w' < length (claimed t)" "claimed t ! unat w' = m'"
    using ok t by (auto simp: stores_ok_def split: if_splits)
next
  fix j j' m1 m2 w' assume "pcs t j = PStore m1 w'" "pcs t j' = PStore m2 w'"
  then show "j = j'" using ok t by (fastforce simp: stores_ok_def split: if_splits)
next
  fix k assume "k < length (claimed t)"
  then have k: "k < length (claimed s)" by (simp add: t)
  have w: "claimed s ! unat w = m" using ok i by (auto simp: stores_ok_def)
  show "rb_buf (ring t) ! k = claimed t ! k \<or> (\<exists>j. pcs t j = PStore (claimed t ! k) (of_nat k))"
  proof (cases "k = unat w")
    case True
    then show ?thesis using k b w by (simp add: t)
  next
    case False
    have "k < 2 ^ 64" using k b(2) by simp
    then have "(of_nat k :: u64) \<noteq> w" using False by (auto simp: unat_of_nat_u64)
    then have other: "j \<noteq> i" if "pcs s j = PStore (claimed s ! k) (of_nat k)" for j
      using that i by auto
    have "rb_buf (ring s) ! k = claimed s ! k \<or> (\<exists>j. pcs s j = PStore (claimed s ! k) (of_nat k))"
      using ok k by (simp add: stores_ok_def)
    then show ?thesis using other False by (auto simp: t)
  qed
qed

lemma stores_ok_frame:
  assumes "stores_ok s" "pcs t = (pcs s)(i := p)" "\<And>m w. pcs s i \<noteq> PStore m w" "\<And>m w. p \<noteq> PStore m w"
    "claimed t = claimed s" "rb_buf (ring t) = rb_buf (ring s)"
  shows "stores_ok t"
proof -
  have "pcs t j = PStore m w \<longleftrightarrow> pcs s j = PStore m w" for j m w
    using assms(2-4) by simp
  then show ?thesis using assms(1) by (simp add: stores_ok_def assms(5,6))
qed

lemma slot_small:
  "rb_inv r \<Longrightarrow> unat w < unat (rb_size r) \<Longrightarrow> slot r w = unat w"
  by (simp add: slot_def words)

lemma drops_ok_push:
  assumes p: "phase_one s" shows "drops_ok (push_step i s)"
proof (cases "pcs s i")
  case (PGotW m w)
  have "length (claimed s) = unat (rb_size (ring s))" if "rb_size (ring s) \<le> w"
    using phase_one_claims(1) [OF p] phase_one_claims(5) [OF p PGotW] that by (simp add: words)
  then show ?thesis
    using p PGotW by (auto simp: phase_one_def drops_ok_def no_reader_yet_def step_defs)
next
  case (PTry m w)
  have "length (claimed s) < unat (rb_size (ring s))" if "rb_write (ring s) = w"
    using phase_one_claims(2) [OF p] phase_one_claims(4) [OF p PTry] that by simp
  then show ?thesis
    using p PTry by (auto simp: phase_one_def drops_ok_def step_defs)
qed (use p in \<open>auto simp: phase_one_def drops_ok_def step_defs\<close>)

lemma stores_ok_push:
  assumes p: "phase_one s" shows "stores_ok (push_step i s)"
proof -
  note facts = phase_one_claims [OF p]
  have ok: "stores_ok s" using p by (simp add: phase_one_def)
  show ?thesis
  proof (cases "pcs s i")
    case (PTry m w)
    show ?thesis
    proof (cases "rb_write (ring s) = w")
      case True
      then have "unat w = length (claimed s)" using facts(2) by simp
      then show ?thesis using PTry True
        by (intro stores_ok_claim [OF ok PTry]) (auto simp: step_defs)
    next
      case False
      then show ?thesis using PTry
        by (intro stores_ok_frame [OF ok, of _ i "PLoop m"]) (auto simp: step_defs)
    qed
  next
    case (PStore m w)
    have "unat w < length (claimed s)" using ok PStore unfolding stores_ok_def by blast
    then have "unat w < unat (rb_size (ring s))" using facts(1) by simp
    then have "slot (ring s) w = unat w"
      using p by (intro slot_small) (simp_all add: phase_one_def counters_ok_def Let_def)
    moreover have "length (claimed s) < 2 ^ 64"
      using le_less_trans [OF facts(1) unat_less_u64] by simp
    ultimately show ?thesis using PStore facts(1,3)
      by (intro stores_ok_store [OF ok PStore]) (auto simp: step_defs)
  qed (use ok in \<open>auto simp: step_defs intro: stores_ok_frame [OF ok, of _ i]\<close>)
qed

lemma phase_one_step [keeps]:
  assumes p: "phase_one s" and few: "length (claimed s) + 1 < 2 ^ 64" and e: "producer_event e"
  shows "phase_one (rb_step s e)"
proof (cases e)
  case (Call i m)
  have "stores_ok (set_pc i (PLoop m) s)" if "pcs s i = PIdle"
    by (rule stores_ok_frame [of s _ i "PLoop m"]) (use p that in \<open>simp_all add: phase_one_def set_pc_def\<close>)
  then show ?thesis using p Call counters_ok_step [of s e] few
    by (auto simp: phase_one_def no_reader_yet_def drops_ok_def set_pc_def)
next
  case (Prod i)
  have "no_reader_yet (push_step i s)"
    using p by (auto simp: phase_one_def no_reader_yet_def step_defs split: ppc.splits)
  then show ?thesis
    using p Prod few counters_ok_push [of s i] stores_ok_push [OF p, of i] drops_ok_push [OF p, of i]
    by (simp add: phase_one_def)
qed (use e in \<open>simp_all add: producer_event_def\<close>)

lemma phase_one_run:
  assumes "phase_one s" "length (claimed s) + length es < 2 ^ 64" "list_all producer_event es"
  shows "phase_one (rb_run s es)"
  using assms
proof (induction es arbitrary: s)
  case (Cons e es)
  have "length (claimed (rb_step s e)) + length es < 2 ^ 64"
    using claimed_step [of s e] Cons.prems(2) by simp
  moreover have "phase_one (rb_step s e)" using Cons.prems by (simp add: phase_one_step)
  ultimately show ?case using Cons by simp
qed simp

lemma phase_one_start: "phase_one (start_sys (NewRingBuffer n))"
  by (simp add: phase_one_def counters_ok_start NewRingBuffer_inv no_reader_yet_def stores_ok_def
      drops_ok_def) (simp add: start_sys_def)

lemma rb_size_step [simp]: "rb_size (ring (rb_step s e)) = rb_size (ring s)"
  by (cases e) (auto simp: step_defs split: ppc.splits cpc.splits)

lemma rb_size_run: "rb_size (ring (rb_run s es)) = rb_size (ring s)"
  by (induction es arbitrary: s) auto

text \<open>Once every producer is back from \<open>Push\<close> the ring holds the claims in their order.\<close>

lemma phase_one_contents:
  assumes p: "phase_one s" and idle: "\<And>i. pcs s i = PIdle"
  shows "contents (ring s) = claimed s"
proof -
  note facts = phase_one_claims [OF p]
  have "\<forall>k < length (claimed s). rb_buf (ring s) ! k = claimed s ! k"
    using p idle by (auto simp: phase_one_def stores_ok_def)
  moreover have "k mod unat (rb_size (ring s)) = k" if "k < length (claimed s)" for k
    using that facts(1) by simp
  moreover have "unat (rb_read (ring s)) = 0"
    using p by (simp add: phase_one_def no_reader_yet_def)
  ultimately show ?thesis
    by (intro nth_equalityI) (simp_all add: contents_def facts(2))
qed

section \<open>Schedules with a concurrent reader\<close>

text \<open>
  The three schedules below are short enough to evaluate. All use \<open>NewRingBuffer 1\<close>.

  \<^item> \<open>stale_schedule\<close>: producer 0 has claimed position 0 but not stored yet when the reader pops.
  \<^item> \<open>overwrite_schedule\<close>: then producer 1 pushes a whole metric into the freed slot, and
    producer 0's late store lands on top of it.
  \<^item> \<open>spurious_schedule\<close>: producer 0 loads \<open>w\<close>, then producer 1 pushes and the reader pops, so
    the \<open>rd\<close> that producer 0 loads next is ahead of its \<open>w\<close> and \<open>w - rd\<close> wraps.
\<close>

definition stale_schedule :: "metric \<Rightarrow> metric rev list" where
  "stale_schedule a = [Call 0 a, Prod 0, Prod 0, Prod 0, PopCall 1, Reader, Reader, Reader]"

definition overwrite_schedule :: "metric \<Rightarrow> metric \<Rightarrow> metric rev list" where
  "overwrite_schedule a b = stale_schedule a @
     [Call 1 b, Prod 1, Prod 1, Prod 1, Prod 1, Prod 0, PopCall 1, Reader, Reader, Reader]"

definition spurious_schedule :: "metric \<Rightarrow> metric \<Rightarrow> metric rev list" where
  "spurious_schedule a b =
     [Call 0 a, Prod 0, Call 1 b, Prod 1, Prod 1, Prod 1, Prod 1,
      PopCall 1, Reader, Reader, Reader, Prod 0]"

lemmas run_defs = stale_schedule_def overwrite_schedule_def spurious_schedule_def
  start_sys_def NewRingBuffer_def step_defs slot_def

section \<open>Properties\<close>

text \<open>
  C3: whatever the interleaving of any number of producers with the reader, the write counter
  is never behind the read counter and never more than one lap ahead of it, and the reader
  has handed out at most as many metrics as positions were claimed. (Shorter schedules than
  \<open>2 ^ 64\<close> accesses cannot wrap the counters.)
\<close>

theorem counters_never_overtake:
  fixes es :: "metric rev list" and n :: u64
  assumes "length es < 2 ^ 64"
  defines "s \<equiv> rb_run (start_sys (NewRingBuffer n)) es"
  shows "unat (rb_read (ring s)) \<le> unat (rb_write (ring s)) \<and>
    unat (rb_write (ring s)) - unat (rb_read (ring s)) \<le> (if n = 0 then 1 else unat n) \<and>
    length (popped s) \<le> length (claimed s)"
proof -
  have "rb_size (ring s) = (if n = 0 then 1 else n)"
    by (simp add: s_def rb_size_run start_sys_def NewRingBuffer_size)
  moreover have "counters_ok s" using assms by (simp add: fresh_counters_ok)
  ultimately show ?thesis by (auto simp: counters_ok_def rb_inv_def Let_def split: if_splits)
qed

lemma counters_never_overtake_witness:
  "unat (rb_write (ring (rb_run (start_sys (NewRingBuffer 1)) (stale_schedule zero_metric)))) -
   unat (rb_read (ring (rb_run (start_sys (NewRingBuffer 1)) (stale_schedule zero_metric)))) \<le> 1"
  using counters_never_overtake [of "stale_schedule zero_metric" 1]
  by (simp add: stale_schedule_def)

text \<open>
  C2: bots first, drain afterwards, which is how the judge uses the ring. After any
  interleaving of any number of concurrent \<open>Push\<close> calls on a fresh ring, with every call
  returned, the ring is well formed, holds every accepted metric exactly once and nothing
  else, and a metric was dropped only if the ring is full.
\<close>

theorem concurrent_pushes_all_kept:
  fixes es :: "metric rev list" and n :: u64
  assumes "list_all producer_event es" "length es < 2 ^ 64"
  defines "s \<equiv> rb_run (start_sys (NewRingBuffer n)) es"
  assumes "\<And>i. pcs s i = PIdle"
  shows "rb_inv (ring s) \<and> mset (contents (ring s)) = mset (accepted s) \<and>
    (dropped s \<noteq> [] \<longrightarrow> length (accepted s) = (if n = 0 then 1 else unat n))"
proof -
  have p: "phase_one s"
    unfolding s_def using assms(1,2) phase_one_start by (intro phase_one_run) (simp_all add: start_sys_def)
  have "mset (claimed s) = mset (accepted s)"
    using history_ok_run [OF history_ok_start] assms(4) unfolding s_def by (rule history_quiet)
  moreover from this have "length (claimed s) = length (accepted s)" by (rule mset_eq_length)
  moreover have "contents (ring s) = claimed s" using p assms(4) by (rule phase_one_contents)
  moreover have "rb_size (ring s) = (if n = 0 then 1 else n)"
    by (simp add: s_def rb_size_run start_sys_def NewRingBuffer_size)
  ultimately show ?thesis
    using p by (auto simp: phase_one_def counters_ok_def drops_ok_def Let_def split: if_splits)
qed

lemma concurrent_pushes_all_kept_witness:
  "mset (contents (ring (rb_run (start_sys (NewRingBuffer 2))
      [Call 0 zero_metric, Call 1 zero_metric, Prod 0, Prod 1, Prod 0, Prod 1, Prod 1, Prod 0,
       Prod 1, Prod 0, Prod 0, Prod 0, Prod 0])))
   = {#zero_metric, zero_metric#}"
proof -
  let ?es = "[Call 0 zero_metric, Call 1 zero_metric, Prod 0, Prod 1, Prod 0, Prod 1, Prod 1, Prod 0,
       Prod 1, Prod 0, Prod 0, Prod 0, Prod 0]"
  let ?s = "rb_run (start_sys (NewRingBuffer 2)) ?es"
  have idle: "pcs ?s i = PIdle" for i by (simp add: run_defs word_le_nat_alt)
  have "accepted ?s = [zero_metric, zero_metric]" by (simp add: run_defs word_le_nat_alt)
  then show ?thesis
    using concurrent_pushes_all_kept [of ?es 2, OF _ _ idle] by (simp add: producer_event_def)
qed

text \<open>
  \<open>Push\<close> publishes a position before it stores the metric there. A reader that pops in
  between, on a ring of one slot, is handed the slot's old content, the zero metric that was
  never pushed, while no \<open>Push\<close> has returned.
\<close>

theorem reader_sees_unwritten_slot:
  "let s = rb_run (start_sys (NewRingBuffer 1)) (stale_schedule a)
   in popped s = [zero_metric] \<and> claimed s = [a] \<and> accepted s = []"
  by (simp add: run_defs)

text \<open>
  The same window loses a metric for which \<open>Push\<close> returned true: producer 1 pushes \<open>b\<close>
  completely into the slot that the reader freed, producer 0's late store replaces it by \<open>a\<close>,
  and the reader is handed the zero metric and \<open>a\<close>, never \<open>b\<close>; the ring ends empty.
\<close>

theorem late_store_loses_metric:
  "let s = rb_run (start_sys (NewRingBuffer 1)) (overwrite_schedule a b)
   in popped s = [zero_metric, a] \<and> accepted s = [b, a] \<and> contents (ring s) = []"
  by (simp add: run_defs contents_def word_le_nat_alt)

text \<open>
  \<open>Push\<close> can return false on an empty ring. It loads \<open>w\<close> before \<open>rd\<close>; if another push and a
  pop come in between, \<open>rd\<close> is ahead of \<open>w\<close>, \<open>w - rd\<close> wraps to \<open>2 ^ 64 - 1\<close> and passes for full.
\<close>

theorem push_drops_on_empty_ring:
  "let s = rb_run (start_sys (NewRingBuffer 1)) (spurious_schedule a b)
   in dropped s = [a] \<and> accepted s = [b] \<and> contents (ring s) = [] \<and> popped s = [b]"
  by (simp add: run_defs contents_def)

end
