(* ===== verification/GoFloat.thy ===== *)
theory GoFloat
  imports Prelude Complex_Main "HOL-Library.Log_Nat"
begin

text \<open>
  Go's \<open>float64\<close>, IEEE 754 binary64 with rounding to nearest, ties to even. Every finite
  value is a rational number, so arithmetic is exact rational arithmetic followed by
  \<open>fl\<close>, the rounding to 53 significant bits (fewer below \<open>2 ^ -1022\<close>); the operations are
  executable. Infinities and NaN are values. Not modelled: the sign of zero, and the fused
  multiply-add that the Go specification lets a compiler use (amd64, for which the images of
  deploy/ are built, does not).

  The lemmas are what the scores need: \<open>fl\<close> is monotone, is the identity on integers up to
  \<open>2 ^ 53\<close>, and is at most half a unit in the last place away from its argument.
\<close>

section \<open>Binary logarithm and rounding to an integer\<close>

definition ilog2 :: "rat \<Rightarrow> int" where
  "ilog2 q = (case quotient_of q of (p, d) \<Rightarrow>
     let e = bitlen p - bitlen d in if 2 powi e \<le> q then e else e - 1)"

definition rne :: "rat \<Rightarrow> int" where
  "rne q = (let f = \<lfloor>q\<rfloor>; r = q - of_int f in
     if r < 1 / 2 then f else if r > 1 / 2 then f + 1 else if even f then f else f + 1)"

lemma powi_pos [simp]: "(0 :: rat) < 2 powi e"
  by simp

lemma powi_Suc_mult: "(2 :: rat) powi (e + 1) = 2 * 2 powi e"
  by (simp add: power_int_add)

lemma ilog2_bounds:
  assumes "0 < q"
  shows "2 powi (ilog2 q) \<le> q" and "q < 2 powi (ilog2 q + 1)"
proof -
  obtain p d where pd: "quotient_of q = (p, d)" by fastforce
  have d: "0 < d" using quotient_of_denom_pos [OF pd] .
  have q: "q = of_int p / of_int d" using quotient_of_div [OF pd] .
  have p: "0 < p" using assms d by (simp add: q zero_less_divide_iff)
  have bit: "(2 :: rat) powi (bitlen x - 1) \<le> of_int x \<and> (of_int x :: rat) < 2 powi bitlen x"
    if "0 < x" for x
  proof -
    have b: "1 \<le> bitlen x" using that bitlen_eq_zero_iff [of x] bitlen_nonneg [of x] by linarith
    have "(of_int (2 ^ nat (bitlen x - 1)) :: rat) \<le> of_int x"
      and "(of_int x :: rat) < of_int (2 ^ nat (bitlen x))"
      using bitlen_bounds [OF that] by (simp_all only: of_int_le_iff of_int_less_iff)
    then show ?thesis using b by (simp add: power_int_nonneg_exp)
  qed
  let ?e = "bitlen p - bitlen d"
  have "q < 2 powi bitlen p / 2 powi (bitlen d - 1)"
    unfolding q using bit [OF p] bit [OF d] d p by (intro frac_less) auto
  also have "\<dots> = 2 powi (?e + 1)"
    by (simp add: algebra_simps flip: power_int_diff)
  finally have up: "q < 2 powi (?e + 1)" .
  have "2 powi (bitlen p - 1) / 2 powi bitlen d \<le> q"
    unfolding q using bit [OF p] bit [OF d] d p by (intro frac_le) auto
  moreover have "(2 :: rat) powi (bitlen p - 1) / 2 powi bitlen d = 2 powi (?e - 1)"
    by (simp add: algebra_simps flip: power_int_diff)
  ultimately have lo: "2 powi (?e - 1) \<le> q" by simp
  show "2 powi (ilog2 q) \<le> q" and "q < 2 powi (ilog2 q + 1)"
    using up lo by (auto simp: ilog2_def pd Let_def)
qed

lemma ilog2_ge: "2 powi e \<le> q \<Longrightarrow> e \<le> ilog2 q"
proof (rule ccontr)
  assume le: "2 powi e \<le> q" and "\<not> e \<le> ilog2 q"
  then have "ilog2 q + 1 \<le> e" by simp
  then have "(2 :: rat) powi (ilog2 q + 1) \<le> 2 powi e" by (simp add: power_int_increasing)
  moreover have "0 < q" using le less_le_trans [OF powi_pos] by blast
  ultimately show False using ilog2_bounds(2) [of q] le by linarith
qed

lemma ilog2_less: "0 < q \<Longrightarrow> q < 2 powi e \<Longrightarrow> ilog2 q < e"
proof (rule ccontr)
  assume "0 < q" and less: "q < 2 powi e" and "\<not> ilog2 q < e"
  then have "(2 :: rat) powi e \<le> 2 powi (ilog2 q)" by (simp add: power_int_increasing)
  then show False using ilog2_bounds(1) [OF \<open>0 < q\<close>] less by linarith
qed

lemma ilog2_mono: "0 < p \<Longrightarrow> p \<le> q \<Longrightarrow> ilog2 p \<le> ilog2 q"
  using ilog2_bounds(1) [of p] by (intro ilog2_ge) linarith

lemma rne_of_int [simp]: "rne (of_int n) = n"
  by (simp add: rne_def)

lemma rne_error: "\<bar>of_int (rne q) - q\<bar> \<le> 1 / 2"
proof -
  have "of_int \<lfloor>q\<rfloor> \<le> q" "q < of_int \<lfloor>q\<rfloor> + 1" by linarith+
  then show ?thesis by (auto simp: rne_def Let_def abs_le_iff)
qed

lemma rne_cases:
  "rne q = \<lfloor>q\<rfloor> \<and> q - of_int \<lfloor>q\<rfloor> \<le> 1 / 2 \<or> rne q = \<lfloor>q\<rfloor> + 1 \<and> 1 / 2 \<le> q - of_int \<lfloor>q\<rfloor>"
  by (auto simp: rne_def Let_def)

lemma rne_mono:
  assumes "p \<le> q" shows "rne p \<le> rne q"
proof (cases "\<lfloor>p\<rfloor> = \<lfloor>q\<rfloor>")
  case True
  then show ?thesis using assms by (auto simp: rne_def Let_def)
next
  case False
  then have "\<lfloor>p\<rfloor> + 1 \<le> \<lfloor>q\<rfloor>" using floor_mono [OF assms] by linarith
  moreover have "rne p \<le> \<lfloor>p\<rfloor> + 1" "\<lfloor>q\<rfloor> \<le> rne q" using rne_cases [of p] rne_cases [of q] by auto
  ultimately show ?thesis by linarith
qed

lemma rne_minus: "rne (- q) = - rne q"
proof (cases "q = of_int \<lfloor>q\<rfloor>")
  case True
  then show ?thesis by (metis of_int_minus rne_of_int)
next
  case False
  then have f: "\<lfloor>- q\<rfloor> = - \<lfloor>q\<rfloor> - 1" by linarith
  show ?thesis by (auto simp: rne_def Let_def f)
qed

section \<open>Rounding to binary64\<close>

text \<open>\<open>ulp_exp q\<close> is the exponent of the last bit kept; below \<open>2 ^ -1022\<close> it stays at \<open>-1074\<close>.\<close>

definition ulp_exp :: "rat \<Rightarrow> int" where
  "ulp_exp q = max (ilog2 \<bar>q\<bar> - 52) (- 1074)"

definition fl :: "rat \<Rightarrow> rat" where
  "fl q = (if q = 0 then 0 else of_int (rne (q / 2 powi ulp_exp q)) * 2 powi ulp_exp q)"

lemma fl_0 [simp]: "fl 0 = 0"
  by (simp add: fl_def)

lemma fl_minus: "fl (- q) = - fl q"
  by (simp add: fl_def ulp_exp_def rne_minus)

text \<open>A multiple of the last bit is not changed.\<close>

lemma fl_multiple:
  assumes "q = of_int m * 2 powi e" and "ulp_exp q \<le> e"
  shows "fl q = q"
proof -
  have "q / 2 powi ulp_exp q = of_int m * (2 powi e / 2 powi ulp_exp q)"
    by (subst assms(1)) simp
  also have "\<dots> = of_int m * 2 powi (e - ulp_exp q)"
    by (simp add: power_int_diff)
  also have "\<dots> = of_int (m * 2 ^ nat (e - ulp_exp q))"
    using assms(2) by (simp add: power_int_nonneg_exp)
  finally show ?thesis
    by (cases "q = 0") (simp_all only: fl_def rne_of_int, simp_all add: field_simps)
qed

text \<open>Representable numbers: up to 53 bits, not finer than \<open>2 ^ -1074\<close>.\<close>

lemma fl_exact:
  assumes "q = of_int m * 2 powi e" and m: "\<bar>m\<bar> < 2 ^ 53" and "- 1074 \<le> e"
  shows "fl q = q"
proof (cases "m = 0")
  case False
  have "\<bar>q\<bar> = of_int \<bar>m\<bar> * 2 powi e" by (simp add: assms(1) abs_mult)
  also have "\<dots> < 2 powi 53 * 2 powi e"
    using m by (intro mult_strict_right_mono) (simp_all flip: of_int_less_iff [where 'a = rat])
  also have "\<dots> = 2 powi (e + 53)" by (simp add: power_int_add)
  finally have "ilog2 \<bar>q\<bar> < e + 53" using False by (intro ilog2_less) (simp_all add: assms(1))
  then have "ulp_exp q \<le> e" using assms(3) by (simp add: ulp_exp_def)
  then show ?thesis using assms(1) by (rule fl_multiple [rotated])
qed (simp add: assms(1))

lemma fl_of_int [simp]: "\<bar>n\<bar> \<le> 2 ^ 53 \<Longrightarrow> fl (of_int n) = of_int n"
proof (cases "\<bar>n\<bar> = 2 ^ 53")
  case True
  then have "(of_int n :: rat) = of_int (sgn n) * 2 powi 53"
    by (metis of_int_mult of_int_numeral of_int_power power_int_numeral sgn_mult_abs)
  moreover have "\<bar>sgn n\<bar> < 2 ^ 53" by (simp add: abs_sgn)
  ultimately show ?thesis by (intro fl_exact [of _ "sgn n" 53]) auto
qed (intro fl_exact [of _ n 0], auto)

lemma fl_numeral [simp]: "(numeral k :: int) \<le> 2 ^ 53 \<Longrightarrow> fl (numeral k) = numeral k"
  using fl_of_int [of "numeral k"] by simp

lemma fl_1 [simp]: "fl 1 = 1"
  using fl_of_int [of 1] by simp

lemma fl_nonneg: "0 \<le> q \<Longrightarrow> 0 \<le> fl q"
  using rne_mono [of 0 "q / 2 powi ulp_exp q"] rne_of_int [of 0]
  by (auto simp: fl_def)

text \<open>Powers of two separate: from below, a number can at most be rounded up to one.\<close>

lemma fl_le_power:
  assumes "0 < q" "q \<le> 2 powi e" "ulp_exp q \<le> e"
  shows "fl q \<le> 2 powi e"
proof -
  let ?u = "ulp_exp q"
  have "q / 2 powi ?u \<le> 2 powi e / 2 powi ?u"
    using assms(2) by (simp add: divide_right_mono)
  also have "\<dots> = of_int (2 ^ nat (e - ?u))"
    using assms(3) by (simp add: power_int_nonneg_exp flip: power_int_diff)
  finally have "rne (q / 2 powi ?u) \<le> 2 ^ nat (e - ?u)" using rne_mono rne_of_int by metis
  then have "of_int (rne (q / 2 powi ?u)) \<le> (of_int (2 ^ nat (e - ?u)) :: rat)"
    by (simp only: of_int_le_iff)
  also have "\<dots> = 2 powi e / 2 powi ?u"
    using assms(3) by (simp add: power_int_nonneg_exp flip: power_int_diff)
  finally show ?thesis using assms(1) by (simp add: fl_def field_simps)
qed

lemma fl_ge_power:
  assumes "2 powi e \<le> q" "ulp_exp q \<le> e"
  shows "2 powi e \<le> fl q"
proof -
  let ?u = "ulp_exp q"
  have pos: "0 < q" using assms(1) less_le_trans [OF powi_pos] by blast
  have "of_int (2 ^ nat (e - ?u)) = (2 :: rat) powi e / 2 powi ?u"
    using assms(2) by (simp add: power_int_nonneg_exp flip: power_int_diff)
  also have "\<dots> \<le> q / 2 powi ?u" using assms(1) by (simp add: divide_right_mono)
  finally have "2 ^ nat (e - ?u) \<le> rne (q / 2 powi ?u)" using rne_mono rne_of_int by metis
  then have "(of_int (2 ^ nat (e - ?u)) :: rat) \<le> of_int (rne (q / 2 powi ?u))"
    by (simp only: of_int_le_iff)
  moreover have "(of_int (2 ^ nat (e - ?u)) :: rat) = 2 powi e / 2 powi ?u"
    using assms(2) by (simp add: power_int_nonneg_exp flip: power_int_diff)
  ultimately have "(2 :: rat) powi e / 2 powi ?u \<le> of_int (rne (q / 2 powi ?u))" by (simp only:)
  then show ?thesis using pos by (simp add: fl_def pos_divide_le_eq)
qed

lemma fl_mono_pos:
  assumes "0 < p" "p \<le> q"
  shows "fl p \<le> fl q"
proof (cases "ulp_exp p = ulp_exp q")
  case True
  have "rne (p / 2 powi ulp_exp q) \<le> rne (q / 2 powi ulp_exp q)"
    using assms(2) by (intro rne_mono divide_right_mono) auto
  then show ?thesis using assms True by (simp add: fl_def mult_right_mono)
next
  case False
  have le: "ilog2 p \<le> ilog2 q" using assms by (rule ilog2_mono)
  then have u: "ilog2 p < ilog2 q" "ulp_exp q = ilog2 q - 52" "ulp_exp p < ilog2 q"
    using False assms by (auto simp: ulp_exp_def)
  have "p < 2 powi (ilog2 p + 1)" using ilog2_bounds(2) assms by auto
  also have "\<dots> \<le> 2 powi (ilog2 q)" using u(1) by (simp add: power_int_increasing)
  finally have "fl p \<le> 2 powi (ilog2 q)" using assms u(3) by (intro fl_le_power) auto
  also have "\<dots> \<le> fl q"
    using ilog2_bounds(1) [of q] assms u(2) by (intro fl_ge_power) auto
  finally show ?thesis .
qed

lemma fl_mono: "p \<le> q \<Longrightarrow> fl p \<le> fl q"
proof -
  assume le: "p \<le> q"
  consider "0 < p" | "p \<le> 0" "0 \<le> q" | "q < 0" by linarith
  then show ?thesis
  proof cases
    case 2
    then have "fl p \<le> 0" "0 \<le> fl q" using fl_nonneg [of "- p"] fl_nonneg [of q] by (auto simp: fl_minus)
    then show ?thesis by linarith
  next
    case 3
    then show ?thesis using fl_mono_pos [of "- q" "- p"] le by (simp add: fl_minus)
  qed (use le fl_mono_pos in auto)
qed

lemma fl_error: "q \<noteq> 0 \<Longrightarrow> \<bar>fl q - q\<bar> \<le> 2 powi ulp_exp q / 2"
proof -
  assume "q \<noteq> 0"
  let ?u = "(2 :: rat) powi ulp_exp q"
  have "fl q - q = (of_int (rne (q / ?u)) - q / ?u) * ?u"
    using \<open>q \<noteq> 0\<close> by (simp add: fl_def algebra_simps)
  then have "\<bar>fl q - q\<bar> = \<bar>of_int (rne (q / ?u)) - q / ?u\<bar> * ?u" by (simp add: abs_mult)
  also have "\<dots> \<le> 1 / 2 * ?u" by (intro mult_right_mono rne_error) simp
  finally show ?thesis by simp
qed

section \<open>Values and operations\<close>

datatype f64 = Fin rat | PInf | NInf | NaN

definition f64_max :: rat where
  "f64_max = 2 ^ 1024"

definition to_f64 :: "rat \<Rightarrow> f64" where
  "to_f64 q = (let r = fl q in
     if f64_max \<le> r then PInf else if r \<le> - f64_max then NInf else Fin r)"

definition f_inf :: "bool \<Rightarrow> f64" where
  "f_inf pos = (if pos then PInf else NInf)"

fun f_neg :: "f64 \<Rightarrow> f64" where
  "f_neg (Fin a) = Fin (- a)"
| "f_neg PInf = NInf"
| "f_neg NInf = PInf"
| "f_neg NaN = NaN"

fun f_add :: "f64 \<Rightarrow> f64 \<Rightarrow> f64" where
  "f_add (Fin a) (Fin b) = to_f64 (a + b)"
| "f_add NaN _ = NaN"
| "f_add _ NaN = NaN"
| "f_add PInf NInf = NaN"
| "f_add NInf PInf = NaN"
| "f_add PInf _ = PInf"
| "f_add NInf _ = NInf"
| "f_add (Fin _) PInf = PInf"
| "f_add (Fin _) NInf = NInf"

definition f_sub :: "f64 \<Rightarrow> f64 \<Rightarrow> f64" where
  "f_sub x y = f_add x (f_neg y)"

fun f_mul :: "f64 \<Rightarrow> f64 \<Rightarrow> f64" where
  "f_mul (Fin a) (Fin b) = to_f64 (a * b)"
| "f_mul NaN _ = NaN"
| "f_mul _ NaN = NaN"
| "f_mul PInf (Fin b) = (if b = 0 then NaN else f_inf (0 < b))"
| "f_mul NInf (Fin b) = (if b = 0 then NaN else f_inf (b < 0))"
| "f_mul (Fin a) PInf = (if a = 0 then NaN else f_inf (0 < a))"
| "f_mul (Fin a) NInf = (if a = 0 then NaN else f_inf (a < 0))"
| "f_mul PInf PInf = PInf"
| "f_mul NInf NInf = PInf"
| "f_mul PInf NInf = NInf"
| "f_mul NInf PInf = NInf"

text \<open>Division by zero is an infinity or NaN, not an error; a zero divisor counts as \<open>+0\<close>.\<close>

fun f_div :: "f64 \<Rightarrow> f64 \<Rightarrow> f64" where
  "f_div (Fin a) (Fin b) =
     (if b = 0 then if a = 0 then NaN else f_inf (0 < a) else to_f64 (a / b))"
| "f_div NaN _ = NaN"
| "f_div _ NaN = NaN"
| "f_div (Fin a) _ = Fin 0"
| "f_div PInf (Fin b) = f_inf (0 \<le> b)"
| "f_div NInf (Fin b) = f_inf (b < 0)"
| "f_div _ _ = NaN"

fun f_less :: "f64 \<Rightarrow> f64 \<Rightarrow> bool" where
  "f_less (Fin a) (Fin b) = (a < b)"
| "f_less NaN _ = False"
| "f_less _ NaN = False"
| "f_less x PInf = (x \<noteq> PInf)"
| "f_less NInf y = (y \<noteq> NInf)"
| "f_less _ _ = False"

definition f_le :: "f64 \<Rightarrow> f64 \<Rightarrow> bool" where
  "f_le x y \<longleftrightarrow> f_less x y \<or> (x = y \<and> x \<noteq> NaN)"

text \<open>\<open>math.Max\<close>, \<open>math.Min\<close> and \<open>math.Round\<close>, with their documented special cases.\<close>

definition math_Max :: "f64 \<Rightarrow> f64 \<Rightarrow> f64" where
  "math_Max x y = (if x = PInf \<or> y = PInf then PInf
     else if x = NaN \<or> y = NaN then NaN else if f_less y x then x else y)"

definition math_Min :: "f64 \<Rightarrow> f64 \<Rightarrow> f64" where
  "math_Min x y = (if x = NInf \<or> y = NInf then NInf
     else if x = NaN \<or> y = NaN then NaN else if f_less x y then x else y)"

definition round_away :: "rat \<Rightarrow> int" where
  "round_away q = (if q < 0 then - \<lfloor>1 / 2 - q\<rfloor> else \<lfloor>q + 1 / 2\<rfloor>)"

fun math_Round :: "f64 \<Rightarrow> f64" where
  "math_Round (Fin q) = Fin (of_int (round_away q))"
| "math_Round x = x"

text \<open>
  \<open>math.Pow(x, 4)\<close> for \<open>x\<close> in \<open>[0, 1]\<close>: the library takes \<open>x\<close> apart into mantissa and
  exponent and squares the mantissa twice, rounding each time. Scaling by a power of two is
  exact, so this is squaring twice.
\<close>

definition math_Pow4 :: "f64 \<Rightarrow> f64" where
  "math_Pow4 x = (let s = f_mul x x in f_mul s s)"

section \<open>Conversions\<close>

definition f_of_int :: "int \<Rightarrow> f64" where
  "f_of_int i = to_f64 (of_int i)"

definition f_of_u64 :: "u64 \<Rightarrow> f64" where
  "f_of_u64 w = f_of_int (uint w)"

definition trunc :: "rat \<Rightarrow> int" where
  "trunc q = (if q < 0 then - \<lfloor>- q\<rfloor> else \<lfloor>q\<rfloor>)"

text \<open>
  Conversion to an integer truncates. Outside the target's range Go leaves the result to
  the implementation; 0 stands for it here and no lemma below speaks about that case.
\<close>

fun f_to_int :: "f64 \<Rightarrow> int" where
  "f_to_int (Fin q) = (if in_int64 (trunc q) then trunc q else 0)"
| "f_to_int _ = 0"

fun f_to_u64 :: "f64 \<Rightarrow> u64" where
  "f_to_u64 (Fin q) = (if 0 \<le> trunc q \<and> trunc q < 2 ^ 64 then word_of_int (trunc q) else 0)"
| "f_to_u64 _ = 0"

section \<open>Bounds\<close>

lemma fl_le_f64_max: "\<bar>q\<bar> \<le> 2 powi 1023 \<Longrightarrow> \<bar>fl q\<bar> \<le> 2 powi 1023"
proof -
  assume "\<bar>q\<bar> \<le> 2 powi 1023"
  have "fl (2 powi 1023) = 2 powi 1023" by (rule fl_exact [of _ 1 1023]) auto
  then have "fl q \<le> 2 powi 1023" "fl (- q) \<le> 2 powi 1023"
    using \<open>\<bar>q\<bar> \<le> 2 powi 1023\<close> by (metis abs_le_D1 abs_le_D2 fl_mono)+
  then show ?thesis by (simp only: fl_minus abs_le_iff simp_thms)
qed

lemma to_f64_Fin:
  assumes "\<bar>q\<bar> \<le> 2 ^ 1000" shows "to_f64 q = Fin (fl q)"
proof -
  have "(2 :: rat) ^ 1000 \<le> 2 powi 1023" by (simp only: power_int_numeral) (rule power_increasing, simp_all)
  then have b: "\<bar>fl q\<bar> \<le> 2 powi 1023" using assms by (intro fl_le_f64_max) (rule order_trans)
  have "(2 :: rat) powi 1023 < f64_max"
    unfolding f64_max_def by (simp only: power_int_numeral) (rule power_strict_increasing, simp_all)
  then have "\<bar>fl q\<bar> < f64_max" using b by (rule le_less_trans [rotated])
  then show ?thesis by (auto simp: to_f64_def Let_def abs_less_iff)
qed

lemma to_f64_small:
  assumes "\<bar>q\<bar> \<le> 2 ^ 80" shows "to_f64 q = Fin (fl q)"
proof -
  have "(2 :: rat) ^ 80 \<le> 2 ^ 1000" by (rule power_increasing) simp_all
  then show ?thesis using assms by (intro to_f64_Fin) (rule order_trans)
qed

lemma fl_range:
  assumes "of_int a \<le> q" "q \<le> of_int b" "\<bar>a\<bar> \<le> 2 ^ 53" "\<bar>b\<bar> \<le> 2 ^ 53"
  shows "of_int a \<le> fl q \<and> fl q \<le> of_int b"
  using fl_mono [OF assms(1)] fl_mono [OF assms(2)] assms(3,4) by simp

lemma f_of_int_small: "\<bar>i\<bar> \<le> 2 ^ 53 \<Longrightarrow> f_of_int i = Fin (of_int i)"
proof -
  assume i: "\<bar>i\<bar> \<le> 2 ^ 53"
  have "\<bar>of_int i :: rat\<bar> = of_int \<bar>i\<bar>" by simp
  also have "\<dots> \<le> of_int (2 ^ 1000)"
    using i by (simp only: of_int_le_iff) (rule order_trans [of _ "2 ^ 53"], simp, rule power_increasing, simp_all)
  finally show ?thesis using i by (simp add: f_of_int_def to_f64_Fin)
qed

lemma f_of_u64_small: "uint w \<le> 2 ^ 53 \<Longrightarrow> f_of_u64 w = Fin (of_int (uint w))"
  unfolding f_of_u64_def by (rule f_of_int_small) simp

lemma trunc_of_int [simp]: "trunc (of_int i) = i"
  by (simp add: trunc_def)

lemma round_away_of_int [simp]: "round_away (of_int i) = i"
  by (auto simp: round_away_def) linarith+

lemma round_away_mono:
  assumes "p \<le> q" shows "round_away p \<le> round_away q"
proof -
  have "\<lfloor>1 / 2 - q\<rfloor> \<le> \<lfloor>1 / 2 - p\<rfloor>" "\<lfloor>p + 1 / 2\<rfloor> \<le> \<lfloor>q + 1 / 2\<rfloor>" using assms by (auto intro: floor_mono)
  moreover have "0 \<le> \<lfloor>1 / 2 - p\<rfloor>" if "p < 0" using that by simp
  moreover have "0 \<le> \<lfloor>q + 1 / 2\<rfloor>" if "0 \<le> q" using that by simp
  ultimately show ?thesis using assms
    by (cases "p < 0"; cases "q < 0") (simp_all only: round_away_def if_True if_False, linarith+)
qed

text \<open>
  A quotient by 100 of an integer that \<open>float64\<close> holds exactly never rounds up to the next
  integer: it stays 1/100 away from it, and half a unit in the last place is at most 1/128.
\<close>

lemma fl_div100_floor:
  assumes "0 \<le> a" "a \<le> 2 ^ 53"
  shows "\<lfloor>fl (of_int a / 100)\<rfloor> = a div 100"
proof -
  let ?q = "of_int a / 100 :: rat" and ?k = "a div 100"
  have k: "0 \<le> ?k" "?k \<le> 2 ^ 53" using assms by auto
  have "(of_int a :: rat) = of_int (100 * ?k + a mod 100)" by simp
  then have split: "?q = of_int ?k + of_int (a mod 100) / 100"
    unfolding of_int_add of_int_mult by simp
  have "0 \<le> a mod 100" and "a mod 100 \<le> 99" by presburger+
  then have m: "0 \<le> (of_int (a mod 100) :: rat)" "(of_int (a mod 100) :: rat) \<le> of_int 99"
    by (simp_all only: of_int_le_iff of_int_0_le_iff)
  have "of_int ?k \<le> ?q" unfolding split using m(1) by simp
  then have "fl (of_int ?k) \<le> fl ?q" by (rule fl_mono)
  then have lo: "of_int ?k \<le> fl ?q" using k by simp
  have hi: "fl ?q < of_int ?k + 1"
  proof (cases "a = 0")
    case False
    have "(of_int a :: rat) \<le> of_int (2 ^ 53)" using assms(2) by (simp only: of_int_le_iff)
    then have "?q < 2 powi 47" by simp
    then have "ilog2 \<bar>?q\<bar> < 47" using assms(1) False by (intro ilog2_less) auto
    then have "ulp_exp ?q \<le> - 6" by (simp add: ulp_exp_def)
    then have "(2 :: rat) powi ulp_exp ?q \<le> 2 powi (- 6)" by (rule power_int_increasing) simp_all
    also have "\<dots> = 1 / 64" by (simp add: power_int_minus)
    finally have "(2 :: rat) powi ulp_exp ?q \<le> 1 / 64" .
    moreover have "\<bar>fl ?q - ?q\<bar> \<le> 2 powi ulp_exp ?q / 2" using False by (intro fl_error) simp
    ultimately have "fl ?q - ?q \<le> 1 / 128" by linarith
    moreover have "?q \<le> of_int ?k + 99 / 100" unfolding split using m(2) by simp
    ultimately show ?thesis by linarith
  qed simp
  show ?thesis using lo hi by (simp add: floor_eq_iff)
qed

lemma f_of_nat_u64: "n \<le> 2 ^ 53 \<Longrightarrow> f_of_u64 (of_nat n) = Fin (of_nat n)"
proof -
  assume n: "n \<le> 2 ^ 53"
  then have u: "uint (of_nat n :: u64) = int n"
    by (simp add: unsigned_of_nat take_bit_nat_eq_self_iff uint_nat unat_of_nat_u64)
  show ?thesis using f_of_u64_small [of "of_nat n :: u64"] n by (simp add: u)
qed

text \<open>A rounded mean lies between the extremes: division and rounding are both monotone.\<close>

lemma round_mean:
  fixes lo hi :: u64
  assumes n: "0 < n" "n \<le> 2 ^ 53" and S: "0 \<le> S" "S \<le> 2 ^ 53"
    and sum: "int n * uint lo \<le> S" "S \<le> int n * uint hi" and hi: "uint hi \<le> 2 ^ 53"
  shows "lo \<le> f_to_u64 (math_Round (f_div (Fin (of_int S)) (Fin (of_nat n)))) \<and>
    f_to_u64 (math_Round (f_div (Fin (of_int S)) (Fin (of_nat n)))) \<le> hi"
proof -
  let ?q = "of_int S / of_nat n :: rat" and ?k = "round_away (fl (of_int S / of_nat n))"
  have "int n * uint lo \<le> int n * uint hi" using sum by (rule order_trans)
  then have "uint lo \<le> uint hi" using n(1) by simp
  then have lo: "uint lo \<le> 2 ^ 53" using hi by (rule order_trans)
  have "(of_int (int n * uint lo) :: rat) \<le> of_int S" "(of_int S :: rat) \<le> of_int (int n * uint hi)"
    using sum by (simp_all only: of_int_le_iff)
  then have q: "of_int (uint lo) \<le> ?q" "?q \<le> of_int (uint hi)"
    using n(1) by (simp_all add: field_simps)
  have fl: "of_int (uint lo) \<le> fl ?q" "fl ?q \<le> of_int (uint hi)"
    using fl_range [OF q] lo hi by simp_all
  have k: "uint lo \<le> ?k" "?k \<le> uint hi"
    using round_away_mono [OF fl(1)] round_away_mono [OF fl(2)] unfolding round_away_of_int .
  have "(of_int (uint hi) :: rat) \<le> of_int (2 ^ 53)" using hi by (simp only: of_int_le_iff)
  then have "?q \<le> 2 ^ 53" using q(2) by simp
  moreover have "0 \<le> ?q" using S(1) by simp
  ultimately have "\<bar>?q\<bar> \<le> 2 ^ 80" by (simp only: abs_of_nonneg) (rule order_trans, assumption, simp)
  then have "math_Round (f_div (Fin (of_int S)) (Fin (of_nat n))) = Fin (of_int ?k)"
    using n(1) by (simp add: to_f64_small)
  moreover have "0 \<le> ?k" using k(1) uint_ge_0 [of lo] by linarith
  moreover have k64: "?k < 2 ^ 64" using k(2) uint_bounded [of hi] by (simp add: le_less_trans)
  ultimately have r: "f_to_u64 (math_Round (f_div (Fin (of_int S)) (Fin (of_nat n)))) = word_of_int ?k"
    by simp
  have "uint (word_of_int ?k :: u64) = ?k"
    using \<open>0 \<le> ?k\<close> k64 by (simp add: unsigned_of_int take_bit_int_eq_self)
  then show ?thesis using k unfolding r word_le_def by simp
qed

text \<open>Sums of unsigned values, as integers and as the 64-bit words the code adds.\<close>

definition lat_sum :: "u64 list \<Rightarrow> int" where
  "lat_sum ls = sum_list (map uint ls)"

lemma lat_sum_snoc: "lat_sum (ls @ [l]) = lat_sum ls + uint l"
  by (simp add: lat_sum_def)

lemma lat_sum_nonneg: "0 \<le> lat_sum ls"
  by (induction ls) (simp_all add: lat_sum_def)

lemma lat_sum_bounds:
  "\<forall>l \<in> set ls. uint lo \<le> uint l \<and> uint l \<le> uint hi \<Longrightarrow>
   int (length ls) * uint lo \<le> lat_sum ls \<and> lat_sum ls \<le> int (length ls) * uint hi"
  by (induction ls) (auto simp: lat_sum_def algebra_simps)

lemma lat_sum_extremes:
  assumes "ls \<noteq> []"
  shows "int (length ls) * uint (Min (set ls)) \<le> lat_sum ls"
    "lat_sum ls \<le> int (length ls) * uint (Max (set ls))" "uint (Max (set ls)) \<le> lat_sum ls"
proof -
  show "int (length ls) * uint (Min (set ls)) \<le> lat_sum ls"
    "lat_sum ls \<le> int (length ls) * uint (Max (set ls))"
    using lat_sum_bounds [of ls "Min (set ls)" "Max (set ls)"] by (simp_all add: word_le_def [symmetric])
  have "Max (set ls) \<in> set ls" using assms by simp
  then show "uint (Max (set ls)) \<le> lat_sum ls" unfolding lat_sum_def by (intro member_le_sum_list) auto
qed

lemma uint_sum_list: "lat_sum ls < 2 ^ 64 \<Longrightarrow> uint (sum_list ls) = lat_sum ls"
proof (induction ls)
  case (Cons l ls)
  have s: "lat_sum (l # ls) = uint l + lat_sum ls" by (simp add: lat_sum_def)
  then have "lat_sum ls < 2 ^ 64" using Cons.prems uint_ge_0 [of l] by linarith
  then have "uint (sum_list (l # ls)) = (uint l + lat_sum ls) mod 2 ^ 64"
    using Cons.IH by (simp add: uint_word_ariths)
  then show ?case using Cons.prems uint_ge_0 [of l] lat_sum_nonneg [of ls] unfolding s by simp
qed (simp add: lat_sum_def)

lemma f_of_lat_sum: "lat_sum ls \<le> 2 ^ 53 \<Longrightarrow> f_of_u64 (sum_list ls) = Fin (of_int (lat_sum ls))"
  using uint_sum_list [of ls] f_of_u64_small [of "sum_list ls"] by simp

end
