(* ===== verification/Stats.thy ===== *)
theory Stats
  imports RingBuffer GoFloat
begin

text \<open>
  The running latency statistics of internal/telemetry/stats.go and the metric consumer of
  cmd/bot_fleet/main.go, which once per second empties the ring into them and prints a line. It
  runs beside the bots: between two of its calls of \<open>PopInto\<close> they may push.
\<close>

section \<open>Stats\<close>














section \<open>consumeMetrics\<close>

text \<open>
  One tick of \<open>consumeMetrics\<close>: reset, drain (\<open>drained\<close> grows by the size of each batch, which
  is one per metric of it), print. The goroutine runs beside the bots, whose \<open>Push\<close> calls fall
  between its calls of \<open>PopInto\<close>: \<open>pushes i\<close> are those before the \<open>i\<close>-th. (Interleavings inside
  the two calls are in \<open>RingRace\<close>.) The batch slice is the same in every tick. \<open>None\<close> is a drain
  loop that does not end.
\<close>

partial_function (option) drain_beside ::
  "('q \<Rightarrow> 'm \<Rightarrow> 'q \<times> bool) \<Rightarrow> ('q \<Rightarrow> 'q \<times> 'm list) \<Rightarrow> ('m \<Rightarrow> 'acc \<Rightarrow> 'acc) \<Rightarrow> (nat \<Rightarrow> 'm list) \<Rightarrow>
     nat \<Rightarrow> 'q \<Rightarrow> 'acc \<Rightarrow> ('q \<times> 'acc) option" where
  "drain_beside push pop process pushes i q acc =
     (case pop (fst (push_all push q (pushes i))) of (q', ms) \<Rightarrow>
        if ms = [] then Some (q', acc)
        else drain_beside push pop process pushes (i + 1) q' (fold process ms acc))"






section \<open>The drain loop beside the bots\<close>

text \<open>The metrics that \<open>Push\<close> accepted before the first \<open>n\<close> calls of \<open>PopInto\<close>.\<close>

fun kept :: "('q \<Rightarrow> 'm \<Rightarrow> 'q \<times> bool) \<Rightarrow> ('q \<Rightarrow> 'q \<times> 'm list) \<Rightarrow> (nat \<Rightarrow> 'm list) \<Rightarrow> nat \<Rightarrow> nat \<Rightarrow> 'q \<Rightarrow> 'm list" where
  "kept push pop pushes i 0 q = []"
| "kept push pop pushes i (Suc n) q =
     (case push_all push q (pushes i) of (q1, oks) \<Rightarrow>
        map fst (filter snd (zip (pushes i) oks)) @ kept push pop pushes (i + 1) n (fst (pop q1)))"

lemma taken_by_flags:
  "k \<le> length ms \<Longrightarrow> map fst (filter snd (zip ms (replicate k True @ replicate (length ms - k) False))) = take k ms"
proof (induction ms arbitrary: k)
  case (Cons m ms)
  then show ?case by (cases k) (auto simp: filter_empty_conv dest: set_zip_rightD)
qed simp

context bounded_queue begin

lemma one_pass:
  assumes "inv q" "length ms \<le> quota q" "push_all push q ms = (q1, oks)" "pop q1 = (q2, batch)"
  shows "inv q2 \<and> items q @ map fst (filter snd (zip ms oks)) = batch @ items q2 \<and> (batch = [] \<longrightarrow> items q2 = []) \<and>
    quota q \<le> quota q2 + length ms"
proof -
  let ?k = "min (length ms) (cap q - length (items q))"
  have p: "oks = replicate ?k True @ replicate (length ms - ?k) False" "inv q1" "items q1 = items q @ take ?k ms"
    using push_all_spec [OF assms(1,2)] assms(3) by auto
  have "quota q \<le> quota q1 + length ms" using push_all_quota [OF assms(1,2)] assms(3) by simp
  moreover have "map fst (filter snd (zip ms oks)) = take ?k ms" unfolding p(1) by (rule taken_by_flags) simp
  ultimately show ?thesis using p(3) pop_front [OF p(2) assms(4)] by auto
qed

lemma drain_beside_quiet:
  assumes "inv q" "\<forall>j \<ge> i. pushes j = []"
  shows "\<exists>n q'. drain_beside push pop process pushes i q acc =
      Some (q', fold process (items q @ kept push pop pushes i n q) acc) \<and> inv q' \<and> items q' = []"
  using assms
proof (induction "length (items q)" arbitrary: i q acc rule: less_induct)
  case less
  obtain q2 batch where p: "pop q = (q2, batch)" by fastforce
  have e: "push_all push q (pushes i) = (q, [])" using less.prems(2) by simp
  note pass = pop_front [OF less.prems(1) p]
  show ?case
  proof (cases "batch = []")
    case True
    then show ?thesis using p e pass
      by (intro exI [of _ 0] exI [of _ q2]) (auto simp: drain_beside.simps [of push pop process pushes i])
  next
    case False
    then have "length (items q2) < length (items q)" using pass by auto
    from less.hyps [OF this, of "i + 1" "fold process batch acc"] pass less.prems(2) obtain n q' where
      "drain_beside push pop process pushes (i + 1) q2 (fold process batch acc) =
         Some (q', fold process (items q2 @ kept push pop pushes (i + 1) n q2) (fold process batch acc))" "inv q'" "items q' = []"
      by auto
    then show ?thesis using p e pass False
      by (intro exI [of _ "Suc n"] exI [of _ q']) (simp add: drain_beside.simps [of push pop process pushes i])
  qed
qed

lemma drain_beside_spec:
  assumes "inv q" "\<forall>j \<ge> i + N. pushes j = []" "(\<Sum>j \<in> {i..<i + N}. length (pushes j)) \<le> quota q"
  shows "\<exists>n q'. drain_beside push pop process pushes i q acc =
      Some (q', fold process (items q @ kept push pop pushes i n q) acc) \<and> inv q' \<and> items q' = []"
  using assms
proof (induction N arbitrary: i q acc)
  case 0
  then show ?case using drain_beside_quiet [of q i pushes] by simp
next
  case (Suc N)
  obtain q1 oks where u: "push_all push q (pushes i) = (q1, oks)" by fastforce
  obtain q2 batch where p: "pop q1 = (q2, batch)" by fastforce
  have s: "(\<Sum>j \<in> {i..<i + Suc N}. length (pushes j)) = length (pushes i) + (\<Sum>j \<in> {i + 1..<i + 1 + N}. length (pushes j))"
    by (simp add: sum.atLeast_Suc_lessThan)
  then have "length (pushes i) \<le> quota q" using Suc.prems(3) by simp
  note pass = one_pass [OF Suc.prems(1) this u p]
  show ?case
  proof (cases "batch = []")
    case True
    then show ?thesis using u p pass
      by (intro exI [of _ "Suc 0"] exI [of _ q2]) (simp add: drain_beside.simps [of push pop process pushes i])
  next
    case False
    have "(\<Sum>j \<in> {i + 1..<i + 1 + N}. length (pushes j)) \<le> quota q2" using s Suc.prems(3) pass by simp
    from Suc.IH [OF _ _ this, of "fold process batch acc"] pass Suc.prems(2) obtain n q' where
      "drain_beside push pop process pushes (i + 1) q2 (fold process batch acc) =
         Some (q', fold process (items q2 @ kept push pop pushes (i + 1) n q2) (fold process batch acc))" "inv q'" "items q' = []"
      by auto
    moreover have "items q @ kept push pop pushes i (Suc n) q = batch @ items q2 @ kept push pop pushes (i + 1) n q2"
      using pass u p by (simp add: append_assoc [symmetric] del: append_assoc)
    moreover have "drain_beside push pop process pushes i q acc =
        drain_beside push pop process pushes (i + 1) q2 (fold process batch acc)"
      using u p False by (simp add: drain_beside.simps [of push pop process pushes i])
    ultimately show ?thesis by (intro exI [of _ "Suc n"] exI [of _ q']) (simp only: fold_append o_apply simp_thms)
  qed
qed

end








section \<open>Properties\<close>





end
