(* ===== verification/Aggregator.thy ===== *)
theory Aggregator
  imports Prelude GoFloat
begin

text \<open>
  internal/ingest/aggregator.go: the per-contestant window of the telemetry ingester and its
  composite score. Arithmetic is \<open>float64\<close> (each operation rounded, as on amd64, where the
  compiler does not fuse a multiplication with an addition). Three things are arguments: the
  HdrHistogram library (\<open>hist_ops\<close>), \<open>math.Exp\<close>, whose last bit Go leaves to the platform
  (\<open>E\<close>), and the order in which \<open>range\<close> visits the map of counters. The mutex makes each
  operation one step, so operations are functions on the state.
\<close>

section \<open>Scoring\<close>

definition f_const :: "rat \<Rightarrow> f64" where
  "f_const q = to_f64 q"

record scoringParams =
  sp_Lambda :: f64
  sp_LTarget :: f64
  sp_TTarget :: f64

definition DefaultScoringParams :: scoringParams where
  "DefaultScoringParams = \<lparr>sp_Lambda = f_const (1 / 1000), sp_LTarget = Fin 1000, sp_TTarget = Fin 10000\<rparr>"

definition WeightLatency :: f64 where "WeightLatency = f_const (40 / 100)"
definition WeightThroughput :: f64 where "WeightThroughput = f_const (30 / 100)"
definition WeightCorrectness :: f64 where "WeightCorrectness = f_const (30 / 100)"

definition ComputeScore :: "(f64 \<Rightarrow> f64) \<Rightarrow> f64 \<Rightarrow> f64 \<Rightarrow> f64 \<Rightarrow> f64 \<Rightarrow> f64 \<Rightarrow> scoringParams \<Rightarrow> f64" where
  "ComputeScore E p50 p90 p99 correctRatio sustainedTPS p =
     (let lComposite = f_add (f_add (f_mul (f_const (2 / 10)) p50) (f_mul (f_const (3 / 10)) p90))
            (f_mul (f_const (5 / 10)) p99);
          sL = f_mul (Fin 100) (E (f_mul (f_neg (sp_Lambda p)) (math_Max (Fin 0) (f_sub lComposite (sp_LTarget p)))));
          sT = f_mul (Fin 100) (math_Min (Fin 1) (f_div sustainedTPS (sp_TTarget p)));
          sC = f_mul (Fin 100) (math_Pow4 correctRatio)
      in f_add (f_add (f_mul WeightLatency sL) (f_mul WeightThroughput sT)) (f_mul WeightCorrectness sC))"

section \<open>The window\<close>

text \<open>\<open>hdrhistogram.New\<close>, \<open>RecordValue\<close> (its error is discarded) and \<open>ValueAtQuantile\<close>.\<close>

record 'h hist_ops =
  ho_New :: "int \<Rightarrow> int \<Rightarrow> int \<Rightarrow> 'h"
  ho_RecordValue :: "int \<Rightarrow> 'h \<Rightarrow> 'h"
  ho_ValueAtQuantile :: "f64 \<Rightarrow> 'h \<Rightarrow> int"

record contestantWindow =
  w_ContestantID :: string
  w_WindowStart :: int
  w_WindowEnd :: int
  w_Count :: u64
  w_CorrectCount :: u64
  w_CorrectRatio :: f64
  w_P50Us :: u64
  w_P90Us :: u64
  w_P99Us :: u64
  w_MinUs :: u64
  w_MaxUs :: u64
  w_AvgUs :: u64
  w_SustainedTPS :: f64
  w_Score :: f64
  w_ScoreLatency :: f64
  w_ScoreThroughput :: f64
  w_ScoreCorrectness :: f64

text \<open>Instants are nanoseconds since the epoch, durations \<open>int64\<close> nanoseconds.\<close>

record 'h aggregator =
  ag_start :: int
  ag_end :: int
  ag_params :: scoringParams
  ag_hists :: "string \<Rightarrow> 'h option"
  ag_sumUs :: "string \<Rightarrow> u64 option"
  ag_cnt :: "string \<Rightarrow> u64 option"
  ag_ok :: "string \<Rightarrow> u64 option"
  ag_minUs :: "string \<Rightarrow> u64 option"
  ag_maxUs :: "string \<Rightarrow> u64 option"

text \<open>Reading a missing key of a Go map gives the zero value.\<close>

definition map_get :: "(string \<Rightarrow> u64 option) \<Rightarrow> string \<Rightarrow> u64" where
  "map_get m k = (case m k of None \<Rightarrow> 0 | Some v \<Rightarrow> v)"

lemma map_get_upd [simp]: "map_get (m(k \<mapsto> v)) k' = (if k' = k then v else map_get m k')"
  by (simp add: map_get_def)

definition NewAggregatorWithParams :: "int \<Rightarrow> int \<Rightarrow> scoringParams \<Rightarrow> 'h aggregator" where
  "NewAggregatorWithParams now window p =
     \<lparr>ag_start = now, ag_end = now + window, ag_params = p, ag_hists = Map.empty, ag_sumUs = Map.empty,
      ag_cnt = Map.empty, ag_ok = Map.empty, ag_minUs = Map.empty, ag_maxUs = Map.empty\<rparr>"

definition NewAggregator :: "int \<Rightarrow> int \<Rightarrow> 'h aggregator" where
  "NewAggregator now window = NewAggregatorWithParams now window DefaultScoringParams"

definition ensure :: "'h hist_ops \<Rightarrow> string \<Rightarrow> 'h aggregator \<Rightarrow> 'h aggregator \<times> 'h" where
  "ensure H cid a =
     (case ag_hists a cid of
        None \<Rightarrow>
          let h = ho_New H 1 60000000 3
          in (a\<lparr>ag_hists := (ag_hists a)(cid \<mapsto> h), ag_minUs := (ag_minUs a)(cid \<mapsto> 0),
                ag_maxUs := (ag_maxUs a)(cid \<mapsto> 0)\<rparr>, h)
      | Some h \<Rightarrow> (a, h))"

definition int64_of :: "u64 \<Rightarrow> int" where
  "int64_of w = int64_wrap (uint w)"

text \<open>\<open>RecordValue\<close> mutates the histogram behind the pointer in \<open>hists\<close>.\<close>

definition count_call :: "string \<Rightarrow> u64 \<Rightarrow> bool \<Rightarrow> 'h aggregator \<Rightarrow> 'h aggregator" where
  "count_call cid latencyUs correct a =
     (let a1 = a\<lparr>ag_cnt := (ag_cnt a)(cid \<mapsto> map_get (ag_cnt a) cid + 1)\<rparr>;
          a2 = a1\<lparr>ag_sumUs := (ag_sumUs a1)(cid \<mapsto> map_get (ag_sumUs a1) cid + latencyUs)\<rparr>
      in if correct then a2\<lparr>ag_ok := (ag_ok a2)(cid \<mapsto> map_get (ag_ok a2) cid + 1)\<rparr> else a2)"

definition note_min :: "string \<Rightarrow> u64 \<Rightarrow> 'h aggregator \<Rightarrow> 'h aggregator" where
  "note_min cid latencyUs a =
     (if map_get (ag_minUs a) cid = 0 \<or> latencyUs < map_get (ag_minUs a) cid
      then a\<lparr>ag_minUs := (ag_minUs a)(cid \<mapsto> latencyUs)\<rparr> else a)"

definition note_max :: "string \<Rightarrow> u64 \<Rightarrow> 'h aggregator \<Rightarrow> 'h aggregator" where
  "note_max cid latencyUs a =
     (if latencyUs > map_get (ag_maxUs a) cid
      then a\<lparr>ag_maxUs := (ag_maxUs a)(cid \<mapsto> latencyUs)\<rparr> else a)"

definition Add :: "'h hist_ops \<Rightarrow> string \<Rightarrow> u64 \<Rightarrow> bool \<Rightarrow> 'h aggregator \<Rightarrow> 'h aggregator" where
  "Add H cid0 latencyUs0 correct a =
     (let cid = (if cid0 = '''' then ''unknown'' else cid0);
          latencyUs = (if latencyUs0 = 0 then 1 else latencyUs0);
          (a1, h) = ensure H cid a;
          a2 = a1\<lparr>ag_hists := (ag_hists a1)(cid \<mapsto> ho_RecordValue H (int64_of latencyUs) h)\<rparr>
      in note_max cid latencyUs (note_min cid latencyUs (count_call cid latencyUs correct a2)))"

text \<open>\<open>time.Time.Sub\<close> saturates; \<open>Duration.Seconds\<close>; \<open>Time.Unix\<close>.\<close>

definition time_Sub :: "int \<Rightarrow> int \<Rightarrow> int" where
  "time_Sub t u = max (- (2 ^ 63)) (min (2 ^ 63 - 1) (t - u))"

definition dur_Seconds :: "int \<Rightarrow> f64" where
  "dur_Seconds d = f_add (f_of_int (go_quot d 1000000000)) (f_div (f_of_int (go_rem d 1000000000)) (Fin 1000000000))"

definition time_Unix :: "int \<Rightarrow> int" where
  "time_Unix t = t div 1000000000"

definition window_secs :: "'h aggregator \<Rightarrow> f64" where
  "window_secs a = (let s = dur_Seconds (time_Sub (ag_end a) (ag_start a)) in if f_le s (Fin 0) then Fin 1 else s)"

text \<open>One iteration of the loop of \<open>FlushAndReset\<close>; \<open>None\<close> is the call of a method on a nil histogram.\<close>

definition window_of :: "'h hist_ops \<Rightarrow> (f64 \<Rightarrow> f64) \<Rightarrow> 'h aggregator \<Rightarrow> string \<Rightarrow> u64 \<Rightarrow> contestantWindow option" where
  "window_of H E a cid c =
     (case ag_hists a cid of None \<Rightarrow> None | Some h \<Rightarrow>
        let ok = map_get (ag_ok a) cid; sum = map_get (ag_sumUs a) cid;
            ratio = f_div (f_of_u64 ok) (f_of_u64 c);
            avg = f_to_u64 (math_Round (f_div (f_of_u64 sum) (f_of_u64 c)));
            p50 = f_of_int (ho_ValueAtQuantile H (Fin 50) h);
            p90 = f_of_int (ho_ValueAtQuantile H (Fin 90) h);
            p99 = f_of_int (ho_ValueAtQuantile H (Fin 99) h);
            sustainedTPS = f_div (f_of_u64 c) (window_secs a);
            p = ag_params a;
            lComposite = f_add (f_add (f_mul (f_const (2 / 10)) p50) (f_mul (f_const (3 / 10)) p90))
              (f_mul (f_const (5 / 10)) p99);
            sL = f_mul (Fin 100) (E (f_mul (f_neg (sp_Lambda p)) (math_Max (Fin 0) (f_sub lComposite (sp_LTarget p)))));
            sT = f_mul (Fin 100) (math_Min (Fin 1) (f_div sustainedTPS (sp_TTarget p)));
            sC = f_mul (Fin 100) (math_Pow4 ratio);
            total = f_add (f_add (f_mul WeightLatency sL) (f_mul WeightThroughput sT)) (f_mul WeightCorrectness sC)
        in Some \<lparr>w_ContestantID = cid, w_WindowStart = time_Unix (ag_start a), w_WindowEnd = time_Unix (ag_end a),
             w_Count = c, w_CorrectCount = ok, w_CorrectRatio = ratio,
             w_P50Us = f_to_u64 p50, w_P90Us = f_to_u64 p90, w_P99Us = f_to_u64 p99,
             w_MinUs = map_get (ag_minUs a) cid, w_MaxUs = map_get (ag_maxUs a) cid, w_AvgUs = avg,
             w_SustainedTPS = sustainedTPS, w_Score = total,
             w_ScoreLatency = sL, w_ScoreThroughput = sT, w_ScoreCorrectness = sC\<rparr>)"

fun flush_windows :: "'h hist_ops \<Rightarrow> (f64 \<Rightarrow> f64) \<Rightarrow> 'h aggregator \<Rightarrow> string list \<Rightarrow> contestantWindow list option" where
  "flush_windows H E a [] = Some []"
| "flush_windows H E a (cid # cids) =
     (let c = map_get (ag_cnt a) cid in
      if c = 0 then flush_windows H E a cids
      else case window_of H E a cid c of None \<Rightarrow> None
        | Some w \<Rightarrow> (case flush_windows H E a cids of None \<Rightarrow> None | Some ws \<Rightarrow> Some (w # ws)))"

definition FlushAndReset ::
  "'h hist_ops \<Rightarrow> (f64 \<Rightarrow> f64) \<Rightarrow> string list \<Rightarrow> int \<Rightarrow> int \<Rightarrow> 'h aggregator \<Rightarrow> ('h aggregator \<times> contestantWindow list) option" where
  "FlushAndReset H E order now nextWindow a =
     (case flush_windows H E a order of None \<Rightarrow> None
      | Some out \<Rightarrow> Some (a\<lparr>ag_start := now, ag_end := now + nextWindow, ag_hists := Map.empty,
          ag_sumUs := Map.empty, ag_cnt := Map.empty, ag_ok := Map.empty,
          ag_minUs := Map.empty, ag_maxUs := Map.empty\<rparr>, out))"

section \<open>What the maps say of the calls\<close>

text \<open>
  Specification state: the list of \<open>Add\<close> calls since the last flush, defaults applied. The
  maps of the aggregator are a function of it, key by key.
\<close>

datatype sample = Sample (s_cid: string) (s_lat: u64) (s_ok: bool)

definition sample_of :: "string \<Rightarrow> u64 \<Rightarrow> bool \<Rightarrow> sample" where
  "sample_of cid latencyUs correct =
     Sample (if cid = '''' then ''unknown'' else cid) (if latencyUs = 0 then 1 else latencyUs) correct"

definition samples_of :: "string \<Rightarrow> sample list \<Rightarrow> sample list" where
  "samples_of cid = filter (\<lambda>e. s_cid e = cid)"

definition hist_of :: "'h hist_ops \<Rightarrow> sample list \<Rightarrow> 'h" where
  "hist_of H es = fold (\<lambda>e. ho_RecordValue H (int64_of (s_lat e))) es (ho_New H 1 60000000 3)"

definition key_ok :: "'h hist_ops \<Rightarrow> 'h aggregator \<Rightarrow> string \<Rightarrow> sample list \<Rightarrow> bool" where
  "key_ok H a cid es \<longleftrightarrow>
     ag_hists a cid = (if es = [] then None else Some (hist_of H es)) \<and>
     ag_cnt a cid = (if es = [] then None else Some (of_nat (length es))) \<and>
     map_get (ag_sumUs a) cid = sum_list (map s_lat es) \<and>
     map_get (ag_ok a) cid = of_nat (length (filter s_ok es)) \<and>
     map_get (ag_minUs a) cid = (if es = [] then 0 else Min (s_lat ` set es)) \<and>
     map_get (ag_maxUs a) cid = (if es = [] then 0 else Max (s_lat ` set es))"

definition agg_describes :: "'h hist_ops \<Rightarrow> 'h aggregator \<Rightarrow> sample list \<Rightarrow> bool" where
  "agg_describes H a evs \<longleftrightarrow> (\<forall>e \<in> set evs. s_lat e \<noteq> 0) \<and> (\<forall>cid. key_ok H a cid (samples_of cid evs))"

lemma agg_describes_new [keeps]: "agg_describes H (NewAggregatorWithParams now window p) []"
  by (simp add: agg_describes_def key_ok_def samples_of_def NewAggregatorWithParams_def map_get_def)

lemma count_call_fields [simp]:
  "ag_hists (count_call cid l b a) = ag_hists a"
  "ag_cnt (count_call cid l b a) = (ag_cnt a)(cid \<mapsto> map_get (ag_cnt a) cid + 1)"
  "ag_sumUs (count_call cid l b a) = (ag_sumUs a)(cid \<mapsto> map_get (ag_sumUs a) cid + l)"
  "map_get (ag_ok (count_call cid l b a)) k = map_get (ag_ok a) k + (if b \<and> k = cid then 1 else 0)"
  "ag_minUs (count_call cid l b a) = ag_minUs a" "ag_maxUs (count_call cid l b a) = ag_maxUs a"
  "ag_start (count_call cid l b a) = ag_start a" "ag_end (count_call cid l b a) = ag_end a"
  "ag_params (count_call cid l b a) = ag_params a"
  by (simp_all add: count_call_def Let_def)

lemma note_min_fields [simp]:
  "ag_hists (note_min cid l a) = ag_hists a" "ag_cnt (note_min cid l a) = ag_cnt a"
  "ag_sumUs (note_min cid l a) = ag_sumUs a" "ag_ok (note_min cid l a) = ag_ok a"
  "ag_maxUs (note_min cid l a) = ag_maxUs a"
  "ag_start (note_min cid l a) = ag_start a" "ag_end (note_min cid l a) = ag_end a"
  "ag_params (note_min cid l a) = ag_params a"
  "map_get (ag_minUs (note_min cid l a)) k =
     (if k = cid then if map_get (ag_minUs a) cid = 0 then l else min l (map_get (ag_minUs a) cid)
      else map_get (ag_minUs a) k)"
  by (auto simp: note_min_def min_def)

lemma note_max_fields [simp]:
  "ag_hists (note_max cid l a) = ag_hists a" "ag_cnt (note_max cid l a) = ag_cnt a"
  "ag_sumUs (note_max cid l a) = ag_sumUs a" "ag_ok (note_max cid l a) = ag_ok a"
  "ag_minUs (note_max cid l a) = ag_minUs a"
  "ag_start (note_max cid l a) = ag_start a" "ag_end (note_max cid l a) = ag_end a"
  "ag_params (note_max cid l a) = ag_params a"
  "map_get (ag_maxUs (note_max cid l a)) k =
     (if k = cid then max l (map_get (ag_maxUs a) cid) else map_get (ag_maxUs a) k)"
  by (auto simp: note_max_def max_def)

text \<open>The fields after \<open>Add\<close>, with its defaults applied.\<close>

lemma Add_fields:
  fixes H a cid l b
  defines "e \<equiv> sample_of cid l b" and "a' \<equiv> Add H cid l b a"
  shows "ag_hists a' = (ag_hists a)(s_cid e \<mapsto> ho_RecordValue H (int64_of (s_lat e))
      (case ag_hists a (s_cid e) of None \<Rightarrow> ho_New H 1 60000000 3 | Some h \<Rightarrow> h))"
    "ag_cnt a' = (ag_cnt a)(s_cid e \<mapsto> map_get (ag_cnt a) (s_cid e) + 1)"
    "map_get (ag_sumUs a') k = map_get (ag_sumUs a) k + (if k = s_cid e then s_lat e else 0)"
    "map_get (ag_ok a') k = map_get (ag_ok a) k + (if b \<and> k = s_cid e then 1 else 0)"
    "map_get (ag_minUs a') k = (if k = s_cid e then
       if ag_hists a (s_cid e) = None \<or> map_get (ag_minUs a) k = 0 then s_lat e
       else min (s_lat e) (map_get (ag_minUs a) k) else map_get (ag_minUs a) k)"
    "map_get (ag_maxUs a') k = (if k = s_cid e then
       if ag_hists a (s_cid e) = None then s_lat e
       else max (s_lat e) (map_get (ag_maxUs a) k) else map_get (ag_maxUs a) k)"
    "ag_start a' = ag_start a" "ag_end a' = ag_end a" "ag_params a' = ag_params a"
proof -
  let ?c = "s_cid e" and ?l = "s_lat e"
  have a': "a' = note_max ?c ?l (note_min ?c ?l (count_call ?c ?l b
      ((fst (ensure H ?c a))\<lparr>ag_hists := (ag_hists (fst (ensure H ?c a)))
         (?c \<mapsto> ho_RecordValue H (int64_of ?l) (snd (ensure H ?c a)))\<rparr>)))"
    unfolding a'_def e_def Add_def sample_of_def sample.sel Let_def split_def ..
  note [simp] = a' ensure_def Let_def
  show "ag_hists a' = (ag_hists a)(s_cid e \<mapsto> ho_RecordValue H (int64_of (s_lat e))
      (case ag_hists a (s_cid e) of None \<Rightarrow> ho_New H 1 60000000 3 | Some h \<Rightarrow> h))"
    by (cases "ag_hists a ?c") auto
  show "ag_cnt a' = (ag_cnt a)(s_cid e \<mapsto> map_get (ag_cnt a) (s_cid e) + 1)"
    by (cases "ag_hists a ?c") auto
  show "map_get (ag_sumUs a') k = map_get (ag_sumUs a) k + (if k = s_cid e then s_lat e else 0)"
    by (cases "ag_hists a ?c") auto
  show "map_get (ag_ok a') k = map_get (ag_ok a) k + (if b \<and> k = s_cid e then 1 else 0)"
    by (cases "ag_hists a ?c") auto
  show "map_get (ag_minUs a') k = (if k = s_cid e then
       if ag_hists a (s_cid e) = None \<or> map_get (ag_minUs a) k = 0 then s_lat e
       else min (s_lat e) (map_get (ag_minUs a) k) else map_get (ag_minUs a) k)"
    by (cases "ag_hists a ?c") auto
  show "map_get (ag_maxUs a') k = (if k = s_cid e then
       if ag_hists a (s_cid e) = None then s_lat e
       else max (s_lat e) (map_get (ag_maxUs a) k) else map_get (ag_maxUs a) k)"
    by (cases "ag_hists a ?c") auto
  show "ag_start a' = ag_start a" "ag_end a' = ag_end a" "ag_params a' = ag_params a"
    by (cases "ag_hists a ?c"; simp)+
qed

lemma key_ok_other:
  assumes "key_ok H a k es" "k \<noteq> s_cid (sample_of cid l b)"
  shows "key_ok H (Add H cid l b a) k es"
  using assms by (simp add: key_ok_def Add_fields)

lemma Min_snoc: "es \<noteq> [] \<Longrightarrow> Min (f ` set (es @ [e])) = min (f e) (Min (f ` set es))"
  by (simp add: Min_insert)

lemma Max_snoc: "es \<noteq> [] \<Longrightarrow> Max (f ` set (es @ [e])) = max (f e) (Max (f ` set es))"
  by (simp add: Max_insert)

lemma key_ok_same:
  fixes cid l b
  defines "e \<equiv> sample_of cid l b"
  assumes k: "key_ok H a (s_cid e) es" and pos: "\<forall>x \<in> set es. s_lat x \<noteq> 0"
  shows "key_ok H (Add H cid l b a) (s_cid e) (es @ [e])"
proof (cases "es = []")
  case True
  then have "map_get (ag_cnt a) (s_cid e) = 0" using k by (simp add: key_ok_def map_get_def)
  moreover have "s_ok e = b" by (simp add: e_def sample_of_def)
  ultimately show ?thesis
    using k True unfolding e_def by (auto simp: key_ok_def Add_fields hist_of_def)
next
  case False
  have "Min (s_lat ` set es) \<in> s_lat ` set es" using False by simp
  then have mn: "Min (s_lat ` set es) \<noteq> 0" using pos by auto
  have h: "hist_of H (es @ [e]) = ho_RecordValue H (int64_of (s_lat e)) (hist_of H es)"
    by (simp add: hist_of_def)
  have c: "map_get (ag_cnt a) (s_cid e) = of_nat (length es)"
    using k False by (simp add: key_ok_def map_get_def)
  have "s_ok e = b" by (simp add: e_def sample_of_def)
  then show ?thesis
    using k False mn c unfolding key_ok_def h Min_snoc [OF False] Max_snoc [OF False]
    by (simp add: Add_fields [of H cid l b a, folded e_def])
qed

lemma agg_describes_Add [keeps]:
  assumes "agg_describes H a evs"
  shows "agg_describes H (Add H cid l b a) (evs @ [sample_of cid l b])"
proof -
  let ?e = "sample_of cid l b"
  have "key_ok H (Add H cid l b a) k (samples_of k (evs @ [?e]))" for k
  proof (cases "k = s_cid ?e")
    case True
    then show ?thesis
      using assms key_ok_same [of H a cid l b "samples_of k evs"]
      by (auto simp: agg_describes_def samples_of_def)
  next
    case False
    then show ?thesis
      using assms key_ok_other [of H a k "samples_of k evs" cid l b]
      by (simp add: agg_describes_def samples_of_def)
  qed
  then show ?thesis using assms by (simp add: agg_describes_def sample_of_def)
qed

text \<open>A sequence of calls, as \<open>(cid, latencyUs, correct)\<close>.\<close>

definition Add_all :: "'h hist_ops \<Rightarrow> (string \<times> u64 \<times> bool) list \<Rightarrow> 'h aggregator \<Rightarrow> 'h aggregator" where
  "Add_all H = fold (\<lambda>(cid, l, b). Add H cid l b)"

definition samples :: "(string \<times> u64 \<times> bool) list \<Rightarrow> sample list" where
  "samples = map (\<lambda>(cid, l, b). sample_of cid l b)"

lemma agg_describes_all:
  "agg_describes H a evs \<Longrightarrow> agg_describes H (Add_all H calls a) (evs @ samples calls)"
proof (induction calls arbitrary: a evs)
  case (Cons c calls)
  obtain cid l b where c: "c = (cid, l, b)" by (cases c)
  from Cons.IH [OF agg_describes_Add [OF Cons.prems, of cid l b]] show ?case
    by (simp add: Add_all_def samples_def c)
qed (simp add: Add_all_def samples_def)

lemma Add_start [simp]:
  "ag_start (Add H cid l b a) = ag_start a" "ag_end (Add H cid l b a) = ag_end a"
  "ag_params (Add H cid l b a) = ag_params a"
  by (simp_all add: Add_fields)

lemma Add_all_start [simp]:
  "ag_start (Add_all H calls a) = ag_start a" "ag_end (Add_all H calls a) = ag_end a"
  "ag_params (Add_all H calls a) = ag_params a"
  by (induction calls arbitrary: a) (auto simp: Add_all_def)

lemma int64_of_small: "w < 2 ^ 63 \<Longrightarrow> int64_of w = uint w"
  by (simp add: int64_of_def in_int64_def word_less_def order_trans [of _ 0])

lemma fold_idle: "(\<And>x. x \<in> set xs \<Longrightarrow> P x) \<Longrightarrow> (\<And>x s. P x \<Longrightarrow> f x s = s) \<Longrightarrow> fold f xs s = s"
  by (induction xs) auto

section \<open>Flushing\<close>

lemma cnt_dom:
  "agg_describes H a evs \<Longrightarrow> dom (ag_cnt a) = s_cid ` set evs"
  by (auto simp: agg_describes_def key_ok_def samples_of_def filter_empty_conv dom_def split: if_splits)

lemma flush_windows_spec:
  assumes d: "agg_describes H a evs" and n: "length evs < 2 ^ 64" and sub: "set order \<subseteq> s_cid ` set evs"
  shows "\<exists>ws. flush_windows H E a order = Some ws \<and> list_all2 (\<lambda>cid w.
      window_of H E a cid (of_nat (length (samples_of cid evs))) = Some w) order ws"
  using sub
proof (induction order)
  case (Cons cid order)
  let ?es = "samples_of cid evs"
  have ne: "?es \<noteq> []" using Cons.prems by (auto simp: samples_of_def filter_empty_conv)
  have k: "key_ok H a cid ?es" using d by (simp add: agg_describes_def)
  then have c: "map_get (ag_cnt a) cid = of_nat (length ?es)" using ne by (simp add: key_ok_def map_get_def)
  have "length ?es \<le> length evs" unfolding samples_of_def by (rule length_filter_le)
  then have "unat (of_nat (length ?es) :: u64) = length ?es" using n by (intro unat_of_nat_u64) simp
  then have "(of_nat (length ?es) :: u64) \<noteq> 0" using ne by auto
  moreover have "ag_hists a cid = Some (hist_of H ?es)" using k ne by (simp add: key_ok_def)
  then obtain w where "window_of H E a cid (of_nat (length ?es)) = Some w"
    by (simp add: window_of_def Let_def)
  ultimately show ?case using Cons c by auto
qed simp

section \<open>The score stays in range\<close>

definition fin_le :: "nat \<Rightarrow> f64 \<Rightarrow> bool" where
  "fin_le b x \<longleftrightarrow> (\<exists>q. x = Fin q \<and> \<bar>q\<bar> \<le> 2 ^ b)"

definition fin_in :: "rat \<Rightarrow> rat \<Rightarrow> f64 \<Rightarrow> bool" where
  "fin_in lo hi x \<longleftrightarrow> (\<exists>q. x = Fin q \<and> lo \<le> q \<and> q \<le> hi)"

lemma fl_pow2: "fl (2 ^ n) = 2 ^ n"
  by (rule fl_exact [of _ 1 "int n"]) (simp_all add: power_int_def)

lemma fl_abs_le: "\<bar>q\<bar> \<le> 2 ^ n \<Longrightarrow> \<bar>fl q\<bar> \<le> 2 ^ n"
  using fl_mono [of q "2 ^ n"] fl_mono [of "- q" "2 ^ n"] by (simp add: fl_pow2 abs_le_iff fl_minus)

lemma to_f64_le: "\<bar>q\<bar> \<le> 2 ^ n \<Longrightarrow> n \<le> 80 \<Longrightarrow> fin_le n (to_f64 q)"
  using to_f64_small [of q] fl_abs_le [of q n] power_increasing [of n 80 "2 :: rat"]
  by (auto simp: fin_le_def intro: order_trans)

lemma fin_le_mul: "fin_le a x \<Longrightarrow> fin_le b y \<Longrightarrow> a + b \<le> 80 \<Longrightarrow> fin_le (a + b) (f_mul x y)"
  by (auto simp: fin_le_def [of a] fin_le_def [of b] abs_mult power_add intro!: to_f64_le mult_mono)

lemma fin_le_add:
  assumes "fin_le a x" "fin_le a y" "a < 80"
  shows "fin_le (Suc a) (f_add x y)"
proof -
  obtain p q where "x = Fin p" "y = Fin q" "\<bar>p\<bar> \<le> 2 ^ a" "\<bar>q\<bar> \<le> 2 ^ a"
    using assms by (auto simp: fin_le_def)
  moreover from this have "\<bar>p + q\<bar> \<le> 2 ^ Suc a" using abs_triangle_ineq [of p q] by simp
  ultimately show ?thesis using assms(3) by (simp add: to_f64_le)
qed

lemma fin_le_neg: "fin_le a x \<Longrightarrow> fin_le a (f_neg x)"
  by (auto simp: fin_le_def)

lemma fin_le_up: "fin_le a x \<Longrightarrow> a \<le> b \<Longrightarrow> fin_le b x"
  using power_increasing [of a b "2 :: rat"] by (force simp: fin_le_def intro: order_trans)

lemma fin_le_sub: "fin_le a x \<Longrightarrow> fin_le a y \<Longrightarrow> a < 80 \<Longrightarrow> fin_le (Suc a) (f_sub x y)"
  by (simp add: f_sub_def fin_le_add fin_le_neg)

lemma fin_le_int:
  assumes "in_int64 i" shows "fin_le 63 (f_of_int i)"
proof -
  have "\<bar>i\<bar> \<le> 2 ^ 63" using assms by (auto simp: in_int64_def)
  then have "(of_int \<bar>i\<bar> :: rat) \<le> of_int (2 ^ 63)" by (simp only: of_int_le_iff)
  then show ?thesis by (simp add: f_of_int_def to_f64_le)
qed

lemma f_const_unit: "0 \<le> q \<Longrightarrow> q \<le> 1 \<Longrightarrow> f_const q = Fin (fl q) \<and> 0 \<le> fl q \<and> fl q \<le> 1"
proof -
  assume q: "0 \<le> q" "q \<le> 1"
  then have "\<bar>q\<bar> \<le> 2 ^ 80" by (simp add: order_trans [of _ 1])
  then show ?thesis using fl_range [of 0 q 1] q by (simp add: f_const_def to_f64_small)
qed

lemma f_const_le: "0 \<le> q \<Longrightarrow> q \<le> 1 \<Longrightarrow> fin_le 0 (f_const q)"
  using f_const_unit [of q] by (simp add: fin_le_def)

lemma composite_le:
  assumes "in_int64 a" "in_int64 b" "in_int64 c"
  shows "fin_le 65 (f_add (f_add (f_mul (f_const (2 / 10)) (f_of_int a)) (f_mul (f_const (3 / 10)) (f_of_int b)))
    (f_mul (f_const (5 / 10)) (f_of_int c)))"
proof -
  have m: "fin_le 63 (f_mul (f_const q) (f_of_int i))" if "in_int64 i" "0 \<le> q" "q \<le> 1" for q i
    using fin_le_mul [OF f_const_le fin_le_int, of q i] that by simp
  have "fin_le 64 (f_add (f_mul (f_const (2 / 10)) (f_of_int a)) (f_mul (f_const (3 / 10)) (f_of_int b)))"
    using fin_le_add [OF m m, of a "2 / 10" b "3 / 10"] assms by simp
  from fin_le_add [OF this, of "f_mul (f_const (5 / 10)) (f_of_int c)"] m [of c "5 / 10"] assms
  show ?thesis by (simp add: fin_le_up [of 63])
qed

text \<open>What is used of \<open>math.Exp\<close> (on arguments at most 0), and the parameters the score is sane for.\<close>

definition exp_law :: "(f64 \<Rightarrow> f64) \<Rightarrow> bool" where
  "exp_law E \<longleftrightarrow> E (Fin 0) = Fin 1 \<and> (\<forall>q. q \<le> 0 \<longrightarrow> fin_in 0 1 (E (Fin q)))"

definition params_ok :: "scoringParams \<Rightarrow> bool" where
  "params_ok p \<longleftrightarrow> (\<exists>l. sp_Lambda p = Fin l \<and> 0 \<le> l \<and> l \<le> 2 ^ 10) \<and>
     fin_le 65 (sp_LTarget p) \<and> (\<exists>u. sp_TTarget p = Fin u \<and> 0 < u)"

lemma DefaultScoringParams_ok: "params_ok DefaultScoringParams"
  using f_const_unit [of "1 / 1000"]
  by (auto simp: params_ok_def DefaultScoringParams_def fin_le_def intro: order_trans [of _ 1])

lemma hundred_unit: "fin_in 0 1 x \<Longrightarrow> fin_in 0 100 (f_mul (Fin 100) x)"
proof -
  assume "fin_in 0 1 x"
  then obtain q where q: "x = Fin q" "0 \<le> q" "q \<le> 1" by (auto simp: fin_in_def)
  then have "\<bar>100 * q\<bar> \<le> 2 ^ 80" by (simp add: abs_mult order_trans [of _ 100])
  then show ?thesis using q fl_range [of 0 "100 * q" 100] by (simp add: fin_in_def to_f64_small)
qed

lemma latency_score_range:
  assumes "exp_law E" "params_ok p" "fin_le 65 x"
  shows "fin_in 0 100 (f_mul (Fin 100) (E (f_mul (f_neg (sp_Lambda p)) (math_Max (Fin 0) (f_sub x (sp_LTarget p))))))"
proof -
  obtain l where l: "sp_Lambda p = Fin l" "0 \<le> l" "l \<le> 2 ^ 10" and t: "fin_le 65 (sp_LTarget p)"
    using assms(2) by (auto simp: params_ok_def)
  obtain d where d: "f_sub x (sp_LTarget p) = Fin d" "\<bar>d\<bar> \<le> 2 ^ 66"
    using fin_le_sub [OF assms(3) t] by (auto simp: fin_le_def)
  define m where "m = max 0 d"
  have m: "math_Max (Fin 0) (Fin d) = Fin m" "0 \<le> m" "m \<le> 2 ^ 66"
    using d(2) by (auto simp: math_Max_def m_def)
  have "l * m \<le> 2 ^ 10 * 2 ^ 66" using l m by (intro mult_mono) auto
  then have lm: "\<bar>- (l * m)\<bar> \<le> 2 ^ 80" using l m by (simp add: abs_mult)
  have "f_mul (f_neg (Fin l)) (Fin m) = Fin (fl (- (l * m)))"
    using to_f64_small [OF lm] by simp
  moreover have "fl (- (l * m)) \<le> 0" using fl_mono [of "- (l * m)" 0] l m by simp
  ultimately show ?thesis
    using assms(1) hundred_unit by (simp only: l d m exp_law_def)
qed

lemma to_f64_nonneg: "0 \<le> q \<Longrightarrow> to_f64 q = PInf \<or> (\<exists>r. to_f64 q = Fin r \<and> 0 \<le> r)"
proof -
  assume "0 \<le> q"
  then have "0 \<le> fl q" by (rule fl_nonneg)
  moreover have "0 < f64_max" unfolding f64_max_def by (rule zero_less_power) simp
  ultimately show ?thesis by (simp add: to_f64_def Let_def)
qed

lemma throughput_score_range:
  assumes "x = PInf \<or> (\<exists>q. x = Fin q \<and> 0 \<le> q)" "0 < u"
  shows "fin_in 0 100 (f_mul (Fin 100) (math_Min (Fin 1) (f_div x (Fin u))))"
proof -
  have "f_div x (Fin u) = PInf \<or> (\<exists>q. f_div x (Fin u) = Fin q \<and> 0 \<le> q)"
    using assms(1)
  proof
    assume "\<exists>q. x = Fin q \<and> 0 \<le> q"
    then obtain q where q: "x = Fin q" "0 \<le> q" by blast
    then have "0 \<le> q / u" using assms(2) by simp
    from to_f64_nonneg [OF this] show ?thesis using q assms(2) by simp
  qed (use assms(2) in \<open>simp add: f_inf_def\<close>)
  then have "fin_in 0 1 (math_Min (Fin 1) (f_div x (Fin u)))"
    by (auto simp: math_Min_def fin_in_def)
  then show ?thesis by (rule hundred_unit)
qed

lemma correctness_score_range:
  assumes "fin_in 0 1 x" shows "fin_in 0 100 (f_mul (Fin 100) (math_Pow4 x))"
proof -
  have sq: "fin_in 0 1 (f_mul y y)" if y: "fin_in 0 1 y" for y
  proof -
    obtain q where q: "y = Fin q" "0 \<le> q" "q \<le> 1" using y by (auto simp: fin_in_def)
    then have u: "0 \<le> q * q" "q * q \<le> 1" by (simp_all add: mult_le_one)
    then have "\<bar>q * q\<bar> \<le> 2 ^ 80" by (simp only: abs_of_nonneg) (rule order_trans, assumption, simp)
    then have "f_mul y y = Fin (fl (q * q))" by (simp only: q f_mul.simps to_f64_small)
    then show ?thesis using u fl_range [of 0 "q * q" 1] by (simp add: fin_in_def)
  qed
  show ?thesis unfolding math_Pow4_def Let_def by (intro hundred_unit sq assms)
qed

text \<open>The rounded weights times 100 are exactly 40, 30 and 30, so the weighted sum stays below 100.\<close>

lemma fl_weights: "fl (fl (40 / 100) * 100) = 40" "fl (fl (30 / 100) * 100) = 30"
  by code_simp+

lemma weighted:
  assumes "fin_in 0 100 x" "0 \<le> q" "q \<le> 1" "fl (fl q * 100) = b"
  shows "fin_in 0 b (f_mul (f_const q) x)"
proof -
  obtain r where r: "x = Fin r" "0 \<le> r" "r \<le> 100" using assms(1) by (auto simp: fin_in_def)
  note w = f_const_unit [OF assms(2,3)]
  then have m: "0 \<le> fl q * r" "fl q * r \<le> fl q * 100" "fl q * 100 \<le> 100"
    using r by (auto intro: mult_left_mono)
  then have "\<bar>fl q * r\<bar> \<le> 2 ^ 80" by (simp add: order_trans [of _ 100])
  moreover have "fl (fl q * r) \<le> b" using fl_mono [OF m(2)] assms(4) by simp
  ultimately show ?thesis using w r fl_nonneg [OF m(1)] by (simp add: fin_in_def to_f64_small)
qed

lemma fin_in_add:
  assumes "fin_in 0 (of_int a) x" "fin_in 0 (of_int b) y" "\<bar>a + b\<bar> \<le> 2 ^ 53"
  shows "fin_in 0 (of_int (a + b)) (f_add x y)"
proof -
  obtain p q where pq: "x = Fin p" "y = Fin q" "0 \<le> p" "p \<le> of_int a" "0 \<le> q" "q \<le> of_int b"
    using assms by (auto simp: fin_in_def)
  then have r: "of_int 0 \<le> p + q" "p + q \<le> of_int (a + b)" by simp_all
  have "(of_int \<bar>a + b\<bar> :: rat) \<le> of_int (2 ^ 53)" using assms(3) by (simp only: of_int_le_iff)
  then have "\<bar>p + q\<bar> \<le> 2 ^ 80" using r by (simp add: abs_le_iff)
  then show ?thesis using pq fl_range [OF r _ assms(3)] by (simp add: fin_in_def to_f64_small)
qed

lemma total_range:
  assumes "fin_in 0 100 sL" "fin_in 0 100 sT" "fin_in 0 100 sC"
  shows "fin_in 0 100 (f_add (f_add (f_mul WeightLatency sL) (f_mul WeightThroughput sT)) (f_mul WeightCorrectness sC))"
proof -
  have "fin_in 0 (of_int 40) (f_mul WeightLatency sL)" "fin_in 0 (of_int 30) (f_mul WeightThroughput sT)"
    "fin_in 0 (of_int 30) (f_mul WeightCorrectness sC)"
    unfolding WeightLatency_def WeightThroughput_def WeightCorrectness_def
    using assms by (intro weighted; simp add: fl_weights [simplified])+
  from fin_in_add [OF fin_in_add [OF this(1,2)] this(3)] show ?thesis by simp
qed

section \<open>Windows\<close>

lemma time_Sub_range: "\<bar>time_Sub t u\<bar> \<le> 2 ^ 63"
  by (simp add: time_Sub_def)

lemma dur_Seconds_finite:
  assumes d: "\<bar>d\<bar> \<le> 2 ^ 63" shows "\<exists>q. dur_Seconds d = Fin q"
proof -
  let ?q = "go_quot d 1000000000" and ?r = "go_rem d 1000000000"
  have "\<bar>?q\<bar> \<le> \<bar>d\<bar> div 1000000000" by (rule go_quot_bound) simp
  also have "\<dots> \<le> 2 ^ 63 div 1000000000" using d by (rule zdiv_mono1) simp
  finally have "\<bar>?q\<bar> \<le> 2 ^ 62" by (rule order_trans) simp
  then have "in_int64 ?q" by (auto simp: in_int64_def)
  then have "fin_le 63 (f_of_int ?q)" by (rule fin_le_int)
  moreover have "fin_le 63 (f_div (f_of_int ?r) (Fin 1000000000))"
  proof -
    have r: "\<bar>?r\<bar> < 1000000000" by (rule go_rem_bound) simp
    then have "f_of_int ?r = Fin (of_int ?r)" by (intro f_of_int_small) simp
    moreover have "(of_int \<bar>?r\<bar> :: rat) \<le> of_int 1000000000" using r by (simp only: of_int_le_iff)
    then have "\<bar>of_int ?r / 1000000000 :: rat\<bar> \<le> 2 ^ 63" by simp
    ultimately show ?thesis by (simp add: to_f64_le)
  qed
  ultimately have "fin_le 64 (dur_Seconds d)" unfolding dur_Seconds_def using fin_le_add [of 63] by simp
  then show ?thesis by (auto simp: fin_le_def)
qed

lemma window_secs_pos: "\<exists>q. window_secs a = Fin q \<and> 0 < q"
  using dur_Seconds_finite [OF time_Sub_range, of "ag_end a" "ag_start a"]
  by (auto simp: window_secs_def Let_def f_le_def)

text \<open>The fields of one window, and its score by way of \<open>ComputeScore\<close>.\<close>

definition quant :: "'h hist_ops \<Rightarrow> int \<Rightarrow> 'h \<Rightarrow> f64" where
  "quant H q h = f_of_int (ho_ValueAtQuantile H (Fin (of_int q)) h)"

lemma window_fields:
  assumes k: "key_ok H a cid es" and w: "window_of H E a cid (of_nat (length es)) = Some w" and ne: "es \<noteq> []"
  shows "w_ContestantID w = cid" "w_Count w = of_nat (length es)"
    "w_CorrectCount w = of_nat (length (filter s_ok es))"
    "w_MinUs w = Min (s_lat ` set es)" "w_MaxUs w = Max (s_lat ` set es)"
    "w_AvgUs w = f_to_u64 (math_Round (f_div (f_of_u64 (sum_list (map s_lat es))) (f_of_u64 (of_nat (length es)))))"
    "w_CorrectRatio w = f_div (f_of_u64 (of_nat (length (filter s_ok es)))) (f_of_u64 (of_nat (length es)))"
    "w_SustainedTPS w = f_div (f_of_u64 (of_nat (length es))) (window_secs a)"
    "w_P50Us w = f_to_u64 (quant H 50 (hist_of H es))" "w_P90Us w = f_to_u64 (quant H 90 (hist_of H es))"
    "w_P99Us w = f_to_u64 (quant H 99 (hist_of H es))"
    "w_WindowStart w = time_Unix (ag_start a)" "w_WindowEnd w = time_Unix (ag_end a)"
    "w_Score w = ComputeScore E (quant H 50 (hist_of H es)) (quant H 90 (hist_of H es)) (quant H 99 (hist_of H es))
       (w_CorrectRatio w) (w_SustainedTPS w) (ag_params a)"
    "w_ScoreLatency w = f_mul (Fin 100) (E (f_mul (f_neg (sp_Lambda (ag_params a))) (math_Max (Fin 0) (f_sub
       (f_add (f_add (f_mul (f_const (2 / 10)) (quant H 50 (hist_of H es))) (f_mul (f_const (3 / 10)) (quant H 90 (hist_of H es))))
         (f_mul (f_const (5 / 10)) (quant H 99 (hist_of H es)))) (sp_LTarget (ag_params a))))))"
proof -
  have h: "ag_hists a cid = Some (hist_of H es)" "map_get (ag_ok a) cid = of_nat (length (filter s_ok es))"
    "map_get (ag_sumUs a) cid = sum_list (map s_lat es)"
    "map_get (ag_minUs a) cid = Min (s_lat ` set es)" "map_get (ag_maxUs a) cid = Max (s_lat ` set es)"
    using k ne by (simp_all add: key_ok_def)
  note eq = w [unfolded window_of_def h option.case Let_def option.inject, symmetric]
  show "w_ContestantID w = cid" "w_Count w = of_nat (length es)"
    "w_CorrectCount w = of_nat (length (filter s_ok es))"
    "w_MinUs w = Min (s_lat ` set es)" "w_MaxUs w = Max (s_lat ` set es)"
    "w_AvgUs w = f_to_u64 (math_Round (f_div (f_of_u64 (sum_list (map s_lat es))) (f_of_u64 (of_nat (length es)))))"
    "w_CorrectRatio w = f_div (f_of_u64 (of_nat (length (filter s_ok es)))) (f_of_u64 (of_nat (length es)))"
    "w_SustainedTPS w = f_div (f_of_u64 (of_nat (length es))) (window_secs a)"
    "w_P50Us w = f_to_u64 (quant H 50 (hist_of H es))" "w_P90Us w = f_to_u64 (quant H 90 (hist_of H es))"
    "w_P99Us w = f_to_u64 (quant H 99 (hist_of H es))"
    "w_WindowStart w = time_Unix (ag_start a)" "w_WindowEnd w = time_Unix (ag_end a)"
    by (simp_all only: eq contestantWindow.simps quant_def of_int_numeral)
  show "w_Score w = ComputeScore E (quant H 50 (hist_of H es)) (quant H 90 (hist_of H es)) (quant H 99 (hist_of H es))
       (w_CorrectRatio w) (w_SustainedTPS w) (ag_params a)"
    by (simp only: eq contestantWindow.simps quant_def of_int_numeral ComputeScore_def Let_def)
  show "w_ScoreLatency w = f_mul (Fin 100) (E (f_mul (f_neg (sp_Lambda (ag_params a))) (math_Max (Fin 0) (f_sub
       (f_add (f_add (f_mul (f_const (2 / 10)) (quant H 50 (hist_of H es))) (f_mul (f_const (3 / 10)) (quant H 90 (hist_of H es))))
         (f_mul (f_const (5 / 10)) (quant H 99 (hist_of H es)))) (sp_LTarget (ag_params a))))))"
    by (simp only: eq contestantWindow.simps quant_def of_int_numeral)
qed

lemma ratio_unit:
  assumes "c \<le> n" "0 < n" "n \<le> 2 ^ 53"
  shows "fin_in 0 1 (f_div (f_of_u64 (of_nat c)) (f_of_u64 (of_nat n)))"
proof -
  let ?q = "of_nat c / of_nat n :: rat"
  have q: "0 \<le> ?q" "?q \<le> 1" using assms by (simp_all add: divide_le_eq_1)
  then have "\<bar>?q\<bar> \<le> 2 ^ 80" by (simp only: abs_of_nonneg) (rule order_trans, assumption, simp)
  then have "f_div (f_of_u64 (of_nat c)) (f_of_u64 (of_nat n)) = Fin (fl ?q)"
    using assms by (simp add: f_of_nat_u64 to_f64_small)
  then show ?thesis using fl_range [of 0 ?q 1] q by (simp add: fin_in_def)
qed

lemma rate_nonneg:
  assumes "n \<le> 2 ^ 53"
  shows "f_div (f_of_u64 (of_nat n)) (window_secs a) = PInf \<or>
    (\<exists>q. f_div (f_of_u64 (of_nat n)) (window_secs a) = Fin q \<and> 0 \<le> q)"
proof -
  obtain s where s: "window_secs a = Fin s" "0 < s" using window_secs_pos by blast
  then have "0 \<le> of_nat n / s" by simp
  from to_f64_nonneg [OF this] show ?thesis using s f_of_nat_u64 [OF assms] by simp
qed

lemma ComputeScore_range:
  assumes "exp_law E" "params_ok p" "in_int64 a" "in_int64 b" "in_int64 c" "fin_in 0 1 ratio"
    "tps = PInf \<or> (\<exists>q. tps = Fin q \<and> 0 \<le> q)"
  shows "fin_in 0 100 (ComputeScore E (f_of_int a) (f_of_int b) (f_of_int c) ratio tps p)"
proof -
  obtain u where u: "sp_TTarget p = Fin u" "0 < u" using assms(2) by (auto simp: params_ok_def)
  show ?thesis
    unfolding ComputeScore_def Let_def u(1)
    by (intro total_range latency_score_range composite_le correctness_score_range
      throughput_score_range assms u(2))
qed

text \<open>A whole window: any calls on a new aggregator, then a flush in the map's order.\<close>

lemma FlushAndReset_eq:
  "flush_windows H E a order = Some ws \<Longrightarrow> FlushAndReset H E order now nextWindow a
     = Some (NewAggregatorWithParams now nextWindow (ag_params a), ws)"
  by (cases a) (simp add: FlushAndReset_def NewAggregatorWithParams_def)

lemma flush_run:
  fixes H t0 win p calls
  defines "a \<equiv> Add_all H calls (NewAggregatorWithParams t0 win p)" and "es \<equiv> \<lambda>cid. samples_of cid (samples calls)"
  assumes "length calls \<le> 2 ^ 53" "set order = dom (ag_cnt a)"
  shows "\<exists>ws. FlushAndReset H E order now nextWindow a = Some (NewAggregatorWithParams now nextWindow p, ws) \<and>
    set order = s_cid ` set (samples calls) \<and>
    list_all2 (\<lambda>cid w. es cid \<noteq> [] \<and> length (es cid) \<le> 2 ^ 53 \<and> key_ok H a cid (es cid) \<and>
      window_of H E a cid (of_nat (length (es cid))) = Some w) order ws"
proof -
  have d: "agg_describes H a (samples calls)"
    unfolding a_def using agg_describes_all [OF agg_describes_new, of H calls] by simp
  have dom: "set order = s_cid ` set (samples calls)" using assms(4) cnt_dom [OF d] by simp
  then obtain ws where ws: "flush_windows H E a order = Some ws"
    "list_all2 (\<lambda>cid w. window_of H E a cid (of_nat (length (es cid))) = Some w) order ws"
    using flush_windows_spec [OF d, of order E] assms(3) by (auto simp: samples_def es_def)
  have "length (es cid) \<le> length (samples calls)" for cid
    unfolding es_def samples_of_def by (rule length_filter_le)
  then have n: "length (es cid) \<le> 2 ^ 53" for cid
    using assms(3) unfolding samples_def length_map by (rule order_trans)
  have "es cid \<noteq> []" if "cid \<in> set order" for cid
    using that dom by (auto simp: es_def samples_of_def filter_empty_conv)
  moreover have "key_ok H a cid (es cid)" for cid using d by (simp add: agg_describes_def es_def)
  ultimately have "list_all2 (\<lambda>cid w. es cid \<noteq> [] \<and> length (es cid) \<le> 2 ^ 53 \<and> key_ok H a cid (es cid) \<and>
      window_of H E a cid (of_nat (length (es cid))) = Some w) order ws"
    using ws(2) n by (auto simp: list_all2_conv_all_nth)
  moreover have "ag_params a = p" by (simp add: a_def NewAggregatorWithParams_def)
  ultimately show ?thesis using FlushAndReset_eq [OF ws(1), of now nextWindow] dom by auto
qed

lemma flush_member:
  fixes H t0 win p calls w
  defines "a \<equiv> Add_all H calls (NewAggregatorWithParams t0 win p)"
    and "es \<equiv> samples_of (w_ContestantID w) (samples calls)"
  assumes "length calls \<le> 2 ^ 53" "set order = dom (ag_cnt a)"
    and r: "FlushAndReset H E order now nextWindow a = Some (a', ws)" and w: "w \<in> set ws"
  shows "es \<noteq> []" "length es \<le> 2 ^ 53" "key_ok H a (w_ContestantID w) es"
    "window_of H E a (w_ContestantID w) (of_nat (length es)) = Some w"
proof -
  let ?es = "\<lambda>cid. samples_of cid (samples calls)"
  obtain ws' where ws': "FlushAndReset H E order now nextWindow a = Some (NewAggregatorWithParams now nextWindow p, ws')"
    "list_all2 (\<lambda>cid w. ?es cid \<noteq> [] \<and> length (?es cid) \<le> 2 ^ 53 \<and> key_ok H a cid (?es cid) \<and>
      window_of H E a cid (of_nat (length (?es cid))) = Some w) order ws'"
    using flush_run [OF assms(3) assms(4) [unfolded a_def], of E now nextWindow] unfolding a_def by blast
  have "ws' = ws" using ws'(1) r by simp
  then obtain cid where c: "?es cid \<noteq> []" "length (?es cid) \<le> 2 ^ 53" "key_ok H a cid (?es cid)"
    "window_of H E a cid (of_nat (length (?es cid))) = Some w"
    using ws'(2) w by (auto simp: list_all2_conv_all_nth in_set_conv_nth)
  then have "w_ContestantID w = cid" using window_fields(1) by blast
  then show "es \<noteq> []" "length es \<le> 2 ^ 53" "key_ok H a (w_ContestantID w) es"
    "window_of H E a (w_ContestantID w) (of_nat (length es)) = Some w"
    using c unfolding es_def by simp_all
qed

section \<open>Properties\<close>

text \<open>
  C13: after any sequence of \<open>Add\<close> calls on a new aggregator, \<open>FlushAndReset\<close> never touches a
  nil histogram and returns exactly one window per contestant that was added (an empty id
  counts as \<open>unknown\<close>, a latency of 0 as 1), in the order in which \<open>range\<close> visits the map:
  its counts, minimum, maximum and mean are those of that contestant's calls, its percentiles
  those of a histogram fed with its latencies alone, and the aggregator is as new.
\<close>

theorem flush_reports_each_contestant:
  assumes "length calls \<le> 2 ^ 53" and "set order = dom (ag_cnt (Add_all H calls (NewAggregatorWithParams t0 win p)))"
  shows "\<exists>ws. FlushAndReset H E order now nextWindow (Add_all H calls (NewAggregatorWithParams t0 win p))
      = Some (NewAggregatorWithParams now nextWindow p, ws) \<and>
    set order = s_cid ` set (samples calls) \<and> map w_ContestantID ws = order \<and>
    (\<forall>w \<in> set ws. let es = samples_of (w_ContestantID w) (samples calls); lats = map s_lat es in
       w_Count w = of_nat (length es) \<and> w_CorrectCount w = of_nat (length (filter s_ok es)) \<and>
       w_MinUs w = Min (set lats) \<and> w_MaxUs w = Max (set lats) \<and>
       w_P50Us w = f_to_u64 (quant H 50 (hist_of H es)) \<and>
       w_P90Us w = f_to_u64 (quant H 90 (hist_of H es)) \<and>
       w_P99Us w = f_to_u64 (quant H 99 (hist_of H es)) \<and>
       w_WindowStart w = time_Unix t0 \<and> w_WindowEnd w = time_Unix (t0 + win))"
proof -
  let ?a = "Add_all H calls (NewAggregatorWithParams t0 win p)"
  obtain ws where f: "FlushAndReset H E order now nextWindow ?a = Some (NewAggregatorWithParams now nextWindow p, ws)"
    "set order = s_cid ` set (samples calls)"
    and all: "list_all2 (\<lambda>cid w. samples_of cid (samples calls) \<noteq> [] \<and>
      length (samples_of cid (samples calls)) \<le> 2 ^ 53 \<and> key_ok H ?a cid (samples_of cid (samples calls)) \<and>
      window_of H E ?a cid (of_nat (length (samples_of cid (samples calls)))) = Some w) order ws"
    using flush_run [OF assms, of E now nextWindow] by blast
  have "map w_ContestantID ws = order"
    using all by (induction rule: list_all2_induct) (auto dest: window_fields(1))
  moreover have "\<exists>cid. samples_of cid (samples calls) \<noteq> [] \<and> key_ok H ?a cid (samples_of cid (samples calls)) \<and>
      window_of H E ?a cid (of_nat (length (samples_of cid (samples calls)))) = Some w" if "w \<in> set ws" for w
    using all that by (auto simp: list_all2_conv_all_nth in_set_conv_nth)
  then have "let es = samples_of (w_ContestantID w) (samples calls); lats = map s_lat es in
       w_Count w = of_nat (length es) \<and> w_CorrectCount w = of_nat (length (filter s_ok es)) \<and>
       w_MinUs w = Min (set lats) \<and> w_MaxUs w = Max (set lats) \<and>
       w_P50Us w = f_to_u64 (quant H 50 (hist_of H es)) \<and>
       w_P90Us w = f_to_u64 (quant H 90 (hist_of H es)) \<and>
       w_P99Us w = f_to_u64 (quant H 99 (hist_of H es)) \<and>
       w_WindowStart w = time_Unix t0 \<and> w_WindowEnd w = time_Unix (t0 + win)" if w: "w \<in> set ws" for w
    using w window_fields [of H ?a _ _ E w] by (fastforce simp: Let_def NewAggregatorWithParams_def)
  ultimately show ?thesis using f by blast
qed

text \<open>A concrete histogram (it keeps the largest value) and a concrete \<open>exp\<close> for the witnesses.\<close>

definition max_hist :: "int hist_ops" where
  "max_hist = \<lparr>ho_New = (\<lambda>lo hi fig. 0), ho_RecordValue = max,
     ho_ValueAtQuantile = (\<lambda>q h. int64_wrap h)\<rparr>"

lemma one_call_order:
  "set [''a''] = dom (ag_cnt (Add_all H [(''a'', 0, True)] (NewAggregatorWithParams 5 7 DefaultScoringParams)))"
  by (simp add: Add_all_def Add_fields sample_of_def NewAggregatorWithParams_def)

definition step_exp :: "f64 \<Rightarrow> f64" where
  "step_exp x = (if x = Fin 0 then Fin 1 else Fin 0)"

lemma step_exp_law: "exp_law step_exp"
  by (simp add: exp_law_def step_exp_def fin_in_def)

lemma flush_reports_each_contestant_witness:
  "\<exists>ws. FlushAndReset max_hist step_exp [''a''] 9 7
      (Add_all max_hist [(''a'', 0, True)] (NewAggregatorWithParams 5 7 DefaultScoringParams))
    = Some (NewAggregatorWithParams 9 7 DefaultScoringParams, ws) \<and> map w_ContestantID ws = [''a'']"
proof -
  have n: "length [(''a'', 0 :: u64, True)] \<le> 2 ^ 53" by simp
  show ?thesis
    using flush_reports_each_contestant [OF n one_call_order, of max_hist step_exp 9 7]
    by (elim exE conjE, intro exI conjI)
qed

text \<open>
  C24: every score in a flushed window is a number from 0 to 100, never NaN or infinite, and it
  is the value of \<open>ComputeScore\<close>, whose formula \<open>FlushAndReset\<close> repeats inline, on the window's
  quantiles, ratio and rate. It needs \<open>math.Exp\<close> to be in \<open>[0, 1]\<close> on arguments at most 0,
  quantiles that are \<open>int64\<close> values, and finite parameters with a positive target rate, as the
  defaults are. The rounded weights lose nothing: 0.4, 0.3 and 0.3 of 100 add up to 100.
\<close>

theorem window_scores_in_range:
  assumes "length calls \<le> 2 ^ 53" "set order = dom (ag_cnt (Add_all H calls (NewAggregatorWithParams t0 win p)))"
    and "exp_law E" "params_ok p" "\<And>q h. in_int64 (ho_ValueAtQuantile H q h)"
    and "FlushAndReset H E order now nextWindow (Add_all H calls (NewAggregatorWithParams t0 win p)) = Some (a', ws)"
    and "w \<in> set ws"
  shows "\<exists>s. w_Score w = Fin s \<and> 0 \<le> s \<and> s \<le> 100 \<and>
    (let h = hist_of H (samples_of (w_ContestantID w) (samples calls))
     in w_Score w = ComputeScore E (quant H 50 h) (quant H 90 h) (quant H 99 h) (w_CorrectRatio w) (w_SustainedTPS w) p)"
proof -
  let ?a = "Add_all H calls (NewAggregatorWithParams t0 win p)"
  note c = flush_member [OF assms(1,2,6,7)]
  note f = window_fields [OF c(3,4,1)]
  have p: "ag_params ?a = p" by (simp add: NewAggregatorWithParams_def)
  have "fin_in 0 1 (w_CorrectRatio w)"
    unfolding f(7) using c(1,2) by (intro ratio_unit) simp_all
  then have "fin_in 0 100 (w_Score w)"
    unfolding f(14) p quant_def f(8) using assms(3-5) rate_nonneg [OF c(2)] by (intro ComputeScore_range)
  then obtain s where "w_Score w = Fin s" "0 \<le> s" "s \<le> 100" unfolding fin_in_def by blast
  then show ?thesis unfolding Let_def using f(14) [unfolded p] by (intro exI conjI)
qed

lemma window_scores_in_range_witness:
  "\<exists>a' w s. FlushAndReset max_hist step_exp [''a''] 9 7
      (Add_all max_hist [(''a'', 0, True)] (NewAggregatorWithParams 5 7 DefaultScoringParams)) = Some (a', [w]) \<and>
    w_Score w = Fin s \<and> 0 \<le> s \<and> s \<le> 100"
proof -
  obtain a' w where r: "FlushAndReset max_hist step_exp [''a''] 9 7
      (Add_all max_hist [(''a'', 0, True)] (NewAggregatorWithParams 5 7 DefaultScoringParams)) = Some (a', [w])"
    using flush_run [OF _ one_call_order, of max_hist step_exp 9 7] by (auto simp: list_all2_Cons1)
  have q: "in_int64 (ho_ValueAtQuantile max_hist q h)" for q h by (simp add: max_hist_def int64_wrap_range)
  from window_scores_in_range [OF _ one_call_order step_exp_law DefaultScoringParams_ok q r, of w] r
  show ?thesis by auto
qed

text \<open>
  The mean in a flushed window lies between its minimum and maximum, as long as the
  contestant's latencies add up to at most \<open>2 ^ 53\<close> microseconds (285 years of waiting).
\<close>

theorem window_mean_between:
  assumes "length calls \<le> 2 ^ 53" "set order = dom (ag_cnt (Add_all H calls (NewAggregatorWithParams t0 win p)))"
    and "FlushAndReset H E order now nextWindow (Add_all H calls (NewAggregatorWithParams t0 win p)) = Some (a', ws)"
    and "w \<in> set ws" "sum_list (map (uint \<circ> s_lat) (samples_of (w_ContestantID w) (samples calls))) \<le> 2 ^ 53"
  shows "w_MinUs w \<le> w_AvgUs w \<and> w_AvgUs w \<le> w_MaxUs w"
proof -
  let ?es = "samples_of (w_ContestantID w) (samples calls)"
  let ?ls = "map s_lat ?es"
  note c = flush_member [OF assms(1-4)]
  note f = window_fields [OF c(3,4,1)]
  have ne: "?ls \<noteq> []" using c(1) by simp
  have S: "lat_sum ?ls \<le> 2 ^ 53" using assms(5) by (simp add: lat_sum_def)
  have "uint (Max (set ?ls)) \<le> 2 ^ 53" using lat_sum_extremes(3) [OF ne] S by (rule order_trans)
  then show ?thesis
    using round_mean [of "length ?ls" "lat_sum ?ls" "Min (set ?ls)" "Max (set ?ls)"] c(1,2) S
      lat_sum_nonneg [of ?ls] lat_sum_extremes(1,2) [OF ne]
    by (simp add: f(4-6) f_of_nat_u64 f_of_lat_sum)
qed

lemma window_mean_between_witness:
  "\<exists>a' w. FlushAndReset max_hist step_exp [''a''] 9 7
      (Add_all max_hist [(''a'', 0, True)] (NewAggregatorWithParams 5 7 DefaultScoringParams)) = Some (a', [w]) \<and>
    w_MinUs w \<le> w_AvgUs w \<and> w_AvgUs w \<le> w_MaxUs w"
proof -
  obtain a' w where r: "FlushAndReset max_hist step_exp [''a''] 9 7
      (Add_all max_hist [(''a'', 0, True)] (NewAggregatorWithParams 5 7 DefaultScoringParams)) = Some (a', [w])"
    using flush_run [OF _ one_call_order, of max_hist step_exp 9 7] by (auto simp: list_all2_Cons1)
  from window_mean_between [OF _ one_call_order r, of w] r
  show ?thesis by (auto simp: samples_of_def samples_def sample_of_def)
qed

text \<open>
  An engine that answers too slowly to be measured gets the full latency score. With a
  histogram that discards values above its range (here: above \<open>2 ^ 26\<close> us, the last bucket of
  one made for 60 s) and reports 0 when empty, a contestant whose every latency is beyond it
  has p50 = p90 = p99 = 0 in its window and a latency sub-score of 100, the maximum.
\<close>

theorem unmeasured_engine_scores_best:
  assumes "length calls \<le> 2 ^ 53" "set order = dom (ag_cnt (Add_all H calls (NewAggregatorWithParams t0 win DefaultScoringParams)))"
    and "exp_law E" "\<And>v h. 2 ^ 26 < v \<Longrightarrow> ho_RecordValue H v h = h"
    and "\<And>q. ho_ValueAtQuantile H q (ho_New H 1 60000000 3) = 0"
    and "FlushAndReset H E order now nextWindow (Add_all H calls (NewAggregatorWithParams t0 win DefaultScoringParams)) = Some (a', ws)"
    and "w \<in> set ws" "\<And>cid l b. (cid, l, b) \<in> set calls \<Longrightarrow> 2 ^ 26 < l \<and> l < 2 ^ 63"
  shows "w_P99Us w = 0 \<and> w_ScoreLatency w = Fin 100"
proof -
  let ?es = "samples_of (w_ContestantID w) (samples calls)"
  note c = flush_member [OF assms(1,2,6,7)]
  note f = window_fields [OF c(3,4,1)]
  have "2 ^ 26 < int64_of (s_lat e)" if e: "e \<in> set ?es" for e
  proof -
    obtain cid l b where l: "(cid, l, b) \<in> set calls" "s_lat e = (if l = 0 then 1 else l)"
      using e by (auto simp: samples_of_def samples_def sample_of_def)
    have "2 ^ 26 < l" "l < 2 ^ 63" using assms(8) [OF l(1)] by simp_all
    moreover from this have "l \<noteq> 0" by (metis word_not_simps(1))
    moreover have "uint (2 ^ 26 :: u64) = 2 ^ 26" by simp
    ultimately show ?thesis using l(2) by (simp only: int64_of_small word_less_def if_False)
  qed
  note large = this
  have h: "hist_of H ?es = ho_New H 1 60000000 3"
    unfolding hist_of_def
  proof (rule fold_idle)
    fix e assume "e \<in> set ?es"
    then show "2 ^ 26 < int64_of (s_lat e)" by (rule large)
  next
    fix e h assume "2 ^ 26 < int64_of (s_lat e)"
    then show "ho_RecordValue H (int64_of (s_lat e)) h = h" by (rule assms(4))
  qed
  have q: "quant H k (hist_of H ?es) = Fin 0" for k
    using f_of_int_small [of 0] by (simp add: quant_def h assms(5))
  have z: "f_mul (f_const r) (Fin 0) = Fin 0" if "0 \<le> r" "r \<le> 1" for r
    using f_const_unit [OF that] to_f64_small [of 0] by simp
  have "f_sub (Fin 0) (Fin 1000) = Fin (- 1000)"
    using to_f64_small [of "- 1000"] fl_of_int [of "- 1000"] by (simp add: f_sub_def)
  then have m: "math_Max (Fin 0) (f_sub (Fin 0) (Fin 1000)) = Fin 0" by (simp add: math_Max_def)
  have l: "f_mul (f_neg (f_const (1 / 1000))) (Fin 0) = Fin 0"
    using f_const_unit [of "1 / 1000"] to_f64_small [of 0] by simp
  have "f_add (Fin 0) (Fin 0) = Fin 0" "f_mul (Fin 100) (Fin 1) = Fin 100"
    using to_f64_small [of 0] to_f64_small [of 100] by simp_all
  then show ?thesis
    unfolding f(11,15) q using assms(3) z [of "2 / 10"] z [of "3 / 10"] z [of "5 / 10"] m l
    by (simp add: NewAggregatorWithParams_def DefaultScoringParams_def exp_law_def trunc_def)
qed

definition drop_hist :: "int hist_ops" where
  "drop_hist = \<lparr>ho_New = (\<lambda>lo hi fig. 0), ho_RecordValue = (\<lambda>v h. if 2 ^ 26 < v then h else max v h),
     ho_ValueAtQuantile = (\<lambda>q h. h)\<rparr>"

lemma unmeasured_engine_scores_best_witness:
  "\<exists>a' w. FlushAndReset drop_hist step_exp [''a''] 9 7
      (Add_all drop_hist [(''a'', 2 ^ 27, True)] (NewAggregatorWithParams 5 7 DefaultScoringParams)) = Some (a', [w]) \<and>
    w_P99Us w = 0 \<and> w_ScoreLatency w = Fin 100"
proof -
  have o: "set [''a''] = dom (ag_cnt (Add_all drop_hist [(''a'', 2 ^ 27, True)] (NewAggregatorWithParams 5 7 DefaultScoringParams)))"
    by (simp add: Add_all_def Add_fields sample_of_def NewAggregatorWithParams_def)
  obtain a' w where r: "FlushAndReset drop_hist step_exp [''a''] 9 7
      (Add_all drop_hist [(''a'', 2 ^ 27, True)] (NewAggregatorWithParams 5 7 DefaultScoringParams)) = Some (a', [w])"
    using flush_run [OF _ o, of step_exp 9 7] by (auto simp: list_all2_Cons1)
  from unmeasured_engine_scores_best [OF _ o step_exp_law _ _ r, of w] r
  show ?thesis by (auto simp: drop_hist_def)
qed

end
