(* ===== verification/Trading.thy ===== *)
theory Trading
  imports GoText GoFloat
begin

text \<open>
  The trading gateway contract (proto/iicpc/trading/trading.proto) and its reference server,
  cmd/mock_matcher_go. Clocks are arguments. Pseudo-random draws come from \<open>rng_ops\<close>: the two
  methods of \<open>rand.Rand\<close> the program calls, on an opaque generator state.
\<close>

datatype side = BUY | SELL
datatype orderType = LIMIT | MARKET

record orderRequest =
  oq_OrderId :: string
  oq_ClientId :: string
  oq_Symbol :: string
  oq_Side :: side
  oq_OrderType :: orderType
  oq_Price :: f64
  oq_Quantity :: u64
  oq_TimestampNs :: u64

record orderResponse =
  or_OrderId :: string
  or_ClientId :: string
  or_Symbol :: string
  or_Status :: string
  or_ExecutionPrice :: f64
  or_FilledQuantity :: u64
  or_TimestampNs :: u64

record 'r rng_ops =
  rg_Intn :: "nat \<Rightarrow> 'r \<Rightarrow> nat \<times> 'r"
  rg_Float64 :: "'r \<Rightarrow> f64 \<times> 'r"

text \<open>Documented: \<open>Intn(n)\<close> is in \<open>[0, n)\<close>, \<open>Float64()\<close> in \<open>[0.0, 1.0)\<close>.\<close>

definition rng_law :: "'r rng_ops \<Rightarrow> bool" where
  "rng_law R \<longleftrightarrow> (\<forall>n r. 0 < n \<longrightarrow> fst (rg_Intn R n r) < n) \<and>
     (\<forall>r. \<exists>q. fst (rg_Float64 R r) = Fin q \<and> 0 \<le> q \<and> q < 1)"

section \<open>The mock matcher\<close>

definition mock_response :: "orderRequest \<Rightarrow> string \<Rightarrow> f64 \<Rightarrow> u64 \<Rightarrow> u64 \<Rightarrow> orderResponse" where
  "mock_response req status price filled now =
     \<lparr>or_OrderId = oq_OrderId req, or_ClientId = oq_ClientId req, or_Symbol = oq_Symbol req,
      or_Status = status, or_ExecutionPrice = price, or_FilledQuantity = filled, or_TimestampNs = now\<rparr>"

text \<open>
  \<open>PlaceOrder\<close>: the delay of 1 to 15 ms is drawn first; \<open>done\<close> says whether the context ended
  before the timer, \<open>Inl\<close> is then the context's error.
\<close>

definition mock_delay_ms :: "'r rng_ops \<Rightarrow> 'r \<Rightarrow> nat \<times> 'r" where
  "mock_delay_ms R r = (let (d, r') = rg_Intn R 15 r in (1 + d, r'))"

definition mock_PlaceOrder ::
  "'r rng_ops \<Rightarrow> string option \<Rightarrow> orderRequest \<Rightarrow> u64 \<Rightarrow> 'r \<Rightarrow> (string + orderResponse) \<times> 'r" where
  "mock_PlaceOrder R done req now r =
     (let (delay, r1) = mock_delay_ms R r in
      case done of Some e \<Rightarrow> (Inl e, r1)
      | None \<Rightarrow>
        if oq_OrderId req = '''' \<or> oq_ClientId req = '''' \<or> oq_Symbol req = '''' \<or> oq_Quantity req = 0
        then (Inr (mock_response req ''REJECTED'' (Fin 0) 0 now), r1)
        else let (execPrice, r2) =
               (if oq_OrderType req = LIMIT then (oq_Price req, r1)
                else let (x, r') = rg_Float64 R r1
                     in (f_add (Fin 100) (f_sub (f_mul x (Fin (1 / 2))) (Fin (1 / 4))), r'))
             in (Inr (mock_response req ''FILLED'' execPrice (oq_Quantity req) now), r2))"

text \<open>
  \<open>StreamOrders\<close> answers one request after the other until \<open>Recv\<close>, \<open>PlaceOrder\<close> or \<open>Send\<close>
  fails. The input is what the stream delivers: a request with the end of its context, the
  clock and the error of sending the reply, or the error of \<open>Recv\<close>.
\<close>

datatype stream_in = Req orderRequest "string option" u64 "string option" | RecvErr string

fun mock_StreamOrders :: "'r rng_ops \<Rightarrow> stream_in list \<Rightarrow> 'r \<Rightarrow> orderResponse list \<times> string option" where
  "mock_StreamOrders R [] r = ([], None)"
| "mock_StreamOrders R (RecvErr e # ins) r = ([], Some e)"
| "mock_StreamOrders R (Req req done now sendErr # ins) r =
     (case mock_PlaceOrder R done req now r of
        (Inl e, r') \<Rightarrow> ([], Some e)
      | (Inr resp, r') \<Rightarrow>
          (case sendErr of Some e \<Rightarrow> ([], Some e)
           | None \<Rightarrow> (case mock_StreamOrders R ins r' of (out, e) \<Rightarrow> (resp # out, e))))"

lemma mock_PlaceOrder_reply:
  assumes "mock_PlaceOrder R done req now r = (Inr resp, r')"
  shows "done = None" "or_OrderId resp = oq_OrderId req" "or_ClientId resp = oq_ClientId req"
    "or_Symbol resp = oq_Symbol req" "or_TimestampNs resp = now"
    "or_Status resp = (if oq_OrderId req = '''' \<or> oq_ClientId req = '''' \<or> oq_Symbol req = '''' \<or>
       oq_Quantity req = 0 then ''REJECTED'' else ''FILLED'')"
    "or_FilledQuantity resp = (if or_Status resp = ''FILLED'' then oq_Quantity req else 0)"
  using assms
  by (auto simp: mock_PlaceOrder_def mock_response_def Let_def split: prod.splits option.splits if_splits)

lemma mock_PlaceOrder_total: "\<exists>resp r'. mock_PlaceOrder R None req now r = (Inr resp, r')"
  by (auto simp: mock_PlaceOrder_def Let_def split: prod.split)

text \<open>A market order is executed at 99.75 to 100.25, also after rounding; a limit order at its price.\<close>

lemma mock_market_price:
  assumes "rng_law R" "mock_PlaceOrder R None req now r = (Inr resp, r')" "or_Status resp = ''FILLED''"
    "oq_OrderType req = MARKET"
  shows "\<exists>q. or_ExecutionPrice resp = Fin q \<and> 399 / 4 \<le> q \<and> q \<le> 401 / 4"
proof -
  obtain d r1 where d: "rg_Intn R 15 r = (d, r1)" by fastforce
  obtain x r2 where x: "rg_Float64 R r1 = (x, r2)" by fastforce
  then obtain q where q: "x = Fin q" "0 \<le> q" "q < 1"
    using assms(1) unfolding rng_law_def by (metis fst_conv)
  have price: "or_ExecutionPrice resp = f_add (Fin 100) (f_sub (f_mul x (Fin (1 / 2))) (Fin (1 / 4)))"
    using assms(2-4) d x
    by (auto simp: mock_PlaceOrder_def mock_delay_ms_def mock_response_def split: if_splits)
  have ex: "fl (1 / 2) = 1 / 2" "fl (- (1 / 4)) = - (1 / 4)" "fl (1 / 4) = 1 / 4"
    "fl (399 / 4) = 399 / 4" "fl (401 / 4) = 401 / 4"
    by code_simp+
  define a where "a = fl (q / 2)"
  have a: "0 \<le> a" "a \<le> 1 / 2"
    using fl_mono [of 0 "q / 2"] fl_mono [of "q / 2" "1 / 2"] q ex by (simp_all add: a_def)
  define b where "b = fl (a - 1 / 4)"
  have b: "- (1 / 4) \<le> b" "b \<le> 1 / 4"
    using fl_mono [of "- (1 / 4)" "a - 1 / 4"] fl_mono [of "a - 1 / 4" "1 / 4"] a ex by (simp_all add: b_def)
  have c: "399 / 4 \<le> fl (100 + b)" "fl (100 + b) \<le> 401 / 4"
    using fl_mono [of "399 / 4" "100 + b"] fl_mono [of "100 + b" "401 / 4"] b ex by simp_all
  have big: "to_f64 y = Fin (fl y)" if "\<bar>y\<bar> \<le> 1000" for y
    using that by (intro to_f64_small) (rule order_trans, assumption, simp)
  have "or_ExecutionPrice resp = Fin (fl (100 + b))"
    using a b q unfolding price by (simp add: f_sub_def big a_def b_def)
  then show ?thesis using c by blast
qed

end
