(* ===== verification/BotFleet.thy ===== *)
theory BotFleet
  imports Trading RingBuffer
begin

text \<open>
  internal/botfleet/botfleet.go and the Kafka producer it feeds (internal/kafka/producer.go).
  A bot is two goroutines over one gRPC stream, the sender loop and the receiver, which share
  the map of pending orders under a mutex; their interleaving is the step relation
  \<open>bot_step\<close>. gRPC, the engine behind it, the clock and the random generator are inputs: a
  step carries what they deliver.
\<close>

section \<open>Configuration\<close>

record config =
  cf_TargetAddr :: string
  cf_BotCount :: int
  cf_OrdersPerSec :: int
  cf_Duration :: int
  cf_TestRunID :: string
  cf_ContestantID :: string
  cf_Symbol :: string
  cf_KafkaBrokers :: "string list"
  cf_KafkaTopic :: string

definition run_defaults :: "config \<Rightarrow> config" where
  "run_defaults cfg =
     (let c1 = (if cf_BotCount cfg \<le> 0 then cfg\<lparr>cf_BotCount := 1\<rparr> else cfg);
          c2 = (if cf_OrdersPerSec c1 \<le> 0 then c1\<lparr>cf_OrdersPerSec := 100\<rparr> else c1);
          c3 = (if cf_Duration c2 \<le> 0 then c2\<lparr>cf_Duration := 10 * 1000000000\<rparr> else c2)
      in if cf_Symbol c3 = '''' then c3\<lparr>cf_Symbol := ''AAPL''\<rparr> else c3)"

text \<open>\<open>NewProducer\<close> validates its configuration and opens a writer; only the topic is kept here.\<close>

definition NewProducer :: "string list \<Rightarrow> string \<Rightarrow> string + string" where
  "NewProducer brokers topic =
     (if length brokers = 0 then Inl ''kafka brokers required''
      else Inr (if topic = '''' then ''metrics'' else topic))"

definition BrokersFromCSV :: "string \<Rightarrow> string list" where
  "BrokersFromCSV s =
     fold (\<lambda>p out. let p' = TrimSpace p in if p' \<noteq> '''' then out @ [p'] else out)
       (split_on (CHR '','') s) []"

text \<open>
  \<open>Run\<close> up to the start of the bots: dialling is an input (\<open>Some e\<close> when it fails); the result
  is the error it returns or the effective configuration, the producer's topic and the bot
  names. Once the bots have started \<open>Run\<close> waits for them and returns nil.
\<close>

definition bot_name :: "nat \<Rightarrow> string" where
  "bot_name i = ''bot-'' @ show_nat (i + 1)"

definition Run_start :: "string option \<Rightarrow> config \<Rightarrow> string + config \<times> string option \<times> string list" where
  "Run_start dialErr cfg0 =
     (let cfg = run_defaults cfg0 in
      case dialErr of Some e \<Rightarrow> Inl (''dial '' @ cf_TargetAddr cfg @ '': '' @ e)
      | None \<Rightarrow>
        let bots = map bot_name [0..<nat (cf_BotCount cfg)] in
        if length (cf_KafkaBrokers cfg) > 0
        then (case NewProducer (cf_KafkaBrokers cfg) (cf_KafkaTopic cfg) of
                Inl e \<Rightarrow> Inl e | Inr topic \<Rightarrow> Inr (cfg, Some topic, bots))
        else Inr (cfg, None, bots))"

text \<open>The tick of a bot; \<open>time.NewTicker\<close> panics (\<open>None\<close>) when the interval is not positive.\<close>

definition bot_interval :: "config \<Rightarrow> int option" where
  "bot_interval cfg =
     (let i = go_quot 1000000000 (cf_OrdersPerSec cfg) in if i > 0 then Some i else None)"

section \<open>Orders\<close>

definition order_id :: "string \<Rightarrow> u64 \<Rightarrow> string" where
  "order_id botID seq = botID @ CHR ''-'' # show_nat (unat seq)"

definition buildOrder ::
  "'r rng_ops \<Rightarrow> string \<Rightarrow> u64 \<Rightarrow> string \<Rightarrow> u64 \<Rightarrow> 'r \<Rightarrow> (orderRequest \<times> bool) \<times> 'r" where
  "buildOrder R botID seq symbol now r =
     (let orderID = order_id botID seq;
          (s, r1) = rg_Intn R 2 r;
          side = (if s = 0 then SELL else BUY);
          (roll, r2) = rg_Intn R 10 r1;
          (ty, price, qty, isCancel, r3) =
            (if roll < 6 then
               let (n, r') = rg_Intn R 10 r2 in (MARKET, Fin 0, of_nat (1 + n), False, r')
             else if roll < 9 then
               let (x, r') = rg_Float64 R r2; (n, r'') = rg_Intn R 10 r'
               in (LIMIT, f_add (Fin 100) (f_sub (f_mul x (Fin 4)) (Fin 2)), of_nat (1 + n), False, r'')
             else (LIMIT, Fin 100, 0, True, r2))
      in ((\<lparr>oq_OrderId = orderID, oq_ClientId = botID, oq_Symbol = symbol, oq_Side = side,
            oq_OrderType = ty, oq_Price = price, oq_Quantity = qty, oq_TimestampNs = now\<rparr>, isCancel), r3))"

text \<open>How a reply's status is judged, and the error code of a metric.\<close>

definition judge_status :: "bool \<Rightarrow> string \<Rightarrow> bool" where
  "judge_status isCancel status =
     (if isCancel then status = ''REJECTED'' else status = ''FILLED'' \<or> status = ''PARTIALLY_FILLED'')"

definition wrong_status :: "string \<Rightarrow> string" where
  "wrong_status status = ''WRONG_STATUS:'' @ status"

section \<open>A bot on a stream\<close>

record pendingEntry =
  pe_orderID :: string
  pe_sentNs :: u64
  pe_isCancel :: bool

text \<open>
  Where the sender stands: at its \<open>select\<close>, between registering an order and sending it, waiting
  for the receiver after \<open>CloseSend\<close>, or returned.
\<close>

datatype sender = Waiting | Sending orderRequest | Closing | Returned

record 'r bot =
  b_seq :: u64
  b_rng :: 'r
  b_pending :: "string \<Rightarrow> pendingEntry option"
  b_sender :: sender
  b_receiving :: bool
  b_issued :: "(orderRequest \<times> bool \<times> u64) list"
  b_metrics :: "metric list"

text \<open>
  \<open>b_issued\<close> and \<open>b_metrics\<close> are histories: the orders registered, each with its kind and its
  time stamp, and the metrics recorded.
\<close>

definition start_bot :: "'r \<Rightarrow> 'r bot" where
  "start_bot r = \<lparr>b_seq = 0, b_rng = r, b_pending = Map.empty, b_sender = Waiting, b_receiving = True,
     b_issued = [], b_metrics = []\<rparr>"

definition on_tick :: "'r rng_ops \<Rightarrow> config \<Rightarrow> string \<Rightarrow> u64 \<Rightarrow> u64 \<Rightarrow> 'r bot \<Rightarrow> 'r bot" where
  "on_tick R cfg botID now sentNs b =
     (let seq = b_seq b + 1;
          ((req, isCancel), r') = buildOrder R botID seq (cf_Symbol cfg) now (b_rng b)
      in b\<lparr>b_seq := seq, b_rng := r',
           b_pending := (b_pending b)(oq_OrderId req \<mapsto>
             \<lparr>pe_orderID = oq_OrderId req, pe_sentNs = sentNs, pe_isCancel = isCancel\<rparr>),
           b_sender := Sending req, b_issued := b_issued b @ [(req, isCancel, sentNs)]\<rparr>)"

definition on_send_err :: "orderRequest \<Rightarrow> 'r bot \<Rightarrow> 'r bot" where
  "on_send_err req b = b\<lparr>b_pending := (b_pending b)(oq_OrderId req := None), b_sender := Closing\<rparr>"

definition reply_metric :: "config \<Rightarrow> string \<Rightarrow> pendingEntry \<Rightarrow> orderResponse \<Rightarrow> u64 \<Rightarrow> metric" where
  "reply_metric cfg botID entry resp recvNs =
     (let status = or_Status resp; isCorrect = judge_status (pe_isCancel entry) status
      in \<lparr>m_TestRunID = cf_TestRunID cfg, m_ContestantID = cf_ContestantID cfg, m_ClientID = botID,
          m_OrderID = or_OrderId resp, m_SentTimeNs = pe_sentNs entry, m_RecvTimeNs = recvNs,
          m_EngineTimeNs = or_TimestampNs resp, m_IsCorrect = isCorrect,
          m_ErrorCode = (if \<not> isCorrect then wrong_status status else '''')\<rparr>)"

definition on_reply :: "config \<Rightarrow> string \<Rightarrow> orderResponse \<Rightarrow> u64 \<Rightarrow> 'r bot \<Rightarrow> 'r bot" where
  "on_reply cfg botID resp recvNs b =
     (case b_pending b (or_OrderId resp) of
        None \<Rightarrow> b
      | Some entry \<Rightarrow> b\<lparr>b_pending := (b_pending b)(or_OrderId resp := None),
          b_metrics := b_metrics b @ [reply_metric cfg botID entry resp recvNs]\<rparr>)"

inductive bot_step :: "'r rng_ops \<Rightarrow> config \<Rightarrow> string \<Rightarrow> 'r bot \<Rightarrow> 'r bot \<Rightarrow> bool"
  for R cfg botID where
  tick: "b_sender b = Waiting \<Longrightarrow> bot_step R cfg botID b (on_tick R cfg botID now sentNs b)"
| send_ok: "b_sender b = Sending req \<Longrightarrow> bot_step R cfg botID b (b\<lparr>b_sender := Waiting\<rparr>)"
| send_err: "b_sender b = Sending req \<Longrightarrow> bot_step R cfg botID b (on_send_err req b)"
| ctx_done: "b_sender b = Waiting \<Longrightarrow> bot_step R cfg botID b (b\<lparr>b_sender := Closing\<rparr>)"
| reply: "b_receiving b \<Longrightarrow> bot_step R cfg botID b (on_reply cfg botID resp recvNs b)"
| recv_end: "b_receiving b \<Longrightarrow> bot_step R cfg botID b (b\<lparr>b_receiving := False\<rparr>)"
| return: "b_sender b = Closing \<Longrightarrow> \<not> b_receiving b \<Longrightarrow> bot_step R cfg botID b (b\<lparr>b_sender := Returned\<rparr>)"

section \<open>A bot on unary calls\<close>

text \<open>
  One tick of \<open>runBotUnary\<close>: build, call (its result is an input: an error, or a reply, which
  may be nil), judge, record.
\<close>

definition unary_metric ::
  "config \<Rightarrow> string \<Rightarrow> orderRequest \<Rightarrow> bool \<Rightarrow> u64 \<Rightarrow> u64 \<Rightarrow> string option \<Rightarrow> orderResponse option \<Rightarrow> metric" where
  "unary_metric cfg botID req isCancel sentNs recvNs err resp =
     (let (isCorrect, errCode) =
        (case err of Some e \<Rightarrow> (False, e)
         | None \<Rightarrow> (case resp of None \<Rightarrow> (False, '''')
             | Some rsp \<Rightarrow>
                 let status = or_Status rsp; good = judge_status isCancel status
                 in (good, if \<not> good then wrong_status status else '''')))
      in \<lparr>m_TestRunID = cf_TestRunID cfg, m_ContestantID = cf_ContestantID cfg, m_ClientID = botID,
          m_OrderID = oq_OrderId req, m_SentTimeNs = sentNs, m_RecvTimeNs = recvNs,
          m_EngineTimeNs = (case resp of None \<Rightarrow> 0 | Some rsp \<Rightarrow> or_TimestampNs rsp),
          m_IsCorrect = isCorrect, m_ErrorCode = errCode\<rparr>)"

definition unary_tick ::
  "'r rng_ops \<Rightarrow> config \<Rightarrow> string \<Rightarrow> u64 \<Rightarrow> u64 \<Rightarrow> u64 \<Rightarrow>
   (orderRequest \<Rightarrow> string option \<times> orderResponse option) \<Rightarrow> u64 \<times> 'r \<Rightarrow> metric \<times> u64 \<times> 'r" where
  "unary_tick R cfg botID now sentNs recvNs call st =
     (let seq = fst st + 1;
          ((req, isCancel), r') = buildOrder R botID seq (cf_Symbol cfg) now (snd st);
          (err, resp) = call req
      in (unary_metric cfg botID req isCancel sentNs recvNs err resp, seq, r'))"

section \<open>How a bot ends\<close>

text \<open>
  The loops alone, to say when a bot's goroutine returns. A turn of the \<open>select\<close> takes the end of
  the context or a tick, whose order is then sent or not; a turn of the receiver gets a reply or
  an error. \<open>None\<close> is a loop that does not end. A bot whose stream does not open runs the unary
  loop, which a failed call does not end.
\<close>

datatype turn = TurnDone | TurnSent | TurnSendErr

record bot_inputs =
  bi_streamErr :: bool
  bi_turns :: "nat \<Rightarrow> turn"
  bi_recvErr :: "nat \<Rightarrow> bool"

partial_function (option) sender_loop :: "(nat \<Rightarrow> turn) \<Rightarrow> nat \<Rightarrow> nat option" where
  "sender_loop turns i =
     (case turns i of TurnDone \<Rightarrow> Some i | TurnSendErr \<Rightarrow> Some i | TurnSent \<Rightarrow> sender_loop turns (i + 1))"

partial_function (option) receiver_loop :: "(nat \<Rightarrow> bool) \<Rightarrow> nat \<Rightarrow> nat option" where
  "receiver_loop err i = (if err i then Some i else receiver_loop err (i + 1))"

partial_function (option) unary_loop :: "(nat \<Rightarrow> turn) \<Rightarrow> nat \<Rightarrow> nat option" where
  "unary_loop turns i = (case turns i of TurnDone \<Rightarrow> Some i | _ \<Rightarrow> unary_loop turns (i + 1))"

definition bot_returns :: "bot_inputs \<Rightarrow> bool" where
  "bot_returns bi =
     (if bi_streamErr bi then unary_loop (bi_turns bi) 0 \<noteq> None
      else sender_loop (bi_turns bi) 0 \<noteq> None \<and> receiver_loop (bi_recvErr bi) 0 \<noteq> None)"

section \<open>Publishing a metric\<close>

record metricRecord =
  mr_TestRunId :: string
  mr_ContestantId :: string
  mr_ClientId :: string
  mr_OrderId :: string
  mr_SentTimeNs :: u64
  mr_RecvTimeNs :: u64
  mr_EngineTimeNs :: u64
  mr_IsCorrect :: bool
  mr_ErrorCode :: string

definition metric_record :: "metric \<Rightarrow> metricRecord" where
  "metric_record m =
     \<lparr>mr_TestRunId = m_TestRunID m, mr_ContestantId = m_ContestantID m, mr_ClientId = m_ClientID m,
      mr_OrderId = m_OrderID m, mr_SentTimeNs = m_SentTimeNs m, mr_RecvTimeNs = m_RecvTimeNs m,
      mr_EngineTimeNs = m_EngineTimeNs m, mr_IsCorrect = m_IsCorrect m, mr_ErrorCode = m_ErrorCode m\<rparr>"

text \<open>
  \<open>Publish\<close> sends one message through the Kafka library's writer, which with its state is an
  argument. \<open>publishMetric\<close> encodes a metric (\<open>proto.Marshal\<close>, an argument too) under the
  contestant's id as key, and drops the error.
\<close>

record 'b kafka_message =
  km_Key :: string
  km_Value :: 'b

definition Publish ::
  "('b kafka_message list \<Rightarrow> 'k \<Rightarrow> string option \<times> 'k) \<Rightarrow> string \<Rightarrow> 'b \<Rightarrow> 'k \<Rightarrow> string option \<times> 'k" where
  "Publish write key val k = write [\<lparr>km_Key = key, km_Value = val\<rparr>] k"

definition publishMetric ::
  "('b kafka_message list \<Rightarrow> 'k \<Rightarrow> string option \<times> 'k) \<Rightarrow> (metricRecord \<Rightarrow> 'b) \<Rightarrow> config \<Rightarrow> metric \<Rightarrow> 'k \<Rightarrow> 'k" where
  "publishMetric write marshal cfg m k = snd (Publish write (cf_ContestantID cfg) (marshal (metric_record m)) k)"

section \<open>The command\<close>

text \<open>
  cmd/bot_fleet: the flags as a configuration, and the exit code, 2 for the panic of a bot's
  ticker. The ring the bots fill has the size of a flag, converted to \<open>uint64\<close> (sizes that cannot
  be allocated are not modelled).
\<close>

record fleet_flags =
  ff_target :: string
  ff_bots :: int
  ff_ops :: int
  ff_duration :: int
  ff_runID :: string
  ff_contestantID :: string
  ff_symbol :: string
  ff_ring :: int
  ff_kafka :: string
  ff_kafkaTopic :: string

definition fleet_main_config :: "fleet_flags \<Rightarrow> config" where
  "fleet_main_config f =
     \<lparr>cf_TargetAddr = ff_target f, cf_BotCount = ff_bots f, cf_OrdersPerSec = ff_ops f,
      cf_Duration = int64_wrap (ff_duration f * 1000000000), cf_TestRunID = ff_runID f,
      cf_ContestantID = ff_contestantID f, cf_Symbol = ff_symbol f,
      cf_KafkaBrokers = BrokersFromCSV (ff_kafka f), cf_KafkaTopic = ff_kafkaTopic f\<rparr>"

definition fleet_main :: "string option \<Rightarrow> fleet_flags \<Rightarrow> int \<times> metric ring" where
  "fleet_main dialErr f =
     (let rb = NewRingBuffer (word_of_int (ff_ring f)) in
      case Run_start dialErr (fleet_main_config f) of Inl e \<Rightarrow> (1, rb)
      | Inr (cfg, _, bots) \<Rightarrow> (case bot_interval cfg of None \<Rightarrow> (2, rb) | Some _ \<Rightarrow> (0, rb)))"

section \<open>When the loops end\<close>

lemma loop_ends:
  fixes f :: "nat \<Rightarrow> nat option"
  assumes "\<And>i. f i = (if P i then Some i else f (i + 1))" and "P (i + n)"
  shows "f i \<noteq> None"
  using assms(2)
proof (induction n arbitrary: i)
  case 0
  then show ?case using assms(1) [of i] by simp
next
  case (Suc n)
  then have "f (i + 1) \<noteq> None" by simp
  then show ?case using assms(1) [of i] by (simp split: if_splits)
qed

lemma sender_loop_ends: "turns n \<noteq> TurnSent \<Longrightarrow> sender_loop turns 0 \<noteq> None"
proof (rule loop_ends [where P = "\<lambda>i. turns i \<noteq> TurnSent" and n = n])
  show "sender_loop turns i = (if turns i \<noteq> TurnSent then Some i else sender_loop turns (i + 1))" for i
    using sender_loop.simps [of turns i] by (cases "turns i") simp_all
qed simp

lemma receiver_loop_ends: "err n \<Longrightarrow> receiver_loop err 0 \<noteq> None"
  by (rule loop_ends [where P = err and n = n]) (rule receiver_loop.simps, simp)

lemma unary_loop_ends: "turns n = TurnDone \<Longrightarrow> unary_loop turns 0 \<noteq> None"
proof (rule loop_ends [where P = "\<lambda>i. turns i = TurnDone" and n = n])
  show "unary_loop turns i = (if turns i = TurnDone then Some i else unary_loop turns (i + 1))" for i
    using unary_loop.simps [of turns i] by (cases "turns i") simp_all
qed simp

text \<open>
  What ends a bot: the fleet's context has a deadline, so at some turn the \<open>select\<close> takes its
  end, and on the stream of an ended context \<open>Recv\<close> fails. Only a broken stream ends it earlier.
\<close>

definition context_ends :: "bot_inputs \<Rightarrow> bool" where
  "context_ends bi \<longleftrightarrow> (\<exists>n. bi_turns bi n = TurnDone) \<and> (\<exists>n. bi_recvErr bi n)"

lemma bot_returns_at_deadline: "context_ends bi \<Longrightarrow> bot_returns bi"
proof -
  assume "context_ends bi"
  then obtain n k where n: "bi_turns bi n = TurnDone" and k: "bi_recvErr bi k" by (auto simp: context_ends_def)
  then have "bi_turns bi n \<noteq> TurnSent" by simp
  from sender_loop_ends [of "bi_turns bi", OF this] unary_loop_ends [of "bi_turns bi", OF n]
    receiver_loop_ends [of "bi_recvErr bi", OF k]
  show ?thesis by (simp add: bot_returns_def)
qed

lemma bot_interval_runs:
  assumes "cf_OrdersPerSec cfg \<le> 1000000000"
  shows "\<exists>i. bot_interval (run_defaults cfg) = Some i"
proof -
  let ?n = "cf_OrdersPerSec (run_defaults cfg)"
  have n: "1 \<le> ?n" "?n \<le> 1000000000" using assms by (auto simp: run_defaults_def Let_def)
  then have "0 < 1000000000 div ?n" using pos_imp_zdiv_pos_iff [of ?n 1000000000] by linarith
  then show ?thesis using n by (simp add: bot_interval_def go_quot_def Let_def)
qed

section \<open>Orders and their ids\<close>

lemma dash_no_digit: "CHR ''-'' \<notin> set (show_nat n)"
  by (rule show_nat_no) (simp add: digit_val_def)

lemma first_sep: "x \<notin> set s \<Longrightarrow> x \<notin> set t \<Longrightarrow> s @ x # a = t @ x # b \<Longrightarrow> s = t \<and> a = b"
proof (induction s arbitrary: t)
  case Nil
  then show ?case by (cases t) auto
next
  case (Cons c s)
  then show ?case by (cases t) auto
qed

lemma last_sep:
  assumes "x \<notin> set s" "x \<notin> set t" "a @ x # s = b @ x # t"
  shows "a = b \<and> s = t"
proof -
  have "rev s @ x # rev a = rev t @ x # rev b" using arg_cong [OF assms(3), of rev] by simp
  from first_sep [OF _ _ this] show ?thesis using assms(1,2) by simp
qed

lemma order_id_inj: "order_id a s = order_id b t \<longleftrightarrow> a = b \<and> s = t"
proof
  assume "order_id a s = order_id b t"
  then have "a @ CHR ''-'' # show_nat (unat s) = b @ CHR ''-'' # show_nat (unat t)"
    unfolding order_id_def .
  from last_sep [OF dash_no_digit dash_no_digit this] show "a = b \<and> s = t"
    by (simp add: word_unat_eq_iff)
qed simp

lemma bot_name_inj: "bot_name i = bot_name j \<longleftrightarrow> i = j"
  by (simp add: bot_name_def)

lemma buildOrder_fields:
  assumes "buildOrder R botID seq symbol now r = ((req, isCancel), r')"
  shows "oq_OrderId req = order_id botID seq" "oq_ClientId req = botID" "oq_Symbol req = symbol"
    "oq_TimestampNs req = now" "isCancel \<Longrightarrow> oq_Quantity req = 0 \<and> oq_OrderType req = LIMIT \<and> oq_Price req = Fin 100"
    "oq_OrderType req = MARKET \<Longrightarrow> oq_Price req = Fin 0"
  using assms by (auto simp: buildOrder_def Let_def split: prod.splits if_splits)

lemma of_nat_quantity: "n < 10 \<Longrightarrow> (1 + of_nat n :: u64) \<noteq> 0 \<and> 1 + of_nat n \<le> (10 :: u64)"
proof -
  assume "n < 10"
  then have "unat (of_nat (1 + n) :: u64) = 1 + n" by (intro unat_of_nat_u64) simp
  then have u: "unat (1 + of_nat n :: u64) = 1 + n" by simp
  then have "(1 + of_nat n :: u64) \<noteq> 0" by (metis Suc_eq_plus1_left Zero_not_Suc unat_0)
  then show ?thesis using u \<open>n < 10\<close> by (simp add: word_le_nat_alt)
qed

lemma limit_price:
  assumes "0 \<le> q" "q < 1"
  shows "\<exists>p. f_add (Fin 100) (f_sub (f_mul (Fin q) (Fin 4)) (Fin 2)) = Fin p \<and> 98 \<le> p \<and> p \<le> 102"
proof -
  have big: "to_f64 y = Fin (fl y)" if "\<bar>y\<bar> \<le> 1000" for y
    using that by (intro to_f64_small) (rule order_trans, assumption, simp)
  have a: "0 \<le> fl (q * 4) \<and> fl (q * 4) \<le> 4" using fl_range [of 0 "q * 4" 4] assms by simp
  have b: "- 2 \<le> fl (fl (q * 4) - 2) \<and> fl (fl (q * 4) - 2) \<le> 2"
    using fl_range [of "- 2" "fl (q * 4) - 2" 2] a by simp
  have c: "98 \<le> fl (100 + fl (fl (q * 4) - 2)) \<and> fl (100 + fl (fl (q * 4) - 2)) \<le> 102"
    using fl_range [of 98 "100 + fl (fl (q * 4) - 2)" 102] b by simp
  have "to_f64 (q * 4) = Fin (fl (q * 4))" "to_f64 (fl (q * 4) - 2) = Fin (fl (fl (q * 4) - 2))"
    "to_f64 (100 + fl (fl (q * 4) - 2)) = Fin (fl (100 + fl (fl (q * 4) - 2)))"
    using a b assms by (auto intro!: big simp: abs_le_iff)
  then show ?thesis using c by (simp add: f_sub_def)
qed

text \<open>The shapes an order can have.\<close>

definition order_shape :: "orderRequest \<Rightarrow> bool \<Rightarrow> bool" where
  "order_shape req isCancel \<longleftrightarrow>
     (if isCancel then oq_OrderType req = LIMIT \<and> oq_Price req = Fin 100 \<and> oq_Quantity req = 0
      else 1 \<le> oq_Quantity req \<and> oq_Quantity req \<le> 10 \<and>
        (oq_OrderType req = MARKET \<and> oq_Price req = Fin 0 \<or>
         oq_OrderType req = LIMIT \<and> (\<exists>p. oq_Price req = Fin p \<and> 98 \<le> p \<and> p \<le> 102)))"

lemma buildOrder_shape:
  assumes R: "rng_law R" and b: "buildOrder R botID seq symbol now r = ((req, isCancel), r')"
  shows "order_shape req isCancel"
proof -
  obtain s r1 roll r2 n r3 where d: "rg_Intn R 2 r = (s, r1)" "rg_Intn R 10 r1 = (roll, r2)"
    "rg_Intn R 10 r2 = (n, r3)" by (metis surj_pair)
  obtain x r4 m r5 where e: "rg_Float64 R r2 = (x, r4)" "rg_Intn R 10 r4 = (m, r5)" by (metis surj_pair)
  obtain q where q: "x = Fin q" "0 \<le> q" "q < 1" using R e(1) unfolding rng_law_def by (metis fst_conv)
  have lt: "n < 10" "m < 10" using R d(3) e(2) unfolding rng_law_def by (metis fst_conv zero_less_numeral)+
  have one: "w \<noteq> 0 \<Longrightarrow> 1 \<le> w" for w :: u64 by (simp add: word_le_nat_alt unat_gt_0 Suc_le_eq)
  show ?thesis
    using b limit_price [OF q(2,3)] of_nat_quantity [OF lt(1)] of_nat_quantity [OF lt(2)] q(1)
    by (auto simp: buildOrder_def Let_def d e order_shape_def one split: if_splits)
qed

section \<open>The stream bot's bookkeeping\<close>

definition issued_id :: "orderRequest \<times> bool \<times> u64 \<Rightarrow> string" where
  "issued_id x = oq_OrderId (fst x)"

text \<open>An entry of the pending map is that of the issued order with its key.\<close>

definition pending_ok :: "'r bot \<Rightarrow> bool" where
  "pending_ok b \<longleftrightarrow> (\<forall>k e. b_pending b k = Some e \<longrightarrow>
     (\<exists>req. (req, pe_isCancel e, pe_sentNs e) \<in> set (b_issued b) \<and> oq_OrderId req = k))"

text \<open>A metric is the judgement of one reply to one issued order, which is then no longer pending.\<close>

definition metric_of_order :: "config \<Rightarrow> string \<Rightarrow> metric \<Rightarrow> orderRequest \<times> bool \<times> u64 \<Rightarrow> bool" where
  "metric_of_order cfg botID m x \<longleftrightarrow>
     (case x of (req, isCancel, sentNs) \<Rightarrow> \<exists>resp recvNs. or_OrderId resp = oq_OrderId req \<and>
        m = reply_metric cfg botID \<lparr>pe_orderID = oq_OrderId req, pe_sentNs = sentNs, pe_isCancel = isCancel\<rparr> resp recvNs)"

definition metrics_ok :: "config \<Rightarrow> string \<Rightarrow> 'r bot \<Rightarrow> bool" where
  "metrics_ok cfg botID b \<longleftrightarrow>
     (\<forall>m \<in> set (b_metrics b). b_pending b (m_OrderID m) = None \<and>
        (\<exists>x \<in> set (b_issued b). metric_of_order cfg botID m x)) \<and>
     distinct (map m_OrderID (b_metrics b))"

definition issued_ok :: "string \<Rightarrow> 'r bot \<Rightarrow> bool" where
  "issued_ok botID b \<longleftrightarrow> b_seq b = of_nat (length (b_issued b)) \<and>
     map issued_id (b_issued b) = map (\<lambda>k. order_id botID (of_nat (k + 1))) [0..<length (b_issued b)]"

definition bot_ok :: "config \<Rightarrow> string \<Rightarrow> 'r bot \<Rightarrow> bool" where
  "bot_ok cfg botID b \<longleftrightarrow> issued_ok botID b \<and> pending_ok b \<and> metrics_ok cfg botID b"

lemma bot_ok_start [keeps]: "bot_ok cfg botID (start_bot r)"
  by (simp add: bot_ok_def issued_ok_def pending_ok_def metrics_ok_def start_bot_def)

lemma metric_id: "metric_of_order cfg botID m x \<Longrightarrow> m_OrderID m = issued_id x"
  by (auto simp: metric_of_order_def reply_metric_def issued_id_def Let_def)

lemma fresh_seq: "n + 1 < 2 ^ 64 \<Longrightarrow> k < n \<Longrightarrow> (of_nat (k + 1) :: u64) \<noteq> of_nat (n + 1)"
  by (metis add_right_cancel less_trans nat_neq_iff unat_of_nat_u64 add_less_cancel_right)

lemma on_tick_ok [keeps]:
  assumes ok: "bot_ok cfg botID b" and n: "length (b_issued b) + 1 < 2 ^ 64"
  shows "bot_ok cfg botID (on_tick R cfg botID now sentNs b)"
proof -
  let ?n = "length (b_issued b)"
  have seq: "b_seq b + 1 = of_nat (?n + 1)" using ok by (simp add: bot_ok_def issued_ok_def)
  obtain req c r' where bo: "buildOrder R botID (b_seq b + 1) (cf_Symbol cfg) now (b_rng b) = ((req, c), r')"
    by (metis surj_pair)
  note id = buildOrder_fields(1) [OF bo]
  define b' where "b' = on_tick R cfg botID now sentNs b"
  have b': "b_seq b' = b_seq b + 1" "b_issued b' = b_issued b @ [(req, c, sentNs)]" "b_metrics b' = b_metrics b"
    "b_pending b' = (b_pending b)(oq_OrderId req \<mapsto> \<lparr>pe_orderID = oq_OrderId req, pe_sentNs = sentNs, pe_isCancel = c\<rparr>)"
    by (simp_all add: b'_def on_tick_def Let_def bo)
  have ids: "map issued_id (b_issued b) = map (\<lambda>k. order_id botID (of_nat (k + 1))) [0..<?n]"
    using ok by (simp add: bot_ok_def issued_ok_def)
  have new: "oq_OrderId req \<noteq> issued_id x" if "x \<in> set (b_issued b)" for x
  proof -
    have "issued_id x \<in> set (map issued_id (b_issued b))" using that by simp
    then obtain k where k: "k < ?n" "issued_id x = order_id botID (of_nat (k + 1))"
      unfolding ids by auto
    then show ?thesis using fresh_seq [OF n k(1)] unfolding id seq by (metis order_id_inj)
  qed
  have "issued_ok botID b'"
    using ids seq id by (simp add: issued_ok_def b' issued_id_def add.commute)
  moreover have "pending_ok b'"
    using ok by (auto simp: bot_ok_def pending_ok_def b')
  moreover have "metrics_ok cfg botID b'"
    using ok new metric_id by (fastforce simp: bot_ok_def metrics_ok_def b')
  ultimately show ?thesis unfolding bot_ok_def b'_def by blast
qed

lemma on_reply_ok [keeps]:
  assumes ok: "bot_ok cfg botID b"
  shows "bot_ok cfg botID (on_reply cfg botID resp recvNs b)"
proof (cases "b_pending b (or_OrderId resp)")
  case (Some e)
  define m where "m = reply_metric cfg botID e resp recvNs"
  define b' where "b' = on_reply cfg botID resp recvNs b"
  have b': "b_seq b' = b_seq b" "b_issued b' = b_issued b" "b_metrics b' = b_metrics b @ [m]"
    "b_pending b' = (b_pending b)(or_OrderId resp := None)"
    by (simp_all add: b'_def on_reply_def Some m_def)
  obtain req where req: "(req, pe_isCancel e, pe_sentNs e) \<in> set (b_issued b)" "oq_OrderId req = or_OrderId resp"
    using ok Some unfolding bot_ok_def pending_ok_def by blast
  have m1: "metric_of_order cfg botID m (req, pe_isCancel e, pe_sentNs e)"
    unfolding metric_of_order_def prod.case m_def
    by (intro exI [of _ resp] exI [of _ recvNs]) (simp add: req(2) reply_metric_def)
  have id: "m_OrderID m = or_OrderId resp" by (simp add: m_def reply_metric_def Let_def)
  have old: "distinct (map m_OrderID (b_metrics b))"
    "\<And>m'. m' \<in> set (b_metrics b) \<Longrightarrow> b_pending b (m_OrderID m') = None"
    "\<And>m'. m' \<in> set (b_metrics b) \<Longrightarrow> \<exists>x \<in> set (b_issued b). metric_of_order cfg botID m' x"
    using ok unfolding bot_ok_def metrics_ok_def by blast+
  have m2: "m_OrderID m \<notin> m_OrderID ` set (b_metrics b)"
  proof
    assume "m_OrderID m \<in> m_OrderID ` set (b_metrics b)"
    then obtain m' where "m' \<in> set (b_metrics b)" "m_OrderID m' = or_OrderId resp" using id by auto
    then show False using old(2) Some by fastforce
  qed
  have "b_pending b' (m_OrderID m') = None \<and> (\<exists>x \<in> set (b_issued b'). metric_of_order cfg botID m' x)"
    if "m' \<in> set (b_metrics b')" for m'
  proof (cases "m' = m")
    case True
    then show ?thesis unfolding b' using id m1 req(1) by (intro conjI bexI) simp_all
  next
    case False
    then have "m' \<in> set (b_metrics b)" using that by (simp add: b')
    then show ?thesis unfolding b' using old(2,3) by simp
  qed
  moreover have "distinct (map m_OrderID (b_metrics b'))" using m2 old(1) by (simp add: b')
  ultimately have "metrics_ok cfg botID b'" unfolding metrics_ok_def by blast
  moreover have "issued_ok botID b'" using ok by (simp add: bot_ok_def issued_ok_def b')
  moreover have "pending_ok b'" using ok unfolding bot_ok_def pending_ok_def b' by (simp split: if_splits)
  ultimately show ?thesis unfolding bot_ok_def b'_def by blast
qed (use ok in \<open>simp add: on_reply_def\<close>)

lemma sender_only [keeps]:
  "bot_ok cfg botID b \<Longrightarrow> bot_ok cfg botID (b\<lparr>b_sender := s\<rparr>)"
  "bot_ok cfg botID b \<Longrightarrow> bot_ok cfg botID (b\<lparr>b_receiving := rec\<rparr>)"
  "bot_ok cfg botID b \<Longrightarrow> bot_ok cfg botID (on_send_err req b)"
  by (auto simp: bot_ok_def issued_ok_def pending_ok_def metrics_ok_def on_send_err_def split: if_splits)

lemma issued_mono: "bot_step R cfg botID b b' \<Longrightarrow> length (b_issued b) \<le> length (b_issued b')"
  by (induction rule: bot_step.induct)
    (auto simp: on_tick_def on_send_err_def on_reply_def Let_def split: prod.splits option.splits)

lemma bot_step_ok [keeps]:
  "bot_step R cfg botID b b' \<Longrightarrow> bot_ok cfg botID b \<Longrightarrow> length (b_issued b') < 2 ^ 64 \<Longrightarrow> bot_ok cfg botID b'"
proof (induction rule: bot_step.induct)
  case (tick b now sentNs)
  have "length (b_issued b) + 1 = length (b_issued (on_tick R cfg botID now sentNs b))"
    by (simp add: on_tick_def Let_def split: prod.split)
  then show ?case using tick by (intro on_tick_ok) simp_all
qed (simp_all add: keeps)

lemma bot_run_ok:
  "(bot_step R cfg botID)\<^sup>*\<^sup>* (start_bot r) b \<Longrightarrow> length (b_issued b) < 2 ^ 64 \<Longrightarrow> bot_ok cfg botID b"
proof (induction rule: rtranclp_induct)
  case (step b b')
  then show ?case using issued_mono [OF step(2)] bot_step_ok [OF step(2)] by simp
qed (rule bot_ok_start)

lemma issued_distinct:
  assumes "issued_ok botID b" "length (b_issued b) < 2 ^ 64"
  shows "distinct (map issued_id (b_issued b))"
proof -
  have "inj_on (\<lambda>k. order_id botID (of_nat (k + 1))) {0..<length (b_issued b)}"
  proof (rule inj_onI)
    fix i j assume "i \<in> {0..<length (b_issued b)}" "j \<in> {0..<length (b_issued b)}"
      "order_id botID (of_nat (i + 1)) = order_id botID (of_nat (j + 1))"
    then show "i = j" using fresh_seq [of i j] fresh_seq [of j i] assms(2) unfolding order_id_inj
      by (metis atLeastLessThan_iff nat_neq_iff less_eq_Suc_le Suc_eq_plus1 order.strict_trans1)
  qed
  then show ?thesis using assms(1) by (simp add: issued_ok_def distinct_map)
qed

section \<open>Configuration lemmas\<close>

lemma run_defaults_valid:
  "1 \<le> cf_BotCount (run_defaults cfg)" "1 \<le> cf_OrdersPerSec (run_defaults cfg)"
  "0 < cf_Duration (run_defaults cfg)" "cf_Symbol (run_defaults cfg) \<noteq> ''''"
  "cf_KafkaBrokers (run_defaults cfg) = cf_KafkaBrokers cfg" "cf_TargetAddr (run_defaults cfg) = cf_TargetAddr cfg"
  by (auto simp: run_defaults_def Let_def)

text \<open>Splitting a comma separated list, as \<open>BrokersFromCSV\<close> and its copies in the commands do.\<close>

lemma BrokersFromCSV_eq:
  "BrokersFromCSV s = filter (\<lambda>p. p \<noteq> '''') (map TrimSpace (split_on (CHR '','') s))"
proof -
  have "fold (\<lambda>p out. let p' = TrimSpace p in if p' \<noteq> '''' then out @ [p'] else out) ps acc
      = acc @ filter (\<lambda>p. p \<noteq> '''') (map TrimSpace ps)" for ps acc
    by (induction ps arbitrary: acc) (simp_all add: Let_def)
  then show ?thesis by (simp add: BrokersFromCSV_def)
qed

lemma split_join:
  "ps \<noteq> [] \<Longrightarrow> \<forall>p \<in> set ps. sep \<notin> set p \<Longrightarrow> split_on sep (join_with sep ps) = ps"
proof (induction ps rule: join_with.induct)
  case (3 sep p q ps)
  then show ?case by (simp add: split_on_append)
qed (simp_all add: split_on_none)

section \<open>Properties\<close>

text \<open>
  C11: whatever the engine replies and however the two goroutines of a bot interleave, the bot's
  book-keeping is exact (up to \<open>2 ^ 64 - 1\<close> orders): the orders have pairwise different ids, no
  order is judged twice, every recorded metric is the judgement of one reply to one issued
  order, with the time stamp and the kind of that order, and a judged order is not pending.
\<close>

theorem bot_judges_each_order_once:
  assumes "(bot_step R cfg botID)\<^sup>*\<^sup>* (start_bot r) b" "length (b_issued b) < 2 ^ 64"
  shows "distinct (map issued_id (b_issued b)) \<and> distinct (map m_OrderID (b_metrics b)) \<and>
    length (b_metrics b) \<le> length (b_issued b) \<and>
    (\<forall>m \<in> set (b_metrics b). b_pending b (m_OrderID m) = None \<and>
       (\<exists>x \<in> set (b_issued b). metric_of_order cfg botID m x))"
proof -
  have ok: "issued_ok botID b" "metrics_ok cfg botID b" using bot_run_ok [OF assms] by (simp_all add: bot_ok_def)
  have d: "distinct (map issued_id (b_issued b))" by (rule issued_distinct [OF ok(1) assms(2)])
  have "m_OrderID ` set (b_metrics b) \<subseteq> issued_id ` set (b_issued b)"
    using ok(2) metric_id by (fastforce simp: metrics_ok_def)
  then have "card (set (map m_OrderID (b_metrics b))) \<le> card (set (map issued_id (b_issued b)))"
    by (intro card_mono) simp_all
  with d have "length (map m_OrderID (b_metrics b)) \<le> length (map issued_id (b_issued b))"
    using ok(2) distinct_card [of "map m_OrderID (b_metrics b)"] distinct_card [of "map issued_id (b_issued b)"]
    by (simp add: metrics_ok_def)
  then show ?thesis using ok(2) d by (simp add: metrics_ok_def)
qed

text \<open>A generator that always draws 0, and a configuration, for the witnesses.\<close>

definition zero_rng :: "unit rng_ops" where
  "zero_rng = \<lparr>rg_Intn = (\<lambda>n r. (0, ())), rg_Float64 = (\<lambda>r. (Fin 0, ()))\<rparr>"

lemma zero_rng_law: "rng_law zero_rng"
  by (simp add: rng_law_def zero_rng_def)

definition demo_config :: config where
  "demo_config = \<lparr>cf_TargetAddr = ''h'', cf_BotCount = 0, cf_OrdersPerSec = 0, cf_Duration = 0, cf_TestRunID = ''t'',
     cf_ContestantID = ''c'', cf_Symbol = ''S'', cf_KafkaBrokers = [''k''], cf_KafkaTopic = ''''\<rparr>"

definition demo_reply :: orderResponse where
  "demo_reply = \<lparr>or_OrderId = ''b-1'', or_ClientId = ''b'', or_Symbol = ''S'', or_Status = ''FILLED'',
     or_ExecutionPrice = Fin 100, or_FilledQuantity = 1, or_TimestampNs = 5\<rparr>"

definition demo_bot :: "unit bot" where
  "demo_bot = on_reply demo_config ''b'' demo_reply 9 (on_tick zero_rng demo_config ''b'' 1 2 (start_bot ()))"

lemma show_one: "show_nat 1 = ''1''"
  by code_simp

lemmas demo_defs = demo_bot_def demo_reply_def demo_config_def on_tick_def buildOrder_def zero_rng_def
  start_bot_def order_id_def on_reply_def

lemma bot_judges_each_order_once_witness:
  "length (b_metrics demo_bot) = 1 \<and> length (b_metrics demo_bot) \<le> length (b_issued demo_bot)"
proof -
  have "bot_step zero_rng demo_config ''b'' (start_bot ()) (on_tick zero_rng demo_config ''b'' 1 2 (start_bot ()))"
    by (rule bot_step.tick) (simp add: start_bot_def)
  moreover have "bot_step zero_rng demo_config ''b'' (on_tick zero_rng demo_config ''b'' 1 2 (start_bot ())) demo_bot"
    unfolding demo_bot_def by (rule bot_step.reply) (simp add: demo_defs)
  ultimately have "(bot_step zero_rng demo_config ''b'')\<^sup>*\<^sup>* (start_bot ()) demo_bot" by simp
  moreover have "length (b_issued demo_bot) = 1" "length (b_metrics demo_bot) = 1"
    by (simp_all add: demo_defs show_one [simplified])
  ultimately show ?thesis using bot_judges_each_order_once [of zero_rng demo_config "''b''" "()" demo_bot] by simp
qed

text \<open>
  C37: every order a bot builds has one of three shapes: a market order without a price, a limit
  order at 98 to 102, both of 1 to 10 units, or a cancel probe (limit, price 100, quantity 0).
  It carries the bot's name and symbol, and its id belongs to this bot and this sequence
  number only.
\<close>

theorem orders_are_well_formed:
  assumes "rng_law R" "buildOrder R botID seq symbol now r = ((req, isCancel), r')"
  shows "order_shape req isCancel \<and> oq_ClientId req = botID \<and> oq_Symbol req = symbol \<and> oq_TimestampNs req = now \<and>
    (\<forall>botID' seq'. oq_OrderId req = order_id botID' seq' \<longleftrightarrow> botID' = botID \<and> seq' = seq)"
  unfolding buildOrder_fields(1-4) [OF assms(2)] order_id_inj
  using buildOrder_shape [OF assms] by blast

lemma orders_are_well_formed_witness:
  "\<exists>req c r'. buildOrder zero_rng ''b'' 1 ''S'' 7 () = ((req, c), r') \<and> order_shape req c"
proof -
  obtain req c r' where b: "buildOrder zero_rng ''b'' 1 ''S'' 7 () = ((req, c), r')" by (metis surj_pair)
  have "order_shape req c" using orders_are_well_formed [OF zero_rng_law b] by (elim conjE)
  with b show ?thesis by (intro exI conjI)
qed

text \<open>
  The reference matcher is judged correct. Its reply to any order a bot builds for a
  non-empty symbol comes back under the order's id, and with the status that bot expects:
  a cancel probe is rejected, anything else is filled completely.
\<close>

theorem mock_matcher_is_judged_correct:
  assumes "rng_law R" "botID \<noteq> ''''" "symbol \<noteq> ''''"
    and "buildOrder R botID seq symbol now r = ((req, isCancel), r')"
  shows "\<exists>resp s'. mock_PlaceOrder R' None req now' s = (Inr resp, s') \<and> or_OrderId resp = oq_OrderId req \<and>
    judge_status isCancel (or_Status resp) \<and> or_FilledQuantity resp = oq_Quantity req"
proof -
  obtain resp s' where m: "mock_PlaceOrder R' None req now' s = (Inr resp, s')"
    using mock_PlaceOrder_total [of R' req now' s] by (elim exE)
  note b = buildOrder_fields [OF assms(4)]
  have q: "oq_Quantity req = 0 \<longleftrightarrow> isCancel" using buildOrder_shape [OF assms(1,4)]
    by (auto simp: order_shape_def split: if_splits)
  have "oq_OrderId req \<noteq> ''''" by (simp add: b(1) order_id_def)
  then show ?thesis
    using m mock_PlaceOrder_reply [OF m] b assms(2,3) q by (auto simp: judge_status_def)
qed

lemma mock_matcher_is_judged_correct_witness:
  "\<exists>req c r' resp s'. buildOrder zero_rng ''b'' 1 ''S'' 7 () = ((req, c), r') \<and>
     mock_PlaceOrder zero_rng None req 8 () = (Inr resp, s') \<and> judge_status c (or_Status resp)"
proof -
  obtain req c r' where b: "buildOrder zero_rng ''b'' 1 ''S'' 7 () = ((req, c), r')" by (metis surj_pair)
  with mock_matcher_is_judged_correct [OF zero_rng_law _ _ b, of zero_rng 8 "()"] show ?thesis by auto
qed

text \<open>
  On the unary path every tick records exactly the metric of its order: an error of the call
  or a missing reply counts as incorrect, a reply is judged as on the stream, and a metric is
  marked correct only with an empty error code.
\<close>

theorem unary_tick_always_judges:
  "\<exists>req isCancel r'. buildOrder R botID (fst st + 1) (cf_Symbol cfg) now (snd st) = ((req, isCancel), r') \<and>
    (case unary_tick R cfg botID now sentNs recvNs call st of (m, seq, r'') \<Rightarrow>
       seq = fst st + 1 \<and> r'' = r' \<and> m_OrderID m = order_id botID seq \<and>
       m_SentTimeNs m = sentNs \<and> m_RecvTimeNs m = recvNs \<and> (m_IsCorrect m \<longrightarrow> m_ErrorCode m = '''') \<and>
       m_IsCorrect m = (case call req of (None, Some resp) \<Rightarrow> judge_status isCancel (or_Status resp) | _ \<Rightarrow> False))"
proof -
  obtain req c r' where b: "buildOrder R botID (fst st + 1) (cf_Symbol cfg) now (snd st) = ((req, c), r')"
    by (metis surj_pair)
  then show ?thesis
    using buildOrder_fields(1) [OF b]
    by (auto simp: unary_tick_def unary_metric_def Let_def split: prod.split option.split)
qed

lemma unary_tick_always_judges_witness:
  "\<exists>req c r'. buildOrder zero_rng ''b'' 1 ''S'' 7 () = ((req, c), r') \<and>
     (case unary_tick zero_rng demo_config ''b'' 7 8 9 (\<lambda>req. (Some ''refused'', None)) (0, ()) of (m, seq, r'') \<Rightarrow>
       seq = 1 \<and> m_OrderID m = order_id ''b'' seq \<and> \<not> m_IsCorrect m)"
  using unary_tick_always_judges [of zero_rng "''b''" "(0, ())" demo_config 7 8 9 "\<lambda>req. (Some ''refused'', None)"]
  by (auto simp: demo_config_def split: prod.splits)

lemma silent_prefix:
  "\<exists>b. (bot_step zero_rng demo_config ''b'')\<^sup>*\<^sup>* (start_bot ()) b \<and> b_sender b = Waiting \<and> b_receiving b \<and>
     length (b_issued b) = Suc n \<and> length (b_metrics b) = 1 \<and> (\<forall>m \<in> set (b_metrics b). m_IsCorrect m)"
proof (induction n)
  case 0
  let ?t = "on_tick zero_rng demo_config ''b'' 1 2 (start_bot ())"
  let ?w = "demo_bot\<lparr>b_sender := Waiting\<rparr>"
  have "bot_step zero_rng demo_config ''b'' (start_bot ()) ?t" by (rule bot_step.tick) (simp add: start_bot_def)
  moreover have "bot_step zero_rng demo_config ''b'' ?t demo_bot"
    unfolding demo_bot_def by (rule bot_step.reply) (simp add: demo_defs)
  moreover have "bot_step zero_rng demo_config ''b'' demo_bot ?w"
    by (rule bot_step.send_ok) (simp add: demo_defs show_one [simplified])
  ultimately have "(bot_step zero_rng demo_config ''b'')\<^sup>*\<^sup>* (start_bot ()) ?w" by simp
  moreover have "b_receiving ?w" "length (b_issued ?w) = 1" "length (b_metrics ?w) = 1" "\<forall>m \<in> set (b_metrics ?w). m_IsCorrect m"
    by (simp_all add: demo_defs show_one [simplified] reply_metric_def judge_status_def Let_def)
  ultimately show ?case by (intro exI [of _ ?w]) simp
next
  case (Suc n)
  then obtain b :: "unit bot" where b: "(bot_step zero_rng demo_config ''b'')\<^sup>*\<^sup>* (start_bot ()) b" "b_sender b = Waiting" "b_receiving b"
    "length (b_issued b) = Suc n" "length (b_metrics b) = 1" "\<forall>m \<in> set (b_metrics b). m_IsCorrect m" by blast
  let ?t = "on_tick zero_rng demo_config ''b'' 1 2 b"
  have t: "length (b_issued ?t) = Suc (Suc n)" "b_metrics ?t = b_metrics b" "b_receiving ?t = b_receiving b" "\<exists>req. b_sender ?t = Sending req"
    using b(4) by (simp_all add: on_tick_def Let_def split: prod.split)
  have "bot_step zero_rng demo_config ''b'' b ?t" by (rule bot_step.tick) (rule b(2))
  moreover have "bot_step zero_rng demo_config ''b'' ?t (?t\<lparr>b_sender := Waiting\<rparr>)"
    using t(4) by (auto intro: bot_step.send_ok)
  ultimately have "(bot_step zero_rng demo_config ''b'')\<^sup>*\<^sup>* (start_bot ()) (?t\<lparr>b_sender := Waiting\<rparr>)"
    using b(1) by (meson rtranclp.rtrancl_into_rtrancl)
  then show ?case using b t by (intro exI [of _ "?t\<lparr>b_sender := Waiting\<rparr>"]) simp
qed

text \<open>
  An order the engine never answers is not held against it. For every number of orders
  there is a run of a bot in which all but the first stay unanswered until the bot returns; its
  only metric is marked correct, so the share of correct metrics is 1.
\<close>

theorem silence_is_not_judged:
  "\<exists>b. (bot_step zero_rng demo_config ''b'')\<^sup>*\<^sup>* (start_bot ()) b \<and> b_sender b = Returned \<and>
     length (b_issued b) = Suc n \<and> length (b_metrics b) = 1 \<and> (\<forall>m \<in> set (b_metrics b). m_IsCorrect m)"
proof -
  obtain b :: "unit bot" where b: "(bot_step zero_rng demo_config ''b'')\<^sup>*\<^sup>* (start_bot ()) b" "b_sender b = Waiting" "b_receiving b"
    "length (b_issued b) = Suc n" "length (b_metrics b) = 1" "\<forall>m \<in> set (b_metrics b). m_IsCorrect m"
    using silent_prefix [of n] by blast
  let ?c = "b\<lparr>b_sender := Closing\<rparr>" and ?d = "b\<lparr>b_sender := Closing, b_receiving := False\<rparr>"
  have "bot_step zero_rng demo_config ''b'' b ?c" by (rule bot_step.ctx_done) (rule b)
  moreover have "bot_step zero_rng demo_config ''b'' ?c ?d"
    using bot_step.recv_end [of ?c zero_rng demo_config "''b''"] b(3) by simp
  moreover have "bot_step zero_rng demo_config ''b'' ?d (?d\<lparr>b_sender := Returned\<rparr>)"
    by (rule bot_step.return) simp_all
  ultimately have "(bot_step zero_rng demo_config ''b'')\<^sup>*\<^sup>* (start_bot ()) (?d\<lparr>b_sender := Returned\<rparr>)"
    using b(1) by (meson rtranclp.rtrancl_into_rtrancl)
  then show ?thesis using b(4-6) by (intro exI [of _ "?d\<lparr>b_sender := Returned\<rparr>"]) simp
qed

lemma silence_is_not_judged_witness:
  "\<exists>b. b_sender (b :: unit bot) = Returned \<and> length (b_issued b) = 6 \<and> length (b_metrics b) = 1"
  using silence_is_not_judged [of 5] by auto

text \<open>
  \<open>Run\<close> fails only by failing to dial. With the defaults applied there is at least one bot,
  a positive rate, duration and a symbol; the bots have different names; a Kafka producer exists
  exactly when brokers are configured, never without a topic; and a bot's ticker panics
  exactly for rates above one order per nanosecond.
\<close>

theorem Run_starts_every_bot:
  "Run_start None cfg = Inr (run_defaults cfg,
     if cf_KafkaBrokers cfg = [] then None else Some (if cf_KafkaTopic cfg = '''' then ''metrics'' else cf_KafkaTopic cfg),
     map bot_name [0..<nat (cf_BotCount (run_defaults cfg))]) \<and>
   distinct (map bot_name [0..<nat (cf_BotCount (run_defaults cfg))]) \<and>
   0 < nat (cf_BotCount (run_defaults cfg)) \<and> 0 < cf_Duration (run_defaults cfg) \<and>
   cf_Symbol (run_defaults cfg) \<noteq> '''' \<and>
   (bot_interval (run_defaults cfg) = None \<longleftrightarrow> 1000000000 < cf_OrdersPerSec (run_defaults cfg)) \<and>
   Run_start (Some e) cfg = Inl (''dial '' @ cf_TargetAddr cfg @ '': '' @ e)"
proof -
  have t: "cf_KafkaTopic (run_defaults cfg) = cf_KafkaTopic cfg" by (simp add: run_defaults_def Let_def)
  note v = run_defaults_valid [of cfg]
  have "inj_on bot_name A" for A by (rule inj_onI) (simp add: bot_name_inj)
  then have "distinct (map bot_name [0..<nat (cf_BotCount (run_defaults cfg))])" by (simp add: distinct_map)
  moreover have "go_quot 1000000000 o' \<le> 0 \<longleftrightarrow> 1000000000 < o'" if "1 \<le> o'" for o'
    using that pos_imp_zdiv_pos_iff [of o' 1000000000] by (simp add: go_quot_def) linarith
  from this [OF v(2)] have "bot_interval (run_defaults cfg) = None \<longleftrightarrow> 1000000000 < cf_OrdersPerSec (run_defaults cfg)"
    by (auto simp: bot_interval_def Let_def not_less [symmetric])
  ultimately show ?thesis
    using v t by (auto simp: Run_start_def NewProducer_def Let_def)
qed

text \<open>
  A broker list survives its comma separated form: entries that are non-empty and hold no
  comma and no white space come back exactly, and whatever the input, no entry of the result is
  empty.
\<close>

theorem brokers_roundtrip:
  "(bs \<noteq> [] \<and> (\<forall>b \<in> set bs. b \<noteq> '''' \<and> CHR '','' \<notin> set b \<and> (\<forall>c \<in> set b. \<not> is_space c)) \<longrightarrow>
      BrokersFromCSV (join_with (CHR '','') bs) = bs) \<and>
   '''' \<notin> set (BrokersFromCSV s)"
proof -
  have "BrokersFromCSV (join_with (CHR '','') bs) = bs"
    if h: "bs \<noteq> []" "\<forall>b \<in> set bs. b \<noteq> '''' \<and> CHR '','' \<notin> set b \<and> (\<forall>c \<in> set b. \<not> is_space c)"
  proof -
    have "map TrimSpace bs = bs" using h(2) by (intro map_idI TrimSpace_id) auto
    moreover have "filter (\<lambda>p. p \<noteq> '''') bs = bs" using h(2) by (intro filter_True) auto
    moreover have "split_on (CHR '','') (join_with (CHR '','') bs) = bs" using h by (intro split_join) auto
    ultimately show ?thesis by (simp add: BrokersFromCSV_eq)
  qed
  then show ?thesis by (auto simp: BrokersFromCSV_eq)
qed

lemma brokers_roundtrip_witness:
  "BrokersFromCSV (join_with (CHR '','') [''a:1'', ''b:2'']) = [''a:1'', ''b:2'']"
  using brokers_roundtrip [of "[''a:1'', ''b:2'']"] by (simp add: is_space_def)

end
