(* ===== verification/Timescale.thy ===== *)
theory Timescale
  imports Aggregator BotFleet
begin

text \<open>
  internal/store/timescale.go: the rows written for a batch of metric records, how the errors of
  single rows are reported, and the two queries. The database is an argument: \<open>db\<close> takes the
  queued rows and returns one result per row, the queries return rows already computed by SQL.
\<close>

section \<open>InsertBatch\<close>

text \<open>One \<open>INSERT INTO metric_records\<close>, its parameters in order.\<close>

record metric_row =
  row_time :: int
  row_test_run_id :: string
  row_contestant_id :: string
  row_client_id :: string
  row_order_id :: string
  row_sent_time_ns :: int
  row_recv_time_ns :: int
  row_engine_time_ns :: int
  row_is_correct :: bool
  row_error_code :: string
  row_latency_ns :: int

definition metric_row :: "int \<Rightarrow> metricRecord \<Rightarrow> metric_row" where
  "metric_row now r =
     (let latNs = (if mr_RecvTimeNs r \<ge> mr_SentTimeNs r then int64_of (mr_RecvTimeNs r - mr_SentTimeNs r) else 0)
      in \<lparr>row_time = now, row_test_run_id = mr_TestRunId r, row_contestant_id = mr_ContestantId r,
          row_client_id = mr_ClientId r, row_order_id = mr_OrderId r, row_sent_time_ns = int64_of (mr_SentTimeNs r),
          row_recv_time_ns = int64_of (mr_RecvTimeNs r), row_engine_time_ns = int64_of (mr_EngineTimeNs r),
          row_is_correct = mr_IsCorrect r, row_error_code = mr_ErrorCode r, row_latency_ns = latNs\<rparr>)"

definition row_error :: "nat \<Rightarrow> metricRecord \<Rightarrow> string \<Rightarrow> string" where
  "row_error i r e = ''record['' @ show_nat i @ ''] (run='' @ mr_TestRunId r @ '' order='' @ mr_OrderId r @ ''): '' @ e"

text \<open>The loop that drains the results; it goes on after an error.\<close>

fun drain_results :: "nat \<Rightarrow> metricRecord list \<Rightarrow> string option list \<Rightarrow> string list" where
  "drain_results i (r # rs) (None # xs) = drain_results (i + 1) rs xs"
| "drain_results i (r # rs) (Some e # xs) = row_error i r e # drain_results (i + 1) rs xs"
| "drain_results i _ _ = []"

text \<open>\<open>errors.Join\<close>: nil without errors, else their texts on lines of their own.\<close>

definition errors_Join :: "string list \<Rightarrow> string option" where
  "errors_Join es = (if es = [] then None else Some (join_with (char_of (10 :: nat)) es))"

definition InsertBatch ::
  "(metric_row list \<Rightarrow> 't \<Rightarrow> string option list \<times> 't) \<Rightarrow> int \<Rightarrow> metricRecord list \<Rightarrow> 't \<Rightarrow> string option \<times> 't" where
  "InsertBatch db now recs t =
     (if length recs = 0 then (None, t)
      else case db (map (metric_row now) recs) t of (results, t') \<Rightarrow> (errors_Join (drain_results 0 recs results), t'))"

section \<open>Queries\<close>

record contestantStats =
  ts_ContestantID :: string
  ts_WindowStart :: int
  ts_Count :: int
  ts_CorrectCount :: int
  ts_CorrectRatio :: f64
  ts_P50Us :: f64
  ts_P90Us :: f64
  ts_P99Us :: f64
  ts_AvgUs :: f64
  ts_MinUs :: f64
  ts_MaxUs :: f64

text \<open>
  Iterating over a result set: each row scans or fails; the error of the iteration itself comes
  at the end. The contestant of each row is set by the program.
\<close>

fun scan_rows :: "string \<Rightarrow> (string + contestantStats) list \<Rightarrow> string + contestantStats list" where
  "scan_rows cid [] = Inr []"
| "scan_rows cid (Inl e # rows) = Inl e"
| "scan_rows cid (Inr s # rows) =
     (case scan_rows cid rows of Inl e \<Rightarrow> Inl e | Inr out \<Rightarrow> Inr (s\<lparr>ts_ContestantID := cid\<rparr> # out))"

definition history_hours :: "int \<Rightarrow> int" where
  "history_hours hours0 =
     (let hours = (if hours0 \<le> 0 then 1 else hours0) in if hours > 168 then 168 else hours)"

definition QueryHistory ::
  "(string \<Rightarrow> int \<Rightarrow> string + (string + contestantStats) list \<times> string option) \<Rightarrow> string \<Rightarrow> int \<Rightarrow>
     contestantStats list \<times> string option" where
  "QueryHistory query contestantID hours =
     (case query contestantID (history_hours hours) of
        Inl e \<Rightarrow> ([], Some e)
      | Inr (rows, rowsErr) \<Rightarrow>
          (case scan_rows contestantID rows of Inl e \<Rightarrow> ([], Some e) | Inr out \<Rightarrow> (out, rowsErr)))"

definition QueryRunStats :: "(string \<Rightarrow> string + contestantStats) \<Rightarrow> string \<Rightarrow> string + contestantStats" where
  "QueryRunStats queryRow testRunID = (case queryRow testRunID of Inl e \<Rightarrow> Inl e | Inr s \<Rightarrow> Inr s)"

section \<open>Lemmas\<close>

lemma drain_results_Nil:
  "length xs = length recs \<Longrightarrow> drain_results i recs xs = [] \<longleftrightarrow> (\<forall>x \<in> set xs. x = None)"
  by (induction i recs xs rule: drain_results.induct) auto

lemma drain_results_eq:
  "length xs = length recs \<Longrightarrow>
   drain_results i recs xs = map (\<lambda>k. row_error (i + k) (recs ! k) (the (xs ! k))) (filter (\<lambda>k. xs ! k \<noteq> None) [0..<length xs])"
proof (induction i recs xs rule: drain_results.induct)
  case (1 i r rs xs)
  then show ?case by (simp add: upt_conv_Cons del: upt_Suc) (simp add: map_Suc_upt [symmetric] filter_map o_def del: upt_Suc)
next
  case (2 i r rs e xs)
  then show ?case by (simp add: upt_conv_Cons del: upt_Suc) (simp add: map_Suc_upt [symmetric] filter_map o_def del: upt_Suc)
qed simp_all

lemma history_hours_range: "1 \<le> history_hours h \<and> history_hours h \<le> 168"
  by (simp add: history_hours_def Let_def)

section \<open>Properties\<close>

text \<open>
  A row holds what the record says: with time stamps below \<open>2 ^ 63\<close> (the year 2262) the three
  times are the record's, and the latency is the difference of the receipt and the sending time,
  0 when the receipt is earlier; it is never negative.
\<close>

theorem metric_row_keeps_record:
  assumes "mr_SentTimeNs r < 2 ^ 63" "mr_RecvTimeNs r < 2 ^ 63" "mr_EngineTimeNs r < 2 ^ 63"
  shows "row_sent_time_ns (metric_row now r) = uint (mr_SentTimeNs r) \<and>
    row_recv_time_ns (metric_row now r) = uint (mr_RecvTimeNs r) \<and>
    row_engine_time_ns (metric_row now r) = uint (mr_EngineTimeNs r) \<and>
    row_latency_ns (metric_row now r) = max 0 (uint (mr_RecvTimeNs r) - uint (mr_SentTimeNs r))"
proof -
  have "mr_RecvTimeNs r - mr_SentTimeNs r < 2 ^ 63 \<and> uint (mr_RecvTimeNs r - mr_SentTimeNs r) = uint (mr_RecvTimeNs r) - uint (mr_SentTimeNs r)"
    if "mr_SentTimeNs r \<le> mr_RecvTimeNs r"
    using that assms(2) by (simp add: uint_minus_simple_alt word_less_def word_le_def)
      (smt (verit) uint_ge_0)
  then show ?thesis using assms by (auto simp: metric_row_def Let_def int64_of_small word_le_def)
qed

definition demo_record :: metricRecord where
  "demo_record = \<lparr>mr_TestRunId = ''t'', mr_ContestantId = ''c'', mr_ClientId = ''b'', mr_OrderId = ''b-1'',
     mr_SentTimeNs = 1000, mr_RecvTimeNs = 5000, mr_EngineTimeNs = 2000, mr_IsCorrect = True, mr_ErrorCode = ''''\<rparr>"

lemma metric_row_keeps_record_witness: "row_latency_ns (metric_row 7 demo_record) = 4000"
  using metric_row_keeps_record [of demo_record 7] by (simp add: demo_record_def)

text \<open>
  C35: a batch goes to the database whole and in order, one row per record, and every result is
  looked at: the call succeeds exactly when all rows did, otherwise its error names each failed
  record by its position, run and order, in order.
\<close>

theorem InsertBatch_reports_every_row:
  assumes "length (fst (db (map (metric_row now) recs) t)) = length recs"
  shows "let out = InsertBatch db now recs t; results = fst (db (map (metric_row now) recs) t) in
    (recs \<noteq> [] \<longrightarrow> snd out = snd (db (map (metric_row now) recs) t)) \<and>
    (fst out = None \<longleftrightarrow> (\<forall>r \<in> set results. r = None)) \<and>
    (fst out \<noteq> None \<longrightarrow> fst out = Some (join_with (char_of (10 :: nat))
       (map (\<lambda>k. row_error k (recs ! k) (the (results ! k))) (filter (\<lambda>k. results ! k \<noteq> None) [0..<length recs]))))"
proof -
  obtain rs t' where d: "db (map (metric_row now) recs) t = (rs, t')" by fastforce
  then have "length rs = length recs" using assms by simp
  then show ?thesis
    using drain_results_Nil [of rs recs 0] drain_results_eq [of rs recs 0]
    by (auto simp: InsertBatch_def errors_Join_def d Let_def)
qed

lemma InsertBatch_reports_every_row_witness:
  "fst (InsertBatch (\<lambda>rows t. ([None, Some ''dup''], rows)) 7 [demo_record, demo_record] [])
     = Some ''record[1] (run=t order=b-1): dup''"
proof -
  have "length (fst (([None, Some ''dup''], map (metric_row 7) [demo_record, demo_record]))) = length [demo_record, demo_record]" by simp
  from InsertBatch_reports_every_row [where db = "\<lambda>rows t. ([None, Some ''dup''], rows)", OF this, of "[]"]
  have "fst (InsertBatch (\<lambda>rows t. ([None, Some ''dup''], rows)) 7 [demo_record, demo_record] []) =
      Some (join_with (char_of (10 :: nat)) [row_error 1 demo_record ''dup''])"
    by (simp add: Let_def upt_rec)
  then show ?thesis by (simp add: row_error_def demo_record_def show_one [simplified])
qed

end
