(* ===== verification/Redis.thy ===== *)
theory Redis
  imports GoFloat GoText "HOL-Library.List_Lexorder" "HOL-Library.Char_ord"
begin

text \<open>
  The interface to Redis. The server and the client library are outside the repository: they
  are an argument \<open>srv\<close> that takes a command and its state and returns an error or a reply.
  \<open>redis_exec\<close> writes down the documented effect of the commands the program sends, on a store
  of strings, lists, sets and sorted sets; \<open>redis_client\<close> is the interface, a server that
  follows the documentation whenever it answers and that, when it fails, has either executed
  the command or not. Expiry is not modelled (the only keys that expire are the run results,
  after 24 hours), nor are subscribers: a published message is recorded.
\<close>

section \<open>Commands\<close>

datatype cmd =
    CPing
  | CExists string
  | CGet string
  | CSet string string
  | CDel "string list"
  | CMGet "string list"
  | CSAdd string string
  | CSMembers string
  | CLPush string string
  | CLTrim string int int
  | CLRange string int int
  | CZAdd string f64 string
  | CZCard string
  | CZRevRange string int int
  | CZRemRangeByRank string int int
  | CPublish string string
  | CScan nat string nat

datatype reply =
    ROk
  | RInt int
  | RVal "string option"
  | RVals "string option list"
  | RKeys "string list"
  | RScan "string list" nat

datatype rval =
    VStr string
  | VList "string list"
  | VSet "string list"
  | VZset "(f64 \<times> string) list"

record store =
  st_keys :: "string \<Rightarrow> rval option"
  st_published :: "(string \<times> string) list"

section \<open>Documented semantics\<close>

text \<open>
  Ranges of lists and sorted sets: both ends inclusive, negative ones count from the end, out
  of range ones are cut.
\<close>

definition range_from :: "nat \<Rightarrow> int \<Rightarrow> nat" where
  "range_from n a = nat (if a < 0 then max 0 (int n + a) else a)"

definition range_upto :: "nat \<Rightarrow> int \<Rightarrow> nat" where
  "range_upto n b = nat (if b < 0 then int n + b + 1 else min (int n) (b + 1))"

definition range_of :: "'a list \<Rightarrow> int \<Rightarrow> int \<Rightarrow> 'a list" where
  "range_of xs a b = drop (range_from (length xs) a) (take (range_upto (length xs) b) xs)"

definition range_removed :: "'a list \<Rightarrow> int \<Rightarrow> int \<Rightarrow> 'a list" where
  "range_removed xs a b =
     (let i = range_from (length xs) a; j = range_upto (length xs) b
      in if i < j then take i xs @ drop j xs else xs)"

text \<open>Sorted sets are kept in ascending order of score, members of equal score in byte order.\<close>

definition z_less :: "f64 \<times> string \<Rightarrow> f64 \<times> string \<Rightarrow> bool" where
  "z_less x y \<longleftrightarrow> f_less (fst x) (fst y) \<or> \<not> f_less (fst y) (fst x) \<and> snd x < snd y"

fun z_insert :: "f64 \<times> string \<Rightarrow> (f64 \<times> string) list \<Rightarrow> (f64 \<times> string) list" where
  "z_insert x [] = [x]"
| "z_insert x (y # ys) = (if z_less x y then x # y # ys else y # z_insert x ys)"

definition z_add :: "f64 \<Rightarrow> string \<Rightarrow> (f64 \<times> string) list \<Rightarrow> (f64 \<times> string) list" where
  "z_add score m zs = z_insert (score, m) (filter (\<lambda>z. snd z \<noteq> m) zs)"

text \<open>Glob patterns, as far as the program uses them: a fixed prefix followed by a star.\<close>

definition glob_prefix :: "string \<Rightarrow> string \<Rightarrow> bool" where
  "glob_prefix pat k \<longleftrightarrow> (if pat \<noteq> [] \<and> last pat = CHR ''*'' then has_prefix (butlast pat) k else k = pat)"

text \<open>
  \<open>None\<close> is the error for a key that holds another type. \<open>SCAN\<close> returns some keys that match
  and a cursor, 0 at the end; which ones is left to the server, see \<open>scan_law\<close>.
\<close>

fun read_list :: "rval option \<Rightarrow> string list option" where
  "read_list None = Some []"
| "read_list (Some (VList xs)) = Some xs"
| "read_list _ = None"

fun read_set :: "rval option \<Rightarrow> string list option" where
  "read_set None = Some []"
| "read_set (Some (VSet xs)) = Some xs"
| "read_set _ = None"

fun read_zset :: "rval option \<Rightarrow> (f64 \<times> string) list option" where
  "read_zset None = Some []"
| "read_zset (Some (VZset zs)) = Some zs"
| "read_zset _ = None"

fun read_str :: "rval option \<Rightarrow> string option option" where
  "read_str None = Some None"
| "read_str (Some (VStr v)) = Some (Some v)"
| "read_str _ = None"

text \<open>\<open>MGET\<close> gives nil for a key of another type. An empty list or sorted set is a missing key.\<close>

definition mget_one :: "rval option \<Rightarrow> string option" where
  "mget_one v = (case v of Some (VStr s) \<Rightarrow> Some s | _ \<Rightarrow> None)"

definition put :: "string \<Rightarrow> rval \<Rightarrow> store \<Rightarrow> store" where
  "put k v s = s\<lparr>st_keys := (st_keys s)(k := (if v = VList [] \<or> v = VZset [] then None else Some v))\<rparr>"

fun redis_exec :: "cmd \<Rightarrow> store \<Rightarrow> (reply \<times> store) option" where
  "redis_exec CPing s = Some (ROk, s)"
| "redis_exec (CExists k) s = Some (RInt (if st_keys s k = None then 0 else 1), s)"
| "redis_exec (CGet k) s = map_option (\<lambda>v. (RVal v, s)) (read_str (st_keys s k))"
| "redis_exec (CSet k v) s = Some (ROk, put k (VStr v) s)"
| "redis_exec (CDel ks) s =
     Some (RInt (int (length (filter (\<lambda>k. st_keys s k \<noteq> None) (remdups ks)))),
           s\<lparr>st_keys := (\<lambda>k. if k \<in> set ks then None else st_keys s k)\<rparr>)"
| "redis_exec (CMGet ks) s = Some (RVals (map (\<lambda>k. mget_one (st_keys s k)) ks), s)"
| "redis_exec (CSAdd k m) s =
     map_option (\<lambda>xs. if m \<in> set xs then (RInt 0, s) else (RInt 1, put k (VSet (xs @ [m])) s)) (read_set (st_keys s k))"
| "redis_exec (CSMembers k) s = map_option (\<lambda>xs. (RKeys xs, s)) (read_set (st_keys s k))"
| "redis_exec (CLPush k v) s =
     map_option (\<lambda>xs. (RInt (int (length xs) + 1), put k (VList (v # xs)) s)) (read_list (st_keys s k))"
| "redis_exec (CLTrim k a b) s = map_option (\<lambda>xs. (ROk, put k (VList (range_of xs a b)) s)) (read_list (st_keys s k))"
| "redis_exec (CLRange k a b) s = map_option (\<lambda>xs. (RKeys (range_of xs a b), s)) (read_list (st_keys s k))"
| "redis_exec (CZAdd k score m) s =
     (if score = NaN then None
      else map_option (\<lambda>zs. (RInt (if m \<in> snd ` set zs then 0 else 1), put k (VZset (z_add score m zs)) s)) (read_zset (st_keys s k)))"
| "redis_exec (CZCard k) s = map_option (\<lambda>zs. (RInt (int (length zs)), s)) (read_zset (st_keys s k))"
| "redis_exec (CZRevRange k a b) s =
     map_option (\<lambda>zs. (RKeys (map snd (range_of (rev zs) a b)), s)) (read_zset (st_keys s k))"
| "redis_exec (CZRemRangeByRank k a b) s =
     map_option (\<lambda>zs. (RInt (int (length zs) - int (length (range_removed zs a b))), put k (VZset (range_removed zs a b)) s))
       (read_zset (st_keys s k))"
| "redis_exec (CPublish ch m) s = Some (RInt 0, s\<lparr>st_published := st_published s @ [(ch, m)]\<rparr>)"
| "redis_exec (CScan cur pat n) s = Some (RScan [] 0, s)"

section \<open>The interface\<close>

type_synonym 's server = "cmd \<Rightarrow> 's \<Rightarrow> (string + reply) \<times> 's"

fun is_scan :: "cmd \<Rightarrow> bool" where
  "is_scan (CScan _ _ _) = True"
| "is_scan _ = False"

fun is_publish :: "cmd \<Rightarrow> bool" where
  "is_publish (CPublish _ _) = True"
| "is_publish _ = False"

text \<open>
  The view of a server's state that its replies show. A failed command is executed or not.
  The number of receivers a publish returns is left open, and scanning reads only.
\<close>

definition redis_law :: "'s server \<Rightarrow> ('s \<Rightarrow> store) \<Rightarrow> bool" where
  "redis_law srv view \<longleftrightarrow>
     (\<forall>c s r s'. srv c s = (Inr r, s') \<longrightarrow> \<not> is_scan c \<longrightarrow>
        (\<exists>r' t. redis_exec c (view s) = Some (r', t) \<and> view s' = t \<and> (\<not> is_publish c \<longrightarrow> r = r'))) \<and>
     (\<forall>c s e s'. srv c s = (Inl e, s') \<longrightarrow>
        view s' = view s \<or> (\<exists>r t. redis_exec c (view s) = Some (r, t) \<and> view s' = t)) \<and>
     (\<forall>cur pat n s r s'. srv (CScan cur pat n) s = (r, s') \<longrightarrow> view s' = view s)"

locale redis_client =
  fixes srv :: "'s server" and view :: "'s \<Rightarrow> store"
  assumes law: "redis_law srv view"
begin

lemma answered:
  assumes "srv c s = (Inr r, s')" "\<not> is_scan c"
  shows "\<exists>r'. redis_exec c (view s) = Some (r', view s') \<and> (\<not> is_publish c \<longrightarrow> r = r')"
  using law assms unfolding redis_law_def by blast

lemma failed:
  assumes "srv c s = (Inl e, s')"
  shows "view s' = view s \<or> (\<exists>r. redis_exec c (view s) = Some (r, view s'))"
  using law assms unfolding redis_law_def by blast

lemma scan_reads: "srv (CScan cur pat n) s = (r, s') \<Longrightarrow> view s' = view s"
  using law unfolding redis_law_def by blast

end

text \<open>A server that is up also answers whatever the documentation gives an answer to.\<close>

definition redis_up :: "'s server \<Rightarrow> ('s \<Rightarrow> store) \<Rightarrow> bool" where
  "redis_up srv view \<longleftrightarrow> redis_law srv view \<and>
     (\<forall>c s. \<not> is_scan c \<longrightarrow> redis_exec c (view s) \<noteq> None \<longrightarrow> (\<exists>r s'. srv c s = (Inr r, s')))"

locale redis_running = redis_client +
  assumes answers: "\<not> is_scan c \<Longrightarrow> redis_exec c (view s) \<noteq> None \<Longrightarrow> \<exists>r s'. srv c s = (Inr r, s')"

lemma redis_running_up: "redis_up srv view \<Longrightarrow> redis_running srv view"
  by unfold_locales (auto simp: redis_up_def)

context redis_running begin

lemma runs:
  assumes "redis_exec c (view s) = Some (r, t)" "\<not> is_scan c"
  shows "\<exists>x s'. srv c s = (Inr x, s') \<and> view s' = t \<and> (\<not> is_publish c \<longrightarrow> x = r)"
proof -
  obtain x s' where x: "srv c s = (Inr x, s')" using answers [of c s] assms by auto
  from answered [OF this] assms show ?thesis by (auto simp: x)
qed

lemma effect: "redis_exec c (view s) = Some (r, t) \<Longrightarrow> \<not> is_scan c \<Longrightarrow> view (snd (srv c s)) = t"
  using runs by fastforce

end

text \<open>
  The documentation as a server: it answers every command it can. A scan returns all matching
  keys of the given list of keys at once.
\<close>

definition ref_server :: "string list \<Rightarrow> store server" where
  "ref_server keys c s =
     (case c of CScan cur pat n \<Rightarrow> (Inr (RScan (filter (\<lambda>k. st_keys s k \<noteq> None \<and> glob_prefix pat k) keys) 0), s)
      | _ \<Rightarrow> (case redis_exec c s of None \<Rightarrow> (Inl ''WRONGTYPE'', s) | Some (r, s') \<Rightarrow> (Inr r, s')))"

definition empty_store :: store where
  "empty_store = \<lparr>st_keys = Map.empty, st_published = []\<rparr>"

lemma ref_server_answers:
  "\<not> is_scan c \<Longrightarrow>
     ref_server keys c s = (case redis_exec c s of None \<Rightarrow> (Inl ''WRONGTYPE'', s) | Some (r, s') \<Rightarrow> (Inr r, s'))"
  by (cases c) (simp_all add: ref_server_def)

lemma ref_server_law: "redis_law (ref_server keys) id"
  unfolding redis_law_def
proof (intro conjI allI impI)
  fix c s r s'
  assume "ref_server keys c s = (Inr r, s')" "\<not> is_scan c"
  then show "\<exists>r' t. redis_exec c (id s) = Some (r', t) \<and> id s' = t \<and> (\<not> is_publish c \<longrightarrow> r = r')"
    by (simp add: ref_server_answers split: option.splits prod.splits)
next
  fix c s e s'
  assume "ref_server keys c s = (Inl e, s')"
  then have "\<not> is_scan c" by (cases c) (simp_all add: ref_server_def)
  with \<open>ref_server keys c s = (Inl e, s')\<close> show "id s' = id s \<or> (\<exists>r t. redis_exec c (id s) = Some (r, t) \<and> id s' = t)"
    by (simp add: ref_server_answers split: option.splits prod.splits)
next
  fix cur pat n s r s'
  assume "ref_server keys (CScan cur pat n) s = (r, s')"
  then show "id s' = id s" by (simp add: ref_server_def)
qed

lemma ref_server_up: "redis_up (ref_server keys) id"
  by (auto simp: redis_up_def ref_server_law ref_server_answers split: option.splits)

interpretation ref: redis_running "ref_server keys" id
  by (rule redis_running_up [OF ref_server_up])

text \<open>Reading a reply at the type the client expects; another type is a client error.\<close>

fun as_int :: "string + reply \<Rightarrow> string + int" where
  "as_int (Inl e) = Inl e"
| "as_int (Inr (RInt n)) = Inr n"
| "as_int (Inr _) = Inl ''unexpected reply''"

fun as_val :: "string + reply \<Rightarrow> string + string option" where
  "as_val (Inl e) = Inl e"
| "as_val (Inr (RVal v)) = Inr v"
| "as_val (Inr _) = Inl ''unexpected reply''"

fun as_vals :: "string + reply \<Rightarrow> string + string option list" where
  "as_vals (Inl e) = Inl e"
| "as_vals (Inr (RVals vs)) = Inr vs"
| "as_vals (Inr _) = Inl ''unexpected reply''"

fun as_keys :: "string + reply \<Rightarrow> string + string list" where
  "as_keys (Inl e) = Inl e"
| "as_keys (Inr (RKeys ks)) = Inr ks"
| "as_keys (Inr _) = Inl ''unexpected reply''"

fun as_scan :: "string + reply \<Rightarrow> string + string list \<times> nat" where
  "as_scan (Inl e) = Inl e"
| "as_scan (Inr (RScan ks cur)) = Inr (ks, cur)"
| "as_scan (Inr _) = Inl ''unexpected reply''"

fun as_done :: "string + reply \<Rightarrow> string option" where
  "as_done (Inl e) = Some e"
| "as_done (Inr _) = None"

section \<open>Pipelines\<close>

text \<open>
  A pipeline sends its commands together; the server executes each in turn, a failed one does
  not stop the others, and \<open>Exec\<close> returns the first error.
\<close>

fun pipeline :: "'s server \<Rightarrow> cmd list \<Rightarrow> 's \<Rightarrow> string option \<times> 's" where
  "pipeline srv [] s = (None, s)"
| "pipeline srv (c # cs) s =
     (let (r, s1) = srv c s; (e, s2) = pipeline srv cs s1
      in (case r of Inl x \<Rightarrow> Some x | Inr _ \<Rightarrow> e, s2))"

fun exec_all :: "cmd list \<Rightarrow> store \<Rightarrow> store option" where
  "exec_all [] s = Some s"
| "exec_all (c # cs) s = (case redis_exec c s of None \<Rightarrow> None | Some (r, s') \<Rightarrow> exec_all cs s')"

lemma exec_all_append: "exec_all (cs @ ds) s = Option.bind (exec_all cs s) (exec_all ds)"
  by (induction cs arbitrary: s) (auto split: option.split)

context redis_client begin

lemma pipeline_ok:
  assumes "pipeline srv cs s = (None, s')" "\<forall>c \<in> set cs. \<not> is_scan c"
  shows "exec_all cs (view s) = Some (view s')"
  using assms
proof (induction cs arbitrary: s)
  case (Cons c cs)
  obtain r s1 where c: "srv c s = (r, s1)" by fastforce
  obtain e s2 where p: "pipeline srv cs s1 = (e, s2)" by fastforce
  from Cons.prems c p obtain x where r: "r = Inr x" "e = None" "s2 = s'" by (auto split: sum.splits)
  from answered [of c s x s1] c r Cons.prems(2) obtain y where "redis_exec c (view s) = Some (y, view s1)" by auto
  moreover have "exec_all cs (view s1) = Some (view s')" using Cons.IH [of s1] p r Cons.prems(2) by simp
  ultimately show ?case by simp
qed simp

end

text \<open>Commands whose error the caller drops.\<close>

definition do_all :: "'s server \<Rightarrow> cmd list \<Rightarrow> 's \<Rightarrow> 's" where
  "do_all srv cs s = fold (\<lambda>c s. snd (srv c s)) cs s"

lemma do_all_Nil [simp]: "do_all srv [] s = s"
  by (simp add: do_all_def)

lemma do_all_Cons [simp]: "do_all srv (c # cs) s = do_all srv cs (snd (srv c s))"
  by (simp add: do_all_def)

context redis_running begin

lemma pipeline_runs:
  "exec_all cs (view s) = Some t \<Longrightarrow> \<forall>c \<in> set cs. \<not> is_scan c \<Longrightarrow> \<exists>s'. pipeline srv cs s = (None, s') \<and> view s' = t"
proof (induction cs arbitrary: s)
  case (Cons c cs)
  then obtain r t1 where c: "redis_exec c (view s) = Some (r, t1)" "exec_all cs t1 = Some t"
    by (auto split: option.splits)
  then obtain x s1 where s1: "srv c s = (Inr x, s1)" "view s1 = t1" using runs [of c s] Cons.prems(2) by auto
  then show ?case using Cons.IH [of s1] Cons.prems(2) c(2) by auto
qed simp

lemma do_all_runs:
  "exec_all cs (view s) = Some t \<Longrightarrow> \<forall>c \<in> set cs. \<not> is_scan c \<Longrightarrow> view (do_all srv cs s) = t"
proof (induction cs arbitrary: s)
  case (Cons c cs)
  then obtain r t1 where c: "redis_exec c (view s) = Some (r, t1)" "exec_all cs t1 = Some t"
    by (auto split: option.splits)
  then have "view (snd (srv c s)) = t1" using effect [of c s] Cons.prems(2) by simp
  then show ?case using Cons.IH [of "snd (srv c s)"] Cons.prems(2) c(2) by simp
qed simp

end

section \<open>Lemmas on the store\<close>

lemma put_same [simp]: "v \<noteq> VList [] \<Longrightarrow> v \<noteq> VZset [] \<Longrightarrow> st_keys (put k v s) k = Some v"
  by (simp add: put_def)

lemma put_other [simp]: "k' \<noteq> k \<Longrightarrow> st_keys (put k v s) k' = st_keys s k'"
  by (simp add: put_def)

lemma put_published [simp]: "st_published (put k v s) = st_published s"
  by (simp add: put_def)

lemma range_of_head: "0 \<le> b \<Longrightarrow> range_of xs 0 b = take (nat (b + 1)) xs"
  by (simp add: range_of_def range_from_def range_upto_def min_def nat_le_iff)

end
