(* ===== verification/JudgeStats.thy ===== *)
theory JudgeStats
  imports RingBuffer GoFloat "HOL-Library.Multiset"
begin

text \<open>
  The local statistics of internal/judge/judge.go: \<open>drainRingBuffer\<close> empties the ring of a
  finished run and summarises it, \<open>percentiles\<close> picks order statistics, and the score is
  \<open>ratio * 1_000_000 - p99\<close>. Arithmetic is \<open>float64\<close> as in \<open>GoFloat\<close>; \<open>sort.Slice\<close> on
  \<open>uint64\<close> with \<open><\<close> can only return the sorted permutation, the library's \<open>sort\<close>.
\<close>

section \<open>Percentiles\<close>

text \<open>\<open>int(float64(n-1)*pct/100.0)\<close>; indexing out of range would panic, here \<open>None\<close>.\<close>

definition pct_index :: "nat \<Rightarrow> int \<Rightarrow> int" where
  "pct_index n pct = f_to_int (f_div (f_mul (f_of_int (int n - 1)) (Fin (of_int pct))) (Fin 100))"

definition index_of :: "'a list \<Rightarrow> int \<Rightarrow> 'a option" where
  "index_of xs i = (if 0 \<le> i \<and> i < int (length xs) then Some (xs ! nat i) else None)"

definition percentiles :: "u64 list \<Rightarrow> (u64 \<times> u64 \<times> u64) option" where
  "percentiles data =
     (let n = length data in
      if n = 0 then Some (0, 0, 0)
      else let sorted = sort data; idx = (\<lambda>pct. index_of sorted (pct_index n pct))
           in case (idx 50, idx 90, idx 99) of
                (Some p50, Some p90, Some p99) \<Rightarrow> Some (p50, p90, p99)
              | _ \<Rightarrow> None)"

lemma pct_index_exact:
  assumes n: "0 < n" "int n \<le> 2 ^ 46" and p: "0 \<le> pct" "pct \<le> 100"
  shows "pct_index n pct = (int n - 1) * pct div 100"
proof -
  let ?a = "(int n - 1) * pct"
  have "?a \<le> 2 ^ 46 * 100" using n p by (intro mult_mono) auto
  then have a: "0 \<le> ?a" "?a \<le> 2 ^ 53" using n p by auto
  have "f_mul (f_of_int (int n - 1)) (Fin (of_int pct)) = f_of_int ?a"
    using n by (subst f_of_int_small) (auto simp: f_of_int_def)
  also have "\<dots> = Fin (of_int ?a)" using a by (intro f_of_int_small) linarith
  finally have m: "f_mul (f_of_int (int n - 1)) (Fin (of_int pct)) = Fin (of_int ?a)" .
  have "(of_int ?a :: rat) \<le> of_int (2 ^ 53)" using a(2) by (simp only: of_int_le_iff)
  moreover have "(0 :: rat) \<le> of_int ?a" using a(1) by (simp only: of_int_0_le_iff)
  ultimately have "\<bar>of_int ?a / 100\<bar> \<le> (2 :: rat) ^ 80"
    by (simp del: of_int_mult)
  then have d: "f_div (Fin (of_int ?a)) (Fin 100) = Fin (fl (of_int ?a / 100))"
    by (simp only: f_div.simps to_f64_small) simp
  have "0 \<le> fl (of_int ?a / 100)" using a(1) by (intro fl_nonneg) (simp del: of_int_mult)
  then have "trunc (fl (of_int ?a / 100)) = ?a div 100"
    using fl_div100_floor [OF a] by (simp add: trunc_def del: of_int_mult)
  moreover have "in_int64 (?a div 100)" using a by (auto simp: in_int64_def)
  ultimately show ?thesis unfolding pct_index_def m d by simp
qed

definition rank_of :: "nat \<Rightarrow> nat \<Rightarrow> nat" where
  "rank_of n pct = (n - 1) * pct div 100"

lemma rank_less: "0 < n \<Longrightarrow> pct \<le> 100 \<Longrightarrow> rank_of n pct < n"
proof -
  assume "0 < n" "pct \<le> 100"
  then have "(n - 1) * pct div 100 \<le> (n - 1) * 100 div 100" by (intro div_le_mono mult_le_mono) auto
  then show ?thesis using \<open>0 < n\<close> by (simp add: rank_of_def)
qed

lemma rank_mono: "p \<le> q \<Longrightarrow> rank_of n p \<le> rank_of n q"
  by (simp add: rank_of_def div_le_mono)

lemma index_of_rank:
  assumes "0 < length xs" "length xs \<le> 2 ^ 46" "pct \<le> 100"
  shows "index_of xs (pct_index (length xs) (int pct)) = Some (xs ! rank_of (length xs) pct)"
proof -
  let ?n = "length xs"
  have "int ?n - 1 = int (?n - 1)" using assms(1) by linarith
  then have "(int ?n - 1) * int pct div 100 = int (rank_of ?n pct)"
    by (simp only: rank_of_def zdiv_int of_nat_mult of_nat_numeral)
  moreover have "int ?n \<le> 2 ^ 46" using assms(2) by simp
  ultimately have "pct_index ?n (int pct) = int (rank_of ?n pct)"
    using assms by (simp add: pct_index_exact)
  then show ?thesis using rank_less [of ?n pct] assms by (simp add: index_of_def)
qed

text \<open>No index ever leaves the slice, and the three values sit at fixed ranks of the sorted sample.\<close>

lemma percentiles_ranks:
  assumes "data \<noteq> []" "length data \<le> 2 ^ 46"
  shows "percentiles data = (let s = sort data; n = length data in
    Some (s ! rank_of n 50, s ! rank_of n 90, s ! rank_of n 99))"
  using assms index_of_rank [of "sort data" 50] index_of_rank [of "sort data" 90]
    index_of_rank [of "sort data" 99]
  by (simp add: percentiles_def Let_def)

lemma sorted_rank:
  assumes "sorted s" "k < length s"
  shows "k < length (filter (\<lambda>x. x \<le> s ! k) s)" and "length (filter (\<lambda>x. x < s ! k) s) \<le> k"
proof -
  have split: "s = take (Suc k) s @ drop (Suc k) s" by simp
  have "\<forall>x \<in> set (take (Suc k) s). x \<le> s ! k"
    using assms by (auto simp: in_set_conv_nth sorted_iff_nth_mono)
  then have "filter (\<lambda>x. x \<le> s ! k) (take (Suc k) s) = take (Suc k) s" by simp
  moreover have "length (filter (\<lambda>x. x \<le> s ! k) s) \<ge> length (filter (\<lambda>x. x \<le> s ! k) (take (Suc k) s))"
    by (subst (2) split) (simp only: filter_append length_append)
  ultimately show "k < length (filter (\<lambda>x. x \<le> s ! k) s)" using assms(2) by simp
  have split': "s = take k s @ drop k s" by simp
  have "\<forall>x \<in> set (drop k s). \<not> x < s ! k"
    using assms by (auto simp: in_set_conv_nth sorted_iff_nth_mono not_less)
  then have "filter (\<lambda>x. x < s ! k) (drop k s) = []" by (simp add: filter_empty_conv)
  then have "length (filter (\<lambda>x. x < s ! k) s) = length (filter (\<lambda>x. x < s ! k) (take k s))"
    by (subst (2) split') (simp only: filter_append length_append list.size)
  also have "\<dots> \<le> k" using length_filter_le [of _ "take k s"] by (rule order_trans) simp
  finally show "length (filter (\<lambda>x. x < s ! k) s) \<le> k" .
qed

lemma sort_filter_length: "length (filter P (sort xs)) = length (filter P xs)"
  by (metis mset_filter mset_sort size_mset)

text \<open>
  What an order statistic of rank \<open>k\<close> is, without mentioning an order of the sample: more
  than \<open>k\<close> samples are at most \<open>v\<close>, no more than \<open>k\<close> are below it.
\<close>

definition order_statistic :: "nat \<Rightarrow> u64 list \<Rightarrow> u64 \<Rightarrow> bool" where
  "order_statistic k xs v \<longleftrightarrow> v \<in> set xs \<and>
     k < length (filter (\<lambda>x. x \<le> v) xs) \<and> length (filter (\<lambda>x. x < v) xs) \<le> k"

lemma sort_order_statistic: "k < length xs \<Longrightarrow> order_statistic k xs (sort xs ! k)"
  using sorted_rank [of "sort xs" k] nth_mem [of k "sort xs"]
  by (simp add: order_statistic_def sort_filter_length)

section \<open>drainRingBuffer\<close>

record tally =
  t_latencies :: "u64 list"
  t_correct :: u64
  t_total :: u64

definition empty_tally :: tally where
  "empty_tally = \<lparr>t_latencies = [], t_correct = 0, t_total = 0\<rparr>"

definition latency_us :: "metric \<Rightarrow> u64" where
  "latency_us m = (let us = (m_RecvTimeNs m - m_SentTimeNs m) div 1000 in if us = 0 then 1 else us)"

definition count_metric :: "metric \<Rightarrow> tally \<Rightarrow> tally" where
  "count_metric m t =
     (let t1 = t\<lparr>t_total := t_total t + 1\<rparr>;
          t2 = (if m_IsCorrect m then t1\<lparr>t_correct := t_correct t1 + 1\<rparr> else t1)
      in if m_RecvTimeNs m \<ge> m_SentTimeNs m
         then t2\<lparr>t_latencies := t_latencies t2 @ [latency_us m]\<rparr> else t2)"

record localStats =
  l_Count :: u64
  l_CorrectRatio :: f64
  l_P50Us :: u64
  l_P90Us :: u64
  l_P99Us :: u64
  l_Score :: f64

definition zero_stats :: localStats where
  "zero_stats = \<lparr>l_Count = 0, l_CorrectRatio = Fin 0, l_P50Us = 0, l_P90Us = 0, l_P99Us = 0, l_Score = Fin 0\<rparr>"

definition judge_score :: "f64 \<Rightarrow> u64 \<Rightarrow> f64" where
  "judge_score ratio p99 = f_sub (f_mul ratio (Fin 1000000)) (f_of_u64 p99)"

definition stats_of_tally :: "tally \<Rightarrow> localStats option" where
  "stats_of_tally t =
     (if t_total t = 0 then Some zero_stats
      else let ratio = f_div (f_of_u64 (t_correct t)) (f_of_u64 (t_total t))
           in case percentiles (t_latencies t) of
                None \<Rightarrow> None
              | Some (p50, p90, p99) \<Rightarrow>
                  Some \<lparr>l_Count = t_total t, l_CorrectRatio = ratio, l_P50Us = p50, l_P90Us = p90,
                    l_P99Us = p99, l_Score = judge_score ratio p99\<rparr>)"

text \<open>The batch slice has 8192 cells; \<open>None\<close> is a loop that does not end or an index panic.\<close>

definition drain_with :: "nat \<Rightarrow> metric ring \<Rightarrow> (metric ring \<times> localStats) option" where
  "drain_with batch r =
     (case drain_loop rq_pop count_metric (r, replicate batch zero_metric) empty_tally of
        None \<Rightarrow> None
      | Some ((r', dst), t) \<Rightarrow>
          (case stats_of_tally t of None \<Rightarrow> None | Some st \<Rightarrow> Some (r', st)))"

definition drainRingBuffer :: "metric ring \<Rightarrow> (metric ring \<times> localStats) option" where
  "drainRingBuffer r = drain_with 8192 r"

text \<open>The metrics whose latency counts, and the closed form of the tally.\<close>

definition timed :: "metric \<Rightarrow> bool" where
  "timed m \<longleftrightarrow> m_SentTimeNs m \<le> m_RecvTimeNs m"

lemma count_metric_fields:
  "t_total (count_metric m t) = t_total t + 1"
  "t_correct (count_metric m t) = (if m_IsCorrect m then t_correct t + 1 else t_correct t)"
  "t_latencies (count_metric m t) =
     (if timed m then t_latencies t @ [latency_us m] else t_latencies t)"
  by (simp_all add: count_metric_def Let_def timed_def)

lemma fold_count_metric:
  "fold count_metric ms t =
     \<lparr>t_latencies = t_latencies t @ map latency_us (filter timed ms),
      t_correct = t_correct t + of_nat (length (filter m_IsCorrect ms)),
      t_total = t_total t + of_nat (length ms)\<rparr>"
  by (induction ms arbitrary: t) (auto simp: count_metric_fields algebra_simps)

definition summary :: "metric list \<Rightarrow> localStats option" where
  "summary ms = stats_of_tally
     \<lparr>t_latencies = map latency_us (filter timed ms),
      t_correct = of_nat (length (filter m_IsCorrect ms)), t_total = of_nat (length ms)\<rparr>"

lemma drain_with_spec:
  assumes "rb_inv r" "0 < batch" "batch < 2 ^ 64" "summary (contents r) = Some st"
  shows "\<exists>r'. drain_with batch r = Some (r', st) \<and> rb_inv r' \<and> contents r' = []"
proof -
  have "rq_inv (r, replicate batch zero_metric)" using assms by (simp add: rq_inv_def)
  from rq.drain_spec [OF this, of count_metric empty_tally] obtain r' dst' where
    "drain_loop rq_pop count_metric (r, replicate batch zero_metric) empty_tally
       = Some ((r', dst'), fold count_metric (contents r) empty_tally)"
    "rq_inv (r', dst')" "contents r' = []"
    by (metis fst_conv surj_pair)
  then show ?thesis
    using assms(4) by (simp add: drain_with_def fold_count_metric empty_tally_def summary_def rq_inv_def)
qed

section \<open>Ratio and score\<close>

definition ratio_rat :: "nat \<Rightarrow> nat \<Rightarrow> rat" where
  "ratio_rat c n = fl (of_nat c / of_nat n)"

lemma ratio_rat_unit: "c \<le> n \<Longrightarrow> 0 \<le> ratio_rat c n \<and> ratio_rat c n \<le> 1"
proof -
  assume "c \<le> n"
  then have "0 \<le> (of_nat c / of_nat n :: rat)" "(of_nat c / of_nat n :: rat) \<le> 1"
    by (cases "n = 0", auto simp: divide_le_eq_1)
  then show ?thesis using fl_range [of 0 "of_nat c / of_nat n" 1] by (simp add: ratio_rat_def)
qed

lemma ratio_f64:
  assumes "c \<le> n" "0 < n" "n \<le> 2 ^ 53"
  shows "f_div (f_of_u64 (of_nat c)) (f_of_u64 (of_nat n)) = Fin (ratio_rat c n)"
proof -
  have "\<bar>of_nat c / of_nat n :: rat\<bar> \<le> 1" using assms by (simp add: divide_le_eq_1)
  then have "\<bar>of_nat c / of_nat n :: rat\<bar> \<le> 2 ^ 80" by (rule order_trans) simp
  then show ?thesis using assms by (simp add: f_of_nat_u64 ratio_rat_def to_f64_small)
qed

definition score_rat :: "rat \<Rightarrow> u64 \<Rightarrow> rat" where
  "score_rat r p = fl (fl (r * 1000000) - fl (of_int (uint p)))"

lemma fl_uint_bound: "0 \<le> fl (of_int (uint (p :: u64))) \<and> fl (of_int (uint p)) \<le> 2 ^ 64"
proof -
  have "uint p \<le> 2 ^ 64" using uint_bounded [of p] by simp
  then have "(of_int (uint p) :: rat) \<le> of_int (2 ^ 64)" by (simp only: of_int_le_iff)
  then have "fl (of_int (uint p)) \<le> fl (2 ^ 64)" by (intro fl_mono) simp
  moreover have "fl (2 ^ 64) = 2 ^ 64" by (rule fl_exact [of _ 1 64]) simp_all
  moreover have "0 \<le> fl (of_int (uint p))" by (rule fl_nonneg) (simp only: of_int_0_le_iff uint_ge_0)
  ultimately show ?thesis by simp
qed

lemma judge_score_Fin:
  assumes "0 \<le> r" "r \<le> 1"
  shows "judge_score (Fin r) p = Fin (score_rat r p)"
proof -
  have a: "0 \<le> fl (r * 1000000)" "fl (r * 1000000) \<le> 1000000"
    using fl_range [of 0 "r * 1000000" 1000000] assms by simp_all
  have "uint p \<le> 2 ^ 64" using uint_bounded [of p] by simp
  then have "(of_int (uint p) :: rat) \<le> of_int (2 ^ 64)" by (simp only: of_int_le_iff)
  then have p: "\<bar>of_int (uint p) :: rat\<bar> \<le> 2 ^ 80"
    using uint_ge_0 [of p] by (simp only: abs_of_nonneg of_int_0_le_iff) (rule order_trans, assumption, simp)
  have m: "f_mul (Fin r) (Fin 1000000) = Fin (fl (r * 1000000))"
    using assms by (simp add: to_f64_small abs_le_iff)
  have q: "f_of_u64 p = Fin (fl (of_int (uint p)))"
    unfolding f_of_u64_def f_of_int_def by (rule to_f64_small [OF p])
  have "\<bar>fl (r * 1000000) + - fl (of_int (uint p))\<bar> \<le> 2 ^ 80"
    using a fl_uint_bound [of p] by (simp add: abs_le_iff)
  then show ?thesis
    unfolding judge_score_def m q f_sub_def f_neg.simps f_add.simps score_rat_def
    by (subst to_f64_small) simp_all
qed

lemma score_rat_mono:
  assumes "r \<le> r'" "p' \<le> p"
  shows "score_rat r p \<le> score_rat r' p'"
proof -
  have "(of_int (uint p') :: rat) \<le> of_int (uint p)"
    using assms(2) by (simp only: of_int_le_iff word_le_def)
  then have "fl (of_int (uint p')) \<le> fl (of_int (uint p))" by (rule fl_mono)
  moreover have "fl (r * 1000000) \<le> fl (r' * 1000000)" using assms(1) by (intro fl_mono) simp
  ultimately show ?thesis unfolding score_rat_def by (intro fl_mono) linarith
qed

lemma score_rat_upper: "r \<le> 1 \<Longrightarrow> score_rat r p \<le> 1000000"
proof -
  assume "r \<le> 1"
  then have "fl (r * 1000000) \<le> fl 1000000" by (intro fl_mono) simp
  then have "fl (r * 1000000) - fl (of_int (uint p)) \<le> 1000000" using fl_uint_bound [of p] by simp
  then have "score_rat r p \<le> fl 1000000" unfolding score_rat_def by (rule fl_mono)
  then show ?thesis by simp
qed

text \<open>The summary of a non-empty sample, all branches resolved.\<close>

lemma summary_eq:
  fixes ms :: "metric list"
  defines "n \<equiv> length ms" and "c \<equiv> length (filter m_IsCorrect ms)" and "ls \<equiv> map latency_us (filter timed ms)"
  assumes "ms \<noteq> []" "n \<le> 2 ^ 46"
  shows "\<exists>p50 p90 p99. percentiles ls = Some (p50, p90, p99) \<and>
    summary ms = Some \<lparr>l_Count = of_nat n, l_CorrectRatio = Fin (ratio_rat c n), l_P50Us = p50,
      l_P90Us = p90, l_P99Us = p99, l_Score = Fin (score_rat (ratio_rat c n) p99)\<rparr>"
proof -
  have "length ls \<le> n" by (simp add: ls_def n_def)
  then obtain p50 p90 p99 where p: "percentiles ls = Some (p50, p90, p99)"
    using percentiles_ranks [of ls] assms(5) by (cases "ls = []") (auto simp: percentiles_def Let_def)
  have cn: "c \<le> n" "0 < n" "n \<le> 2 ^ 53" using assms by (auto simp: c_def n_def)
  have "unat (of_nat n :: u64) = n" using cn by (intro unat_of_nat_u64) simp
  then have "(of_nat n :: u64) \<noteq> 0" using cn(2) by auto
  then show ?thesis
    using p ratio_f64 [OF cn] judge_score_Fin [of "ratio_rat c n" p99] ratio_rat_unit [OF cn(1)]
    by (auto simp: summary_def stats_of_tally_def Let_def n_def c_def ls_def)
qed

lemma summary_Nil: "summary [] = Some zero_stats"
  by (simp add: summary_def stats_of_tally_def)

lemma summary_defined: "length ms \<le> 2 ^ 46 \<Longrightarrow> \<exists>st. summary ms = Some st"
  using summary_eq [of ms] summary_Nil by (cases "ms = []") auto

section \<open>Properties\<close>

text \<open>
  C4: \<open>drainRingBuffer\<close> always returns (its loop ends, no percentile index leaves the slice), it
  empties the ring, and its result is that of the stored metrics: their number, the rounded
  quotient of the correct ones, and, over the metrics received no earlier than sent, latencies
  whose ranks are \<open>(n - 1) * 50 div 100\<close> and so on. An empty ring gives the zero struct.
\<close>

theorem drainRingBuffer_summarises:
  assumes "rb_inv r" "length (contents r) \<le> 2 ^ 46"
  defines "ms \<equiv> contents r" and "c \<equiv> length (filter m_IsCorrect (contents r))"
    and "ls \<equiv> map latency_us (filter timed (contents r))"
  shows "\<exists>r' st. drainRingBuffer r = Some (r', st) \<and> rb_inv r' \<and> contents r' = [] \<and>
    (if ms = [] then st = zero_stats
     else l_Count st = of_nat (length ms) \<and> l_CorrectRatio st = Fin (fl (of_nat c / of_nat (length ms))) \<and>
       percentiles ls = Some (l_P50Us st, l_P90Us st, l_P99Us st) \<and>
       l_Score st = judge_score (l_CorrectRatio st) (l_P99Us st))"
proof -
  obtain st where st: "summary ms = Some st" using summary_defined [OF assms(2)] by (auto simp: ms_def)
  have "c \<le> length ms" unfolding c_def ms_def by (rule length_filter_le)
  then have js: "judge_score (Fin (ratio_rat c (length ms))) p = Fin (score_rat (ratio_rat c (length ms)) p)" for p
    using ratio_rat_unit by (intro judge_score_Fin) auto
  obtain r' where "drainRingBuffer r = Some (r', st)" "rb_inv r'" "contents r' = []"
    using drain_with_spec [OF assms(1), of 8192 st] st by (auto simp: drainRingBuffer_def ms_def)
  moreover have "if ms = [] then st = zero_stats
     else l_Count st = of_nat (length ms) \<and> l_CorrectRatio st = Fin (fl (of_nat c / of_nat (length ms))) \<and>
       percentiles ls = Some (l_P50Us st, l_P90Us st, l_P99Us st) \<and>
       l_Score st = judge_score (l_CorrectRatio st) (l_P99Us st)"
    using summary_eq [of ms] st assms(2) js
    by (auto simp: summary_Nil ms_def c_def ls_def ratio_rat_def simp del: contents_length)
  ultimately show ?thesis by blast
qed

definition sample_metric :: "u64 \<Rightarrow> u64 \<Rightarrow> bool \<Rightarrow> metric" where
  "sample_metric sent recv ok =
     zero_metric\<lparr>m_SentTimeNs := sent, m_RecvTimeNs := recv, m_IsCorrect := ok\<rparr>"

lemma drainRingBuffer_summarises_witness:
  "\<exists>r' st. drainRingBuffer (fst (Push (NewRingBuffer 4) (sample_metric 5000 9000 True))) = Some (r', st) \<and>
     contents r' = [] \<and> l_Count st = 1"
proof -
  let ?r = "fst (Push (NewRingBuffer 4) (sample_metric 5000 9000 True))"
  have r: "rb_inv ?r" "contents ?r = [sample_metric 5000 9000 True]"
    using Push_room [of "NewRingBuffer 4" "sample_metric 5000 9000 True"] NewRingBuffer_inv [of 4]
    by (simp_all add: NewRingBuffer_size)
  show ?thesis
    using drainRingBuffer_summarises [OF r(1)] by (auto simp: r(2) simp del: contents_length)
qed

text \<open>
  C25: \<open>percentiles\<close> is total on samples of up to \<open>2 ^ 46\<close> latencies, its three results are order
  statistics of the sample at ranks \<open>(n-1)*50 div 100\<close>, \<open>(n-1)*90 div 100\<close>, \<open>(n-1)*99 div 100\<close>
  (the \<open>float64\<close> index is exact), and p50 \<open>\<le>\<close> p90 \<open>\<le>\<close> p99.
\<close>

theorem percentiles_are_order_statistics:
  assumes "data \<noteq> []" "length data \<le> 2 ^ 46"
  shows "\<exists>p50 p90 p99. percentiles data = Some (p50, p90, p99) \<and> p50 \<le> p90 \<and> p90 \<le> p99 \<and>
    order_statistic ((length data - 1) * 50 div 100) data p50 \<and>
    order_statistic ((length data - 1) * 90 div 100) data p90 \<and>
    order_statistic ((length data - 1) * 99 div 100) data p99"
proof -
  let ?n = "length data" and ?s = "sort data"
  have r: "rank_of ?n p < ?n" if "p \<le> 100" for p using assms(1) that by (intro rank_less) auto
  then have "order_statistic (rank_of ?n p) data (?s ! rank_of ?n p)" if "p \<le> 100" for p
    using that by (intro sort_order_statistic)
  moreover have "?s ! rank_of ?n p \<le> ?s ! rank_of ?n q" if "p \<le> q" "q \<le> 100" for p q
    using r that by (intro sorted_nth_mono rank_mono) simp_all
  ultimately show ?thesis
    unfolding percentiles_ranks [OF assms] Let_def rank_of_def [symmetric] by simp
qed

lemma percentiles_are_order_statistics_witness:
  "\<exists>p50 p90 p99. percentiles [30, 10, 20] = Some (p50, p90, p99) \<and> p50 \<le> p90 \<and> p90 \<le> p99 \<and>
    order_statistic 1 [30, 10, 20] p50"
  using percentiles_are_order_statistics [of "[30, 10, 20]"] by auto

text \<open>
  The judge's score never exceeds one million and is monotone: with at least the ratio of
  correct replies and at most the p99, a run scores at least as much, whatever the rounding
  of the \<open>float64\<close> operations does.
\<close>

theorem judge_score_monotone:
  assumes "c \<le> n" "c' \<le> n'" "0 < n" "0 < n'" "c * n' \<le> c' * n" "p' \<le> p"
  shows "\<exists>s s'. judge_score (Fin (fl (of_nat c / of_nat n))) p = Fin s \<and>
    judge_score (Fin (fl (of_nat c' / of_nat n'))) p' = Fin s' \<and> s \<le> s' \<and> s' \<le> 1000000"
proof -
  have "(of_nat (c * n') :: rat) \<le> of_nat (c' * n)" using assms(5) by (simp only: of_nat_le_iff)
  then have "(of_nat c / of_nat n :: rat) \<le> of_nat c' / of_nat n'" using assms(3,4) by (simp add: field_simps)
  then have "ratio_rat c n \<le> ratio_rat c' n'" unfolding ratio_rat_def by (rule fl_mono)
  then show ?thesis
    using judge_score_Fin [of "ratio_rat c n" p] judge_score_Fin [of "ratio_rat c' n'" p']
      ratio_rat_unit [OF assms(1)] ratio_rat_unit [OF assms(2)] score_rat_mono [OF _ assms(6)] score_rat_upper
    by (simp add: ratio_rat_def)
qed

lemma judge_score_monotone_witness:
  "\<exists>s s'. judge_score (Fin (fl (of_nat 1 / of_nat 2))) 900 = Fin s \<and>
    judge_score (Fin (fl (of_nat 2 / of_nat 3))) 800 = Fin s' \<and> s \<le> s' \<and> s' \<le> 1000000"
  by (rule judge_score_monotone) simp_all

text \<open>
  Correctness does not dominate the judge's score. A run with every reply correct and a
  p99 of two seconds scores below a run with no correct reply and a p99 of one millisecond.
\<close>

theorem correctness_does_not_dominate:
  "\<exists>a b. summary [sample_metric 0 2000000000 True] = Some a \<and>
    summary [sample_metric 0 1000000 False] = Some b \<and>
    l_CorrectRatio a = Fin 1 \<and> l_CorrectRatio b = Fin 0 \<and>
    l_Score a = Fin (- 1000000) \<and> l_Score b = Fin (- 1000)"
proof -
  have p: "percentiles [v] = Some (v, v, v)" for v
    using percentiles_ranks [of "[v]"] by (simp add: Let_def rank_of_def)
  have l: "latency_us (sample_metric 0 2000000000 True) = 2000000"
    "latency_us (sample_metric 0 1000000 False) = 1000" "timed (sample_metric 0 x b)"
    "m_IsCorrect (sample_metric 0 x b) = b" for x b
    by (simp_all add: latency_us_def sample_metric_def timed_def)
  have "fl (- 1000000) = - 1000000" "fl (- 1000) = - 1000"
    using fl_of_int [of "- 1000000"] fl_of_int [of "- 1000"] by simp_all
  then show ?thesis
    using summary_eq [of "[sample_metric 0 2000000000 True]"] summary_eq [of "[sample_metric 0 1000000 False]"]
    by (auto simp: p l ratio_rat_def score_rat_def)
qed

end
