(* ===== verification/Ingester.thy ===== *)
theory Ingester
  imports Timescale Redis JudgeStats
begin

text \<open>
  cmd/telemetry_ingester/main.go: workers fetch Kafka messages, decode them and hand them to one
  collector over a channel; the collector feeds the aggregator, keeps the raw records and, on a
  tick or a full batch, commits the offsets and flushes to Redis and TimescaleDB. Kafka, the
  protobuf decoder, Redis, the database and the histogram are arguments; what the clock and the
  iteration order of a map give one flush is a \<open>flush_env\<close>.
\<close>

section \<open>Workers\<close>

datatype 'm fetched = FetchErr string | FetchMsg 'm

datatype 'm worker_act = WReturn | WRetry | WCommitBad 'm | WSend metricRecord 'm

text \<open>
  One turn of a worker's loop. A fetch error with a live context waits 250 ms and retries; a
  message that does not decode is committed and dropped; sending waits for room in the channel
  and gives up when the context ends.
\<close>

definition ingest_worker :: "('m \<Rightarrow> string + metricRecord) \<Rightarrow> bool \<Rightarrow> 'm fetched \<Rightarrow> 'm worker_act" where
  "ingest_worker decode ctxDone f =
     (case f of
        FetchErr e \<Rightarrow> if ctxDone then WReturn else WRetry
      | FetchMsg m \<Rightarrow> (case decode m of Inl e \<Rightarrow> WCommitBad m | Inr rec \<Rightarrow> WSend rec m))"

section \<open>The collector\<close>

definition ingest_latency :: "metricRecord \<Rightarrow> u64" where
  "ingest_latency rec =
     (if mr_RecvTimeNs rec \<ge> mr_SentTimeNs rec
      then let latUs = (mr_RecvTimeNs rec - mr_SentTimeNs rec) div 1000 in if latUs = 0 then 1 else latUs
      else 1)"

record ('h, 's, 't) ingest_ops =
  io_H :: "'h hist_ops"
  io_E :: "f64 \<Rightarrow> f64"
  io_srv :: "'s server"
  io_json :: "contestantWindow \<Rightarrow> string"
  io_db :: "metric_row list \<Rightarrow> 't \<Rightarrow> string option list \<times> 't"
  io_window :: int
  io_topN :: int

record flush_env =
  fe_order :: "string list"
  fe_now :: int
  fe_dbnow :: int

definition window_cmds :: "(contestantWindow \<Rightarrow> string) \<Rightarrow> contestantWindow \<Rightarrow> cmd list" where
  "window_cmds json w =
     [CZAdd ''leaderboard'' (w_Score w) (w_ContestantID w),
      CSet (''leaderboard:'' @ w_ContestantID w) (json w),
      CPublish ''leaderboard_updates'' (w_ContestantID w)]"

text \<open>The Redis part of \<open>flush\<close>: one pipeline, then the cut to the top \<open>topN\<close>; errors are logged only.\<close>

definition flush_redis :: "'s server \<Rightarrow> (contestantWindow \<Rightarrow> string) \<Rightarrow> int \<Rightarrow> contestantWindow list \<Rightarrow> 's \<Rightarrow> 's" where
  "flush_redis srv json topN windows s =
     (if length windows > 0
      then let (_, s1) = pipeline srv (concat (map (window_cmds json) windows)) s in
        if topN > 0
        then (case srv (CZCard ''leaderboard'') s1 of (rep, s2) \<Rightarrow>
                (case as_int rep of
                   Inl e \<Rightarrow> s2
                 | Inr n \<Rightarrow> if n > topN
                     then snd (srv (CZRemRangeByRank ''leaderboard'' 0 (n - topN - 1)) s2) else s2))
        else s1
      else s)"

text \<open>\<open>flush\<close>; \<open>None\<close> is the nil dereference \<open>FlushAndReset\<close> could run into.\<close>

definition flush ::
  "('h, 's, 't) ingest_ops \<Rightarrow> flush_env \<Rightarrow> 'h aggregator \<Rightarrow> 's \<Rightarrow> 't \<Rightarrow> metricRecord list \<Rightarrow>
     ('h aggregator \<times> 's \<times> 't \<times> metricRecord list) option" where
  "flush I fe agg s t pending =
     (case FlushAndReset (io_H I) (io_E I) (fe_order fe) (fe_now fe) (io_window I) agg of
        None \<Rightarrow> None
      | Some (agg', windows) \<Rightarrow>
          let s' = flush_redis (io_srv I) (io_json I) (io_topN I) windows s;
              t' = (if length pending > 0 then snd (InsertBatch (io_db I) (fe_dbnow fe) pending t) else t)
          in Some (agg', s', t', []))"

record ('m, 'h, 's, 't) collector =
  cl_agg :: "'h aggregator"
  cl_redis :: 's
  cl_ts :: 't
  cl_pending :: "metricRecord list"
  cl_toCommit :: "'m list"
  cl_committed :: "'m list"

text \<open>
  \<open>CommitMessages\<close> may fail; either way the list is emptied. \<open>cl_committed\<close> is what Kafka has
  been told.
\<close>

definition commit_batch :: "bool \<Rightarrow> ('m, 'h, 's, 't) collector \<Rightarrow> ('m, 'h, 's, 't) collector" where
  "commit_batch ok c =
     (if length (cl_toCommit c) > 0
      then c\<lparr>cl_committed := (if ok then cl_committed c @ cl_toCommit c else cl_committed c), cl_toCommit := []\<rparr>
      else c)"

definition run_flush :: "('h, 's, 't) ingest_ops \<Rightarrow> flush_env \<Rightarrow> ('m, 'h, 's, 't) collector \<Rightarrow> ('m, 'h, 's, 't) collector option" where
  "run_flush I fe c =
     (case flush I fe (cl_agg c) (cl_redis c) (cl_ts c) (cl_pending c) of
        None \<Rightarrow> None
      | Some (agg', s', t', pending') \<Rightarrow> Some (c\<lparr>cl_agg := agg', cl_redis := s', cl_ts := t', cl_pending := pending'\<rparr>))"

definition on_ticker :: "('h, 's, 't) ingest_ops \<Rightarrow> flush_env \<Rightarrow> bool \<Rightarrow> ('m, 'h, 's, 't) collector \<Rightarrow> ('m, 'h, 's, 't) collector option" where
  "on_ticker I fe ok c = run_flush I fe (commit_batch ok c)"

definition pendingCap :: nat where
  "pendingCap = 200000"

definition on_decoded ::
  "('h, 's, 't) ingest_ops \<Rightarrow> flush_env \<Rightarrow> bool \<Rightarrow> metricRecord \<Rightarrow> 'm \<Rightarrow> ('m, 'h, 's, 't) collector \<Rightarrow> ('m, 'h, 's, 't) collector option" where
  "on_decoded I fe ok rec m c =
     (let c1 = c\<lparr>cl_toCommit := cl_toCommit c @ [m]\<rparr>;
          latUs = ingest_latency rec;
          c2 = c1\<lparr>cl_agg := Add (io_H I) (mr_ContestantId rec) latUs (mr_IsCorrect rec) (cl_agg c1),
                  cl_pending := cl_pending c1 @ [rec]\<rparr>
      in if length (cl_pending c2) \<ge> pendingCap then run_flush I fe (commit_batch ok c2) else Some c2)"

text \<open>
  The end: the last commit uses the context that has just ended (\<open>ok\<close> says whether it goes
  through all the same), the last flush a fresh one.
\<close>

definition on_done :: "('h, 's, 't) ingest_ops \<Rightarrow> flush_env \<Rightarrow> bool \<Rightarrow> ('m, 'h, 's, 't) collector \<Rightarrow> ('m, 'h, 's, 't) collector option" where
  "on_done I fe ok c =
     run_flush I fe (if length (cl_toCommit c) > 0
       then c\<lparr>cl_committed := (if ok then cl_committed c @ cl_toCommit c else cl_committed c)\<rparr> else c)"

section \<open>Settings\<close>

text \<open>\<open>string(ch)\<close> of a byte is the UTF-8 encoding of the code point with that number.\<close>

definition byte_string :: "char \<Rightarrow> string" where
  "byte_string c = (let n = of_char c :: nat in
     if n < 128 then [c] else [char_of (192 + n div 64), char_of (128 + n mod 64)])"

fun splitCSV_loop :: "string list \<Rightarrow> string \<Rightarrow> string \<Rightarrow> string list \<times> string" where
  "splitCSV_loop out cur [] = (out, cur)"
| "splitCSV_loop out cur (ch # s) =
     (if ch = CHR '',''
      then (if cur \<noteq> '''' then splitCSV_loop (out @ [cur]) '''' s else splitCSV_loop out cur s)
      else if ch = CHR '' '' \<or> of_char ch \<in> {9, 10, 13 :: nat} then splitCSV_loop out cur s
      else splitCSV_loop out (cur @ byte_string ch) s)"

definition splitCSV :: "string \<Rightarrow> string list" where
  "splitCSV s =
     (let (out, cur) = splitCSV_loop [] '''' s;
          out1 = (if cur \<noteq> '''' then out @ [cur] else out)
      in if length out1 = 0 then [''localhost:9092''] else out1)"

section \<open>The leaderboard in Redis\<close>

text \<open>Scores that are numbers are totally ordered, so a sorted set is a strictly ascending list.\<close>

lemma f_less_trans: "f_less x y \<Longrightarrow> f_less y z \<Longrightarrow> f_less x z"
  by (cases x; cases y; cases z) auto

lemma f_less_total: "x \<noteq> NaN \<Longrightarrow> y \<noteq> NaN \<Longrightarrow> f_less x y \<or> f_less y x \<or> x = y"
  by (cases x; cases y) auto

lemma f_less_irrefl: "\<not> f_less x x"
  by (cases x) auto

definition z_ok :: "(f64 \<times> string) list \<Rightarrow> bool" where
  "z_ok zs \<longleftrightarrow> sorted_wrt z_less zs \<and> (\<forall>z \<in> set zs. fst z \<noteq> NaN) \<and> distinct (map snd zs)"

lemma f_less_asym: "f_less x y \<Longrightarrow> \<not> f_less y x"
  using f_less_trans f_less_irrefl by blast

lemma z_less_iff:
  "fst x \<noteq> NaN \<Longrightarrow> fst y \<noteq> NaN \<Longrightarrow> z_less x y \<longleftrightarrow> f_less (fst x) (fst y) \<or> fst x = fst y \<and> snd x < snd y"
  unfolding z_less_def using f_less_total [of "fst x" "fst y"] f_less_asym [of "fst x" "fst y"] f_less_irrefl
  by metis

lemma z_less_trans:
  assumes "z_less x y" "z_less y z" "fst x \<noteq> NaN" "fst y \<noteq> NaN" "fst z \<noteq> NaN"
  shows "z_less x z"
proof -
  have "f_less (fst x) (fst y) \<or> fst x = fst y \<and> snd x < snd y" "f_less (fst y) (fst z) \<or> fst y = fst z \<and> snd y < snd z"
    using assms z_less_iff by blast+
  then have "f_less (fst x) (fst z) \<or> fst x = fst z \<and> snd x < snd z"
    by (elim disjE conjE) (simp_all add: f_less_trans [of "fst x" "fst y" "fst z"] less_trans [of "snd x" "snd y" "snd z"])
  then show ?thesis using assms(3,5) z_less_iff by blast
qed

lemma z_less_total: "fst x \<noteq> NaN \<Longrightarrow> fst y \<noteq> NaN \<Longrightarrow> snd x \<noteq> snd y \<Longrightarrow> z_less x y \<or> z_less y x"
  using f_less_total [of "fst x" "fst y"] by (auto simp: z_less_def)

lemma set_z_insert [simp]: "set (z_insert x zs) = insert x (set zs)"
  by (induction zs) auto

lemma z_insert_sorted:
  "sorted_wrt z_less zs \<Longrightarrow> \<forall>z \<in> set (x # zs). fst z \<noteq> NaN \<Longrightarrow> snd x \<notin> snd ` set zs \<Longrightarrow> sorted_wrt z_less (z_insert x zs)"
proof (induction zs)
  case (Cons y ys)
  then have s: "sorted_wrt z_less (z_insert x ys)" by simp
  show ?case
  proof (cases "z_less x y")
    case True
    then show ?thesis using Cons.prems z_less_trans [OF True] by auto
  next
    case False
    then have "z_less y x" using z_less_total [of x y] Cons.prems by auto
    then show ?thesis using False s Cons.prems by auto
  qed
qed simp

lemma map_snd_z_insert: "distinct (map snd zs) \<Longrightarrow> snd x \<notin> snd ` set zs \<Longrightarrow> distinct (map snd (z_insert x zs))"
  by (induction zs) auto

lemma z_add_ok: "z_ok zs \<Longrightarrow> q \<noteq> NaN \<Longrightarrow> z_ok (z_add q m zs)"
  unfolding z_ok_def z_add_def
  by (intro conjI z_insert_sorted map_snd_z_insert) (auto simp: sorted_wrt_filter distinct_map_filter)

lemma set_z_add: "set (z_add q m zs) = insert (q, m) {z \<in> set zs. snd z \<noteq> m}"
  by (auto simp: z_add_def)

definition add_windows :: "contestantWindow list \<Rightarrow> (f64 \<times> string) list \<Rightarrow> (f64 \<times> string) list" where
  "add_windows ws zs = fold (\<lambda>w. z_add (w_Score w) (w_ContestantID w)) ws zs"

lemma add_windows_ok: "z_ok zs \<Longrightarrow> \<forall>w \<in> set ws. w_Score w \<noteq> NaN \<Longrightarrow> z_ok (add_windows ws zs)"
  unfolding add_windows_def by (induction ws arbitrary: zs) (auto simp: z_add_ok)

lemma z_add_nonempty [simp]: "z_add q m zs \<noteq> []"
  using set_z_add [of q m zs] by auto

lemma windows_exec:
  assumes "read_zset (st_keys t ''leaderboard'') = Some zs" "\<forall>w \<in> set ws. w_Score w \<noteq> NaN" "distinct (map w_ContestantID ws)"
  shows "\<exists>t'. exec_all (concat (map (window_cmds json) ws)) t = Some t' \<and>
    read_zset (st_keys t' ''leaderboard'') = Some (add_windows ws zs) \<and>
    (\<forall>w \<in> set ws. st_keys t' (''leaderboard:'' @ w_ContestantID w) = Some (VStr (json w))) \<and>
    (\<forall>k. k \<noteq> ''leaderboard'' \<longrightarrow> k \<notin> (\<lambda>w. ''leaderboard:'' @ w_ContestantID w) ` set ws \<longrightarrow> st_keys t' k = st_keys t k) \<and>
    st_published t' = st_published t @ map (\<lambda>w. (''leaderboard_updates'', w_ContestantID w)) ws"
  using assms
proof (induction ws arbitrary: t zs)
  case (Cons w ws)
  let ?k = "''leaderboard:'' @ w_ContestantID w"
  obtain t1 where t1: "exec_all (window_cmds json w) t = Some t1"
    "read_zset (st_keys t1 ''leaderboard'') = Some (z_add (w_Score w) (w_ContestantID w) zs)"
    "st_keys t1 ?k = Some (VStr (json w))"
    "\<forall>k. k \<noteq> ''leaderboard'' \<longrightarrow> k \<noteq> ?k \<longrightarrow> st_keys t1 k = st_keys t k"
    "st_published t1 = st_published t @ [(''leaderboard_updates'', w_ContestantID w)]"
    using Cons.prems(1,2) by (simp add: window_cmds_def)
  from Cons.IH [OF t1(2)] Cons.prems obtain t' where t': "exec_all (concat (map (window_cmds json) ws)) t1 = Some t'"
    "read_zset (st_keys t' ''leaderboard'') = Some (add_windows ws (z_add (w_Score w) (w_ContestantID w) zs))"
    "\<forall>w \<in> set ws. st_keys t' (''leaderboard:'' @ w_ContestantID w) = Some (VStr (json w))"
    "\<forall>k. k \<noteq> ''leaderboard'' \<longrightarrow> k \<notin> (\<lambda>w. ''leaderboard:'' @ w_ContestantID w) ` set ws \<longrightarrow> st_keys t' k = st_keys t1 k"
    "st_published t' = st_published t1 @ map (\<lambda>w. (''leaderboard_updates'', w_ContestantID w)) ws" by auto
  have "?k \<notin> (\<lambda>w. ''leaderboard:'' @ w_ContestantID w) ` set ws" using Cons.prems(3) by auto
  then have "st_keys t' ?k = Some (VStr (json w))" using t'(4) t1(3) by simp
  moreover have "exec_all (concat (map (window_cmds json) (w # ws))) t = Some t'"
    using t1(1) t'(1) by (simp add: exec_all_append)
  ultimately show ?case using t1(4,5) t'(2-5) by (intro exI [of _ t']) (simp add: add_windows_def)
qed (simp add: add_windows_def)

lemma flush_redis_up:
  fixes json :: "contestantWindow \<Rightarrow> string"
  assumes "redis_up srv view" "read_zset (st_keys (view s) ''leaderboard'') = Some zs"
    and "\<forall>w \<in> set ws. w_Score w \<noteq> NaN" "distinct (map w_ContestantID ws)" "0 < topN" "ws \<noteq> []"
  defines "t \<equiv> view (flush_redis srv json topN ws s)" and "all \<equiv> add_windows ws zs"
  shows "read_zset (st_keys t ''leaderboard'') = Some (drop (length all - nat topN) all) \<and>
    (\<forall>w \<in> set ws. st_keys t (''leaderboard:'' @ w_ContestantID w) = Some (VStr (json w))) \<and>
    (\<forall>k. k \<noteq> ''leaderboard'' \<longrightarrow> k \<notin> (\<lambda>w. ''leaderboard:'' @ w_ContestantID w) ` set ws \<longrightarrow> st_keys t k = st_keys (view s) k) \<and>
    st_published t = st_published (view s) @ map (\<lambda>w. (''leaderboard_updates'', w_ContestantID w)) ws"
proof -
  note up = redis_running_up [OF assms(1)]
  let ?cs = "concat (map (window_cmds json) ws)"
  obtain t1 where t1: "exec_all ?cs (view s) = Some t1" "read_zset (st_keys t1 ''leaderboard'') = Some all"
    "(\<forall>w \<in> set ws. st_keys t1 (''leaderboard:'' @ w_ContestantID w) = Some (VStr (json w))) \<and>
     (\<forall>k. k \<noteq> ''leaderboard'' \<longrightarrow> k \<notin> (\<lambda>w. ''leaderboard:'' @ w_ContestantID w) ` set ws \<longrightarrow> st_keys t1 k = st_keys (view s) k) \<and>
     st_published t1 = st_published (view s) @ map (\<lambda>w. (''leaderboard_updates'', w_ContestantID w)) ws"
    using windows_exec [OF assms(2-4), of json] unfolding all_def by blast
  have "\<forall>c \<in> set ?cs. \<not> is_scan c" by (auto simp: window_cmds_def)
  from redis_running.pipeline_runs [OF up t1(1) this] obtain s1 where s1: "pipeline srv ?cs s = (None, s1)" "view s1 = t1" by blast
  have "redis_exec (CZCard ''leaderboard'') (view s1) = Some (RInt (int (length all)), view s1)" using t1(2) s1(2) by simp
  from redis_running.runs [OF up this] obtain s2 where
    s2: "srv (CZCard ''leaderboard'') s1 = (Inr (RInt (int (length all))), s2)" "view s2 = t1" using s1(2) by auto
  have fl: "flush_redis srv json topN ws s = (if int (length all) > topN
      then snd (srv (CZRemRangeByRank ''leaderboard'' 0 (int (length all) - topN - 1)) s2) else s2)"
    using s1(1) s2(1) assms(5,6) by (simp add: flush_redis_def)
  show ?thesis
  proof (cases "int (length all) > topN")
    case False
    then have "t = t1" using fl s2(2) by (simp add: t_def)
    moreover have "length all - nat topN = 0" using False by linarith
    ultimately show ?thesis using t1(2,3) by simp
  next
    case True
    define k where "k = length all - nat topN"
    have k: "0 < k" "k < length all" "int (length all) - topN = int k" using True assms(5) unfolding k_def by linarith+
    have u: "range_upto (length all) (int k - 1) = k" using k unfolding range_upto_def by auto
    have "range_removed all 0 (int (length all) - topN - 1) = drop k all"
      unfolding range_removed_def k(3) u range_from_def using k(1) by simp
    then have "redis_exec (CZRemRangeByRank ''leaderboard'' 0 (int (length all) - topN - 1)) (view s2) =
        Some (RInt (int (length all) - int (length (drop k all))), put ''leaderboard'' (VZset (drop k all)) t1)"
      using t1(2) s2(2) by simp
    from redis_running.effect [OF up this] have t: "t = put ''leaderboard'' (VZset (drop k all)) t1"
      using fl True by (simp add: t_def)
    moreover have "drop k all \<noteq> []" using k by simp
    ultimately show ?thesis using t1(3) by (simp add: k_def [symmetric])
  qed
qed

section \<open>Batches\<close>

text \<open>
  What the collector is told: a tick or a decoded message, each with what a flush it causes would
  get from the clock and the map order, and whether its commit goes through. The batches of a
  sequence of events: the records between two flushes, with the data of the second.
\<close>

datatype 'm event = ETick flush_env bool | EMsg flush_env bool metricRecord 'm

fun collect :: "('h, 's, 't) ingest_ops \<Rightarrow> 'm event \<Rightarrow> ('m, 'h, 's, 't) collector \<Rightarrow> ('m, 'h, 's, 't) collector option" where
  "collect I (ETick fe ok) c = on_ticker I fe ok c"
| "collect I (EMsg fe ok rec m) c = on_decoded I fe ok rec m c"

fun collect_all :: "('h, 's, 't) ingest_ops \<Rightarrow> 'm event list \<Rightarrow> ('m, 'h, 's, 't) collector \<Rightarrow> ('m, 'h, 's, 't) collector option" where
  "collect_all I [] c = Some c"
| "collect_all I (e # es) c = Option.bind (collect I e c) (collect_all I es)"

fun batches :: "metricRecord list \<Rightarrow> 'm event list \<Rightarrow> (flush_env \<times> metricRecord list) list \<times> metricRecord list" where
  "batches cur [] = ([], cur)"
| "batches cur (ETick fe ok # es) = (let (bs, rest) = batches [] es in ((fe, cur) # bs, rest))"
| "batches cur (EMsg fe ok rec m # es) =
     (if length cur + 1 \<ge> pendingCap
      then (let (bs, rest) = batches [] es in ((fe, cur @ [rec]) # bs, rest))
      else batches (cur @ [rec]) es)"

fun records_of :: "'m event list \<Rightarrow> metricRecord list" where
  "records_of [] = []"
| "records_of (ETick fe ok # es) = records_of es"
| "records_of (EMsg fe ok rec m # es) = rec # records_of es"

lemma batches_partition: "batches cur es = (bs, rest) \<Longrightarrow> concat (map snd bs) @ rest = cur @ records_of es"
  by (induction cur es arbitrary: bs rest rule: batches.induct) (auto simp: Let_def split: prod.splits if_splits)

lemma batches_rest: "batches cur es = (bs, rest) \<Longrightarrow> length cur < pendingCap \<Longrightarrow> length rest < pendingCap"
  by (induction cur es arbitrary: bs rest rule: batches.induct) (auto simp: pendingCap_def Let_def split: prod.splits if_splits)

text \<open>One record as the aggregator's call, and its contestant with the default for an empty id.\<close>

definition call_of :: "metricRecord \<Rightarrow> string \<times> u64 \<times> bool" where
  "call_of rec = (mr_ContestantId rec, ingest_latency rec, mr_IsCorrect rec)"

definition contestant_of :: "metricRecord \<Rightarrow> string" where
  "contestant_of rec = (if mr_ContestantId rec = '''' then ''unknown'' else mr_ContestantId rec)"

text \<open>The map's iteration visits every contestant of the batch once.\<close>

definition order_ok :: "flush_env \<times> metricRecord list \<Rightarrow> bool" where
  "order_ok b \<longleftrightarrow> distinct (fe_order (fst b)) \<and> set (fe_order (fst b)) = contestant_of ` set (snd b)"

text \<open>The windows of a batch: one per contestant in it, counting that contestant's records.\<close>

definition batch_windows :: "flush_env \<times> metricRecord list \<Rightarrow> contestantWindow list \<Rightarrow> bool" where
  "batch_windows b ws \<longleftrightarrow> map w_ContestantID ws = fe_order (fst b) \<and>
     (\<forall>w \<in> set ws. let rs = filter (\<lambda>r. contestant_of r = w_ContestantID w) (snd b); lats = map ingest_latency rs in
        rs \<noteq> [] \<and> w_Count w = of_nat (length rs) \<and> w_CorrectCount w = of_nat (length (filter mr_IsCorrect rs)) \<and>
        w_MinUs w = Min (set lats) \<and> w_MaxUs w = Max (set lats))"

lemma ingest_latency_pos [simp]: "ingest_latency rec \<noteq> 0"
  by (simp add: ingest_latency_def Let_def)

lemma samples_call_of:
  "samples_of cid (samples (map call_of rs)) =
     map (\<lambda>r. Sample (contestant_of r) (ingest_latency r) (mr_IsCorrect r)) (filter (\<lambda>r. contestant_of r = cid) rs)"
  by (induction rs) (simp_all add: samples_of_def samples_def call_of_def sample_of_def contestant_of_def)

lemma samples_cids: "s_cid ` set (samples (map call_of rs)) = contestant_of ` set rs"
  by (force simp: samples_def call_of_def sample_of_def contestant_of_def image_iff)

lemma batch_dom:
  "dom (ag_cnt (Add_all H (map call_of rs) (NewAggregatorWithParams t0 win p))) = contestant_of ` set rs"
  using cnt_dom [OF agg_describes_all [OF agg_describes_new, of H "map call_of rs" t0 win p]]
  by (simp add: samples_cids)

lemma batch_flush:
  assumes "order_ok (fe, rs)" "length rs \<le> 2 ^ 53"
  shows "\<exists>ws. FlushAndReset H E (fe_order fe) now nextWindow (Add_all H (map call_of rs) (NewAggregatorWithParams t0 win p))
      = Some (NewAggregatorWithParams now nextWindow p, ws) \<and> batch_windows (fe, rs) ws"
proof -
  let ?a = "Add_all H (map call_of rs) (NewAggregatorWithParams t0 win p)"
  let ?es = "\<lambda>cid. samples_of cid (samples (map call_of rs))"
  let ?rs = "\<lambda>cid. filter (\<lambda>r. contestant_of r = cid) rs"
  have "length (map call_of rs) \<le> 2 ^ 53" "set (fe_order fe) = dom (ag_cnt ?a)"
    using assms by (simp_all add: batch_dom order_ok_def)
  from flush_run [OF this, of E now nextWindow] obtain ws where
    f: "FlushAndReset H E (fe_order fe) now nextWindow ?a = Some (NewAggregatorWithParams now nextWindow p, ws)"
    and l: "list_all2 (\<lambda>cid w. ?es cid \<noteq> [] \<and> length (?es cid) \<le> 2 ^ 53 \<and> key_ok H ?a cid (?es cid) \<and>
      window_of H E ?a cid (of_nat (length (?es cid))) = Some w) (fe_order fe) ws" by blast
  have w: "w_ContestantID w = cid \<and> ?rs cid \<noteq> [] \<and> w_Count w = of_nat (length (?rs cid)) \<and>
      w_CorrectCount w = of_nat (length (filter mr_IsCorrect (?rs cid))) \<and>
      w_MinUs w = Min (set (map ingest_latency (?rs cid))) \<and> w_MaxUs w = Max (set (map ingest_latency (?rs cid)))"
    if h: "?es cid \<noteq> [] \<and> length (?es cid) \<le> 2 ^ 53 \<and> key_ok H ?a cid (?es cid) \<and>
      window_of H E ?a cid (of_nat (length (?es cid))) = Some w" for cid w
    using window_fields(1-5) [of H ?a cid "?es cid" E w] h
    by (simp add: samples_call_of filter_map o_def image_image)
  have "map w_ContestantID ws = fe_order fe" using l w by (induction rule: list_all2_induct) auto
  moreover have "\<forall>x \<in> set ws. ?rs (w_ContestantID x) \<noteq> [] \<and> w_Count x = of_nat (length (?rs (w_ContestantID x))) \<and>
      w_CorrectCount x = of_nat (length (filter mr_IsCorrect (?rs (w_ContestantID x)))) \<and>
      w_MinUs x = Min (set (map ingest_latency (?rs (w_ContestantID x)))) \<and>
      w_MaxUs x = Max (set (map ingest_latency (?rs (w_ContestantID x))))"
    using l w by (induction rule: list_all2_induct) auto
  ultimately show ?thesis using f by (intro exI [of _ ws]) (simp add: batch_windows_def Let_def)
qed

lemma run_flush_batch:
  assumes "order_ok (fe, cl_pending c)" "length (cl_pending c) \<le> 2 ^ 53"
    and "cl_agg c = Add_all (io_H I) (map call_of (cl_pending c)) (NewAggregatorWithParams t0 win p)"
  shows "\<exists>ws. batch_windows (fe, cl_pending c) ws \<and> run_flush I fe c =
    Some (c\<lparr>cl_agg := NewAggregatorWithParams (fe_now fe) (io_window I) p,
      cl_redis := flush_redis (io_srv I) (io_json I) (io_topN I) ws (cl_redis c),
      cl_ts := (if cl_pending c = [] then cl_ts c else snd (InsertBatch (io_db I) (fe_dbnow fe) (cl_pending c) (cl_ts c))),
      cl_pending := []\<rparr>)"
proof -
  obtain ws where "batch_windows (fe, cl_pending c) ws"
    "FlushAndReset (io_H I) (io_E I) (fe_order fe) (fe_now fe) (io_window I) (cl_agg c)
      = Some (NewAggregatorWithParams (fe_now fe) (io_window I) p, ws)"
    using batch_flush [OF assms(1,2)] unfolding assms(3) by blast
  then show ?thesis by (intro exI [of _ ws]) (simp add: run_flush_def flush_def Let_def)
qed

text \<open>What the batches do to the database and to Redis.\<close>

definition store_batches ::
  "(metric_row list \<Rightarrow> 't \<Rightarrow> string option list \<times> 't) \<Rightarrow> (flush_env \<times> metricRecord list) list \<Rightarrow> 't \<Rightarrow> 't" where
  "store_batches db bs t = fold (\<lambda>(fe, rs) t. if rs = [] then t else snd (InsertBatch db (fe_dbnow fe) rs t)) bs t"

definition publish_batches :: "('h, 's, 't) ingest_ops \<Rightarrow> contestantWindow list list \<Rightarrow> 's \<Rightarrow> 's" where
  "publish_batches I wss s = fold (flush_redis (io_srv I) (io_json I) (io_topN I)) wss s"

lemma commit_batch_fields [simp]:
  "cl_agg (commit_batch ok c) = cl_agg c" "cl_redis (commit_batch ok c) = cl_redis c"
  "cl_ts (commit_batch ok c) = cl_ts c" "cl_pending (commit_batch ok c) = cl_pending c"
  by (simp_all add: commit_batch_def)

text \<open>
  The invariant of the collector: the aggregator has been fed with exactly the pending records
  since it was last reset.
\<close>

definition collector_ok :: "('h, 's, 't) ingest_ops \<Rightarrow> scoringParams \<Rightarrow> ('m, 'h, 's, 't) collector \<Rightarrow> bool" where
  "collector_ok I p c \<longleftrightarrow> length (cl_pending c) < pendingCap \<and>
     (\<exists>t0 win. cl_agg c = Add_all (io_H I) (map call_of (cl_pending c)) (NewAggregatorWithParams t0 win p))"

lemma collect_flush:
  assumes "collector_ok I p c \<or> length (cl_pending c) \<le> pendingCap \<and>
      (\<exists>t0 win. cl_agg c = Add_all (io_H I) (map call_of (cl_pending c)) (NewAggregatorWithParams t0 win p))"
    and "order_ok (fe, cl_pending c)"
  shows "\<exists>ws c'. run_flush I fe (commit_batch ok c) = Some c' \<and> collector_ok I p c' \<and> cl_pending c' = [] \<and>
    batch_windows (fe, cl_pending c) ws \<and> cl_redis c' = publish_batches I [ws] (cl_redis c) \<and>
    cl_ts c' = store_batches (io_db I) [(fe, cl_pending c)] (cl_ts c)"
proof -
  obtain t0 win where a: "cl_agg c = Add_all (io_H I) (map call_of (cl_pending c)) (NewAggregatorWithParams t0 win p)"
    and n: "length (cl_pending c) \<le> 2 ^ 53" using assms(1) by (auto simp: collector_ok_def pendingCap_def)
  note run_flush_batch [of fe "commit_batch ok c" I t0 win p, unfolded commit_batch_fields, OF assms(2) n a]
  then obtain ws where b: "batch_windows (fe, cl_pending c) ws" and r: "run_flush I fe (commit_batch ok c) =
    Some ((commit_batch ok c)\<lparr>cl_agg := NewAggregatorWithParams (fe_now fe) (io_window I) p,
      cl_redis := flush_redis (io_srv I) (io_json I) (io_topN I) ws (cl_redis c),
      cl_ts := (if cl_pending c = [] then cl_ts c else snd (InsertBatch (io_db I) (fe_dbnow fe) (cl_pending c) (cl_ts c))),
      cl_pending := []\<rparr>)" by blast
  show ?thesis
    by (rule exI [of _ ws], rule exI, intro conjI, rule r)
      (use b in \<open>auto simp: collector_ok_def pendingCap_def Add_all_def publish_batches_def store_batches_def\<close>)
qed

lemma collect_keep:
  assumes "collector_ok I p c" "length (cl_pending c) + 1 < pendingCap"
  shows "\<exists>c'. on_decoded I fe ok rec m c = Some c' \<and> collector_ok I p c' \<and> cl_pending c' = cl_pending c @ [rec] \<and>
    cl_redis c' = cl_redis c \<and> cl_ts c' = cl_ts c"
proof -
  obtain t0 win where "cl_agg c = Add_all (io_H I) (map call_of (cl_pending c)) (NewAggregatorWithParams t0 win p)"
    using assms(1) by (auto simp: collector_ok_def)
  then have "Add (io_H I) (mr_ContestantId rec) (ingest_latency rec) (mr_IsCorrect rec) (cl_agg c) =
      Add_all (io_H I) (map call_of (cl_pending c @ [rec])) (NewAggregatorWithParams t0 win p)"
    by (simp add: Add_all_def call_of_def)
  then show ?thesis using assms(2) unfolding on_decoded_def collector_ok_def Let_def by auto
qed

lemma collect_full:
  assumes "collector_ok I p c" "length (cl_pending c) + 1 \<ge> pendingCap" "order_ok (fe, cl_pending c @ [rec])"
  shows "\<exists>ws c'. on_decoded I fe ok rec m c = Some c' \<and> collector_ok I p c' \<and> cl_pending c' = [] \<and>
    batch_windows (fe, cl_pending c @ [rec]) ws \<and> cl_redis c' = publish_batches I [ws] (cl_redis c) \<and>
    cl_ts c' = store_batches (io_db I) [(fe, cl_pending c @ [rec])] (cl_ts c)"
proof -
  let ?c2 = "c\<lparr>cl_toCommit := cl_toCommit c @ [m],
    cl_agg := Add (io_H I) (mr_ContestantId rec) (ingest_latency rec) (mr_IsCorrect rec) (cl_agg c),
    cl_pending := cl_pending c @ [rec]\<rparr>"
  obtain t0 win where "cl_agg c = Add_all (io_H I) (map call_of (cl_pending c)) (NewAggregatorWithParams t0 win p)"
    using assms(1) by (auto simp: collector_ok_def)
  then have "cl_agg ?c2 = Add_all (io_H I) (map call_of (cl_pending ?c2)) (NewAggregatorWithParams t0 win p)"
    by (simp add: Add_all_def call_of_def)
  moreover have "length (cl_pending ?c2) \<le> pendingCap" using assms(1) by (simp add: collector_ok_def)
  ultimately show ?thesis
    using collect_flush [of I p ?c2 fe ok] assms(2,3) by (auto simp: on_decoded_def Let_def)
qed

lemma publish_batches_append: "publish_batches I (ws # wss) s = publish_batches I wss (publish_batches I [ws] s)"
  by (simp add: publish_batches_def)

lemma store_batches_append: "store_batches db (b # bs) t = store_batches db bs (store_batches db [b] t)"
  by (simp add: store_batches_def split: prod.split)

lemma collect_all_batches:
  assumes "collector_ok I p c" "batches (cl_pending c) es = (bs, rest)" "\<forall>b \<in> set bs. order_ok b"
  shows "\<exists>c' wss. collect_all I es c = Some c' \<and> collector_ok I p c' \<and> cl_pending c' = rest \<and>
    list_all2 batch_windows bs wss \<and> cl_redis c' = publish_batches I wss (cl_redis c) \<and>
    cl_ts c' = store_batches (io_db I) bs (cl_ts c)"
  using assms
proof (induction es arbitrary: c bs)
  case Nil
  then show ?case by (auto simp: publish_batches_def store_batches_def intro!: exI [of _ "[]"])
next
  case (Cons e es)
  have flushed: ?case if "\<exists>ws c1. collect I e c = Some c1 \<and> collector_ok I p c1 \<and> cl_pending c1 = [] \<and>
      batch_windows b ws \<and> cl_redis c1 = publish_batches I [ws] (cl_redis c) \<and>
      cl_ts c1 = store_batches (io_db I) [b] (cl_ts c)" "batches [] es = (bs', rest)" "bs = b # bs'" for b bs'
  proof -
    from that(1) obtain ws c1 where c1: "collect I e c = Some c1" "collector_ok I p c1" "cl_pending c1 = []" "batch_windows b ws"
      "cl_redis c1 = publish_batches I [ws] (cl_redis c)" "cl_ts c1 = store_batches (io_db I) [b] (cl_ts c)"
      by (elim exE conjE)
    have "batches (cl_pending c1) es = (bs', rest)" "\<forall>b \<in> set bs'. order_ok b" using that c1(3) Cons.prems(3) by simp_all
    from Cons.IH [OF c1(2) this] obtain c' wss where c': "collect_all I es c1 = Some c'" "collector_ok I p c'"
      "cl_pending c' = rest" "list_all2 batch_windows bs' wss" "cl_redis c' = publish_batches I wss (cl_redis c1)"
      "cl_ts c' = store_batches (io_db I) bs' (cl_ts c1)" by blast
    show ?thesis
      by (rule exI [of _ c'], rule exI [of _ "ws # wss"])
        (simp add: c1(1,4) c' that(3) publish_batches_append [of I ws wss] store_batches_append [of _ b bs'] c1(5,6) [symmetric])
  qed
  show ?case
  proof (cases e)
    case (ETick fe ok)
    obtain bs' where b: "batches [] es = (bs', rest)" "bs = (fe, cl_pending c) # bs'"
      using Cons.prems(2) ETick by (auto simp: Let_def split: prod.splits)
    then have "order_ok (fe, cl_pending c)" using Cons.prems(3) by simp
    from collect_flush [OF disjI1 [OF Cons.prems(1)] this, of ok] show ?thesis
      by (intro flushed [OF _ b]) (auto simp: ETick on_ticker_def)
  next
    case (EMsg fe ok rec m)
    show ?thesis
    proof (cases "length (cl_pending c) + 1 \<ge> pendingCap")
      case True
      then obtain bs' where b: "batches [] es = (bs', rest)" "bs = (fe, cl_pending c @ [rec]) # bs'"
        using Cons.prems(2) EMsg by (auto simp: Let_def split: prod.splits)
      then have "order_ok (fe, cl_pending c @ [rec])" using Cons.prems(3) by simp
      from collect_full [OF Cons.prems(1) True this, of ok m] show ?thesis
        by (intro flushed [OF _ b]) (auto simp: EMsg)
    next
      case False
      then obtain c1 where c1: "on_decoded I fe ok rec m c = Some c1" "collector_ok I p c1" "cl_pending c1 = cl_pending c @ [rec]"
        "cl_redis c1 = cl_redis c" "cl_ts c1 = cl_ts c"
        using collect_keep [OF Cons.prems(1)] by (metis not_less)
      then have "batches (cl_pending c1) es = (bs, rest)" using Cons.prems(2) EMsg False by simp
      from Cons.IH [OF c1(2) this Cons.prems(3)] show ?thesis using c1 by (simp add: EMsg)
    qed
  qed
qed

section \<open>Properties\<close>

text \<open>A collector on the reference server and a table of rows, for the witnesses.\<close>

definition demo_ops :: "(int, store, metric_row list) ingest_ops" where
  "demo_ops = \<lparr>io_H = max_hist, io_E = step_exp, io_srv = ref_server [], io_json = (\<lambda>w. ''json''),
     io_db = (\<lambda>rows t. (map (\<lambda>r. None) rows, t @ rows)), io_window = 1000000000, io_topN = 50\<rparr>"

definition start_collector :: "('h, 's, 't) ingest_ops \<Rightarrow> int \<Rightarrow> scoringParams \<Rightarrow> 's \<Rightarrow> 't \<Rightarrow> ('m, 'h, 's, 't) collector" where
  "start_collector I now p s t = \<lparr>cl_agg = NewAggregatorWithParams now (io_window I) p, cl_redis = s, cl_ts = t,
     cl_pending = [], cl_toCommit = [], cl_committed = []\<rparr>"

lemma start_collector_ok: "collector_ok I p (start_collector I now p s t)"
  by (auto simp: collector_ok_def start_collector_def pendingCap_def Add_all_def)

text \<open>
  The collector stores and scores every record exactly once. From its start, for any sequence
  of ticks and messages, it never hits a nil histogram; the records fall into consecutive
  batches, cut at the ticks and at 200000; each batch goes to the database whole and to Redis as
  one window per contestant that counts exactly that contestant's records of the batch; what
  is not flushed yet is pending, less than a full batch.
\<close>

theorem collector_flushes_every_record_once:
  assumes "batches [] es = (bs, rest)" "\<forall>b \<in> set bs. order_ok b"
  shows "\<exists>c wss. collect_all I es (start_collector I now p s t) = Some c \<and>
    concat (map snd bs) @ cl_pending c = records_of es \<and> length (cl_pending c) < 200000 \<and>
    list_all2 batch_windows bs wss \<and> cl_redis c = publish_batches I wss s \<and> cl_ts c = store_batches (io_db I) bs t"
proof -
  have "batches (cl_pending (start_collector I now p s t)) es = (bs, rest)"
    using assms(1) by (simp add: start_collector_def)
  from collect_all_batches [OF start_collector_ok this assms(2)] obtain c wss where c:
    "collect_all I es (start_collector I now p s t) = Some c" "cl_pending c = rest" "list_all2 batch_windows bs wss"
    "cl_redis c = publish_batches I wss s" "cl_ts c = store_batches (io_db I) bs t"
    by (auto simp: start_collector_def)
  have "length rest < pendingCap" by (rule batches_rest [OF assms(1)]) (simp add: pendingCap_def)
  then show ?thesis using c batches_partition [OF assms(1)] by (auto simp: pendingCap_def)
qed

definition demo_fe :: flush_env where
  "demo_fe = \<lparr>fe_order = [''c''], fe_now = 9, fe_dbnow = 9\<rparr>"

lemma collector_flushes_every_record_once_witness:
  "\<exists>c. collect_all demo_ops [EMsg demo_fe True demo_record (), ETick demo_fe True]
      (start_collector demo_ops 5 DefaultScoringParams empty_store []) = Some c \<and>
    cl_pending c = [] \<and> cl_ts c = [metric_row 9 demo_record]"
proof -
  let ?es = "[EMsg demo_fe True demo_record (), ETick demo_fe True]"
  have b: "batches [] ?es = ([(demo_fe, [demo_record])], [])" by (simp add: pendingCap_def)
  have "\<forall>b \<in> set [(demo_fe, [demo_record])]. order_ok b"
    by (simp add: order_ok_def demo_fe_def demo_record_def contestant_of_def)
  from collector_flushes_every_record_once [OF b this, of demo_ops 5 DefaultScoringParams empty_store "[]"]
  show ?thesis by (auto simp: store_batches_def InsertBatch_def demo_ops_def demo_fe_def)
qed

text \<open>
  C26: after a flush the leaderboard holds the best \<open>topN\<close> of what was there and the new windows:
  an ascending list cut at the lower end, so everyone removed ranks below everyone kept, at
  most \<open>topN\<close> entries, one per contestant. The records of all flushed contestants are stored and
  announced, those of contestants cut from the leaderboard included.
\<close>

theorem flush_keeps_the_top:
  assumes "redis_up srv view" "read_zset (st_keys (view s) ''leaderboard'') = Some zs" "z_ok zs"
    and "\<forall>w \<in> set ws. w_Score w \<noteq> NaN" "distinct (map w_ContestantID ws)" "0 < topN" "ws \<noteq> []"
  shows "\<exists>cut kept. add_windows ws zs = cut @ kept \<and> length kept = min (nat topN) (length (add_windows ws zs)) \<and>
    (\<forall>x \<in> set cut. \<forall>y \<in> set kept. z_less x y) \<and> z_ok kept \<and>
    read_zset (st_keys (view (flush_redis srv json topN ws s)) ''leaderboard'') = Some kept \<and>
    (\<forall>w \<in> set ws. st_keys (view (flush_redis srv json topN ws s)) (''leaderboard:'' @ w_ContestantID w) = Some (VStr (json w))) \<and>
    st_published (view (flush_redis srv json topN ws s)) =
      st_published (view s) @ map (\<lambda>w. (''leaderboard_updates'', w_ContestantID w)) ws"
proof -
  let ?all = "add_windows ws zs"
  let ?k = "length ?all - nat topN"
  have split: "?all = take ?k ?all @ drop ?k ?all" by simp
  have ok: "z_ok ?all" by (rule add_windows_ok [OF assms(3,4)])
  then have "sorted_wrt z_less (take ?k ?all @ drop ?k ?all)" by (simp add: z_ok_def)
  then have "\<forall>x \<in> set (take ?k ?all). \<forall>y \<in> set (drop ?k ?all). z_less x y" unfolding sorted_wrt_append by (elim conjE)
  moreover have "z_ok (drop ?k ?all)"
    using ok by (auto simp: z_ok_def sorted_wrt_drop drop_map [symmetric] dest: in_set_dropD)
  moreover have "length (drop ?k ?all) = min (nat topN) (length ?all)" by simp
  ultimately show ?thesis
    using flush_redis_up [OF assms(1,2,4-7), of json] split by blast
qed

definition demo_window :: "string \<Rightarrow> f64 \<Rightarrow> contestantWindow" where
  "demo_window cid score = \<lparr>w_ContestantID = cid, w_WindowStart = 0, w_WindowEnd = 1, w_Count = 1, w_CorrectCount = 1,
     w_CorrectRatio = Fin 1, w_P50Us = 1, w_P90Us = 1, w_P99Us = 1, w_MinUs = 1, w_MaxUs = 1, w_AvgUs = 1,
     w_SustainedTPS = Fin 1, w_Score = score, w_ScoreLatency = Fin 0, w_ScoreThroughput = Fin 0, w_ScoreCorrectness = Fin 0\<rparr>"

lemma flush_keeps_the_top_witness:
  "\<exists>s. flush_redis (ref_server []) (\<lambda>w. w_ContestantID w) 1 [demo_window ''a'' (Fin 2), demo_window ''b'' (Fin 1)] empty_store = s \<and>
     read_zset (st_keys s ''leaderboard'') = Some [(Fin 2, ''a'')] \<and> st_keys s ''leaderboard:b'' = Some (VStr ''b'')"
proof -
  let ?ws = "[demo_window ''a'' (Fin 2), demo_window ''b'' (Fin 1)]"
  have h: "read_zset (st_keys (id empty_store) ''leaderboard'') = Some []" "z_ok []" "\<forall>w \<in> set ?ws. w_Score w \<noteq> NaN"
    "distinct (map w_ContestantID ?ws)" "(0 :: int) < 1" "?ws \<noteq> []"
    by (simp_all add: empty_store_def z_ok_def demo_window_def)
  have a: "add_windows ?ws [] = [(Fin 1, ''b''), (Fin 2, ''a'')]"
    by (simp add: add_windows_def demo_window_def z_add_def z_less_def)
  from flush_keeps_the_top [OF ref_server_up [of "[]"] h, of "\<lambda>w. w_ContestantID w"]
  obtain cut kept where k: "add_windows ?ws [] = cut @ kept" "length kept = min (nat 1) (length (add_windows ?ws []))"
    "read_zset (st_keys (id (flush_redis (ref_server []) (\<lambda>w. w_ContestantID w) 1 ?ws empty_store)) ''leaderboard'') = Some kept"
    "\<forall>w \<in> set ?ws. st_keys (id (flush_redis (ref_server []) (\<lambda>w. w_ContestantID w) 1 ?ws empty_store))
       (''leaderboard:'' @ w_ContestantID w) = Some (VStr (w_ContestantID w))"
    by (elim exE conjE)
  have "kept = [(Fin 2, ''a'')]" using k(1,2) unfolding a by (cases cut; cases kept) (auto simp: append_eq_Cons_conv)
  then show ?thesis using k(3,4) by (simp add: demo_window_def)
qed

lemma ingest_latency_of_metric: "ingest_latency (metric_record m) = (if timed m then latency_us m else 1)"
  by (simp add: ingest_latency_def metric_record_def timed_def latency_us_def Let_def)

lemma metric_record_fields [simp]:
  "mr_ContestantId (metric_record m) = m_ContestantID m" "mr_IsCorrect (metric_record m) = m_IsCorrect m"
  by (simp_all add: metric_record_def)

text \<open>
  The ingester and the judge measure a metric alike as long as the receipt is not before the
  sending; a metric whose receipt is earlier (an order without an answer, or a clock set back)
  has no latency for the judge, but counts as 1 microsecond, the best there is, in the window
  behind the leaderboard.
\<close>

theorem ingest_latency_vs_judge:
  "ingest_latency (metric_record m) = (if timed m then latency_us m else 1) \<and>
   t_latencies (count_metric m empty_tally) = (if timed m then [latency_us m] else [])"
  by (simp add: ingest_latency_of_metric count_metric_fields empty_tally_def)

section \<open>Splitting lists of brokers\<close>

definition csv_space :: "char \<Rightarrow> bool" where
  "csv_space c \<longleftrightarrow> c = CHR '' '' \<or> of_char c \<in> {9, 10, 13 :: nat}"

lemma splitCSV_loop_spec:
  assumes "\<forall>c \<in> set s. of_char c < (128 :: nat)"
  shows "(case splitCSV_loop out cur s of (out', cur') \<Rightarrow> if cur' \<noteq> '''' then out' @ [cur'] else out') =
    out @ filter (\<lambda>p. p \<noteq> '''') ((cur @ filter (\<lambda>c. \<not> csv_space c) (hd (split_on (CHR '','') s))) #
      map (filter (\<lambda>c. \<not> csv_space c)) (tl (split_on (CHR '','') s)))"
  using assms
proof (induction s arbitrary: out cur)
  case (Cons c s)
  obtain p ps where p: "split_on (CHR '','') s = p # ps" using split_on_nonempty by (metis list.exhaust)
  show ?case
  proof (cases "c = CHR '',''")
    case True
    then show ?thesis using Cons p by auto
  next
    case False
    have "byte_string c = [c]" using Cons.prems by (simp add: byte_string_def)
    then show ?thesis using Cons p False by (auto simp: csv_space_def)
  qed
qed simp

lemma splitCSV_eq:
  assumes "\<forall>c \<in> set s. of_char c < (128 :: nat)"
  shows "splitCSV s = (let ps = filter (\<lambda>p. p \<noteq> '''') (map (filter (\<lambda>c. \<not> csv_space c)) (split_on (CHR '','') s))
    in if ps = [] then [''localhost:9092''] else ps)"
proof -
  let ?f = "filter (\<lambda>c. \<not> csv_space c)"
  obtain out cur where l: "splitCSV_loop [] '''' s = (out, cur)" by fastforce
  have "map ?f (split_on (CHR '','') s) = ?f (hd (split_on (CHR '','') s)) # map ?f (tl (split_on (CHR '','') s))"
    by (metis list.collapse list.simps(9) split_on_nonempty)
  then have "(if cur \<noteq> '''' then out @ [cur] else out) = filter (\<lambda>p. p \<noteq> '''') (map ?f (split_on (CHR '','') s))"
    using splitCSV_loop_spec [OF assms, of "[]" "''''"] l by simp
  then show ?thesis by (simp add: splitCSV_def l Let_def)
qed

text \<open>
  The two routines that split a list of brokers agree: on ASCII text whose entries have no
  white space inside, the ingester's byte loop gives the entries the producer's
  \<open>BrokersFromCSV\<close> gives, and the local default when there are none.
\<close>

theorem splitCSV_agrees:
  assumes "\<forall>c \<in> set s. of_char c < (128 :: nat)"
    and "\<forall>p \<in> set (split_on (CHR '','') s). filter (\<lambda>c. \<not> csv_space c) p = TrimSpace p"
  shows "splitCSV s = (if BrokersFromCSV s = [] then [''localhost:9092''] else BrokersFromCSV s)"
proof -
  have "map (filter (\<lambda>c. \<not> csv_space c)) (split_on (CHR '','') s) = map TrimSpace (split_on (CHR '','') s)"
    using assms(2) by simp
  then show ?thesis unfolding splitCSV_eq [OF assms(1)] BrokersFromCSV_eq Let_def by (simp only:)
qed

lemma splitCSV_agrees_witness: "splitCSV ''a:1, b:2'' = [''a:1'', ''b:2'']"
proof -
  have "\<forall>c \<in> set ''a:1, b:2''. of_char c < (128 :: nat)" by simp
  moreover have "\<forall>p \<in> set (split_on (CHR '','') ''a:1, b:2''). filter (\<lambda>c. \<not> csv_space c) p = TrimSpace p"
    by (simp add: csv_space_def TrimSpace_def is_space_def)
  moreover have "BrokersFromCSV ''a:1, b:2'' = [''a:1'', ''b:2'']" by code_simp
  ultimately show ?thesis using splitCSV_agrees [of "''a:1, b:2''"] by simp
qed

text \<open>With white space inside an entry they differ: one drops it, the other keeps it.\<close>

lemma splitCSV_differs: "splitCSV ''a b'' = [''ab''] \<and> BrokersFromCSV ''a b'' = [''a b'']"
  by code_simp

end
