(* ===== verification/Sandbox.thy ===== *)
theory Sandbox
  imports GoText "HOL-Library.Char_ord"
begin

text \<open>
  internal/sandbox/docker.go and the commands of cmd/sandbox_manager. The Docker client library
  and the daemon behind it are an argument: \<open>'d\<close> is the daemon's state and \<open>docker_ops\<close> the
  calls the program makes, each returning an error (\<open>Inl\<close>) or its result.
\<close>

section \<open>Sizes\<close>

definition ParseBytes :: "string \<Rightarrow> string + int" where
  "ParseBytes s0 =
     (let s = TrimSpace (ToLower s0) in
      if s = '''' then Inl ''empty size''
      else let c = last s in
        case (if c < CHR ''0'' \<or> c > CHR ''9''
              then if c = CHR ''k'' then Inr (1024, butlast s)
                   else if c = CHR ''m'' then Inr (1024 * 1024, butlast s)
                   else if c = CHR ''g'' then Inr (1024 * 1024 * 1024, butlast s)
                   else Inl (''unknown suffix: '' @ [c])
              else Inr (1, s)) of
          Inl e \<Rightarrow> Inl e
        | Inr (mult, body) \<Rightarrow>
            (case ParseInt body of None \<Rightarrow> Inl ''strconv.ParseInt''
             | Some n \<Rightarrow> Inr (int64_wrap (n * mult))))"

definition WithTimeout :: "int \<Rightarrow> int" where
  "WithTimeout d = (if d \<le> 0 then 30 * 1000000000 else d)"

section \<open>The Docker client\<close>

record portBinding =
  pb_HostIP :: string
  pb_HostPort :: string

record containerSpec =
  cs_Name :: string
  cs_Image :: string
  cs_Env :: "string list"
  cs_ExposedPorts :: "string list"
  cs_PortBindings :: "(string \<times> portBinding list) list"
  cs_ReadonlyRootfs :: bool
  cs_Memory :: int
  cs_MemorySwap :: int
  cs_NanoCPUs :: int
  cs_CpusetCpus :: string
  cs_PidsLimit :: int
  cs_AutoRemove :: bool
  cs_SecurityOpt :: "string list"
  cs_CapDrop :: "string list"
  cs_Tmpfs :: "(string \<times> string) list"
  cs_Networks :: "string list"

record networkSpec =
  ns_Name :: string
  ns_Driver :: string
  ns_Internal :: bool
  ns_Attachable :: bool

record 'd docker_ops =
  dk_New :: "string option"
  dk_Ping :: "'d \<Rightarrow> string option \<times> 'd"
  dk_NetworkList :: "string \<Rightarrow> 'd \<Rightarrow> (string + string list) \<times> 'd"
  dk_NetworkCreate :: "networkSpec \<Rightarrow> 'd \<Rightarrow> (string + string) \<times> 'd"
  dk_ContainerCreate :: "containerSpec \<Rightarrow> 'd \<Rightarrow> (string + string) \<times> 'd"
  dk_ContainerStart :: "string \<Rightarrow> 'd \<Rightarrow> string option \<times> 'd"
  dk_ContainerStop :: "string \<Rightarrow> int \<Rightarrow> 'd \<Rightarrow> string option \<times> 'd"
  dk_ContainerRemove :: "string \<Rightarrow> bool \<Rightarrow> 'd \<Rightarrow> string option \<times> 'd"
  dk_ImageBuild :: "nat list \<Rightarrow> string \<Rightarrow> 'd \<Rightarrow> string option \<times> 'd"

definition EnsureInternalNetwork :: "'d docker_ops \<Rightarrow> string \<Rightarrow> 'd \<Rightarrow> (string + string) \<times> 'd" where
  "EnsureInternalNetwork D name0 d =
     (let name = (if name0 = '''' then ''iicpc_internal'' else name0) in
      case dk_NetworkList D name d of
        (Inl e, d1) \<Rightarrow> (Inl e, d1)
      | (Inr nets, d1) \<Rightarrow>
          if length nets > 0 then (Inr (nets ! 0), d1)
          else (case dk_NetworkCreate D \<lparr>ns_Name = name, ns_Driver = ''bridge'', ns_Internal = True, ns_Attachable = True\<rparr> d1 of
                  (Inl e, d2) \<Rightarrow> (Inl e, d2)
                | (Inr i, d2) \<Rightarrow> (Inr i, d2)))"

record runOptions =
  ro_Image :: string
  ro_ContainerName :: string
  ro_NetworkName :: string
  ro_HostPort :: int
  ro_ContainerPort :: int
  ro_MemoryBytes :: int
  ro_NanoCPUs :: int
  ro_CpusetCpus :: string
  ro_PidsLimit :: int
  ro_ReadonlyRootfs :: bool
  ro_NoNewPrivileges :: bool
  ro_DropAllCaps :: bool
  ro_Env :: "string list"

definition sandbox_defaults :: "runOptions \<Rightarrow> runOptions" where
  "sandbox_defaults opt =
     (let containerPort = (if ro_ContainerPort opt = 0 then 50051 else ro_ContainerPort opt)
      in opt\<lparr>ro_NetworkName := (if ro_NetworkName opt = '''' then ''iicpc_internal'' else ro_NetworkName opt),
        ro_ContainerPort := containerPort,
        ro_HostPort := (if ro_HostPort opt = 0 then containerPort else ro_HostPort opt),
        ro_MemoryBytes := (if ro_MemoryBytes opt = 0 then 512 * 1024 * 1024 else ro_MemoryBytes opt),
        ro_NanoCPUs := (if ro_NanoCPUs opt = 0 then 1000000000 else ro_NanoCPUs opt),
        ro_PidsLimit := (if ro_PidsLimit opt = 0 then 20 else ro_PidsLimit opt),
        ro_ReadonlyRootfs := (if \<not> ro_ReadonlyRootfs opt then True else ro_ReadonlyRootfs opt),
        ro_NoNewPrivileges := (if \<not> ro_NoNewPrivileges opt then True else ro_NoNewPrivileges opt),
        ro_DropAllCaps := (if \<not> ro_DropAllCaps opt then True else ro_DropAllCaps opt)\<rparr>)"

definition container_spec :: "runOptions \<Rightarrow> containerSpec" where
  "container_spec opt =
     (let portKey = show_int (ro_ContainerPort opt) @ ''/tcp'' in
      \<lparr>cs_Name = ro_ContainerName opt, cs_Image = ro_Image opt, cs_Env = ro_Env opt, cs_ExposedPorts = [portKey],
       cs_PortBindings = [(portKey, [\<lparr>pb_HostIP = ''127.0.0.1'', pb_HostPort = show_int (ro_HostPort opt)\<rparr>])],
       cs_ReadonlyRootfs = ro_ReadonlyRootfs opt, cs_Memory = ro_MemoryBytes opt, cs_MemorySwap = 0,
       cs_NanoCPUs = ro_NanoCPUs opt, cs_CpusetCpus = ro_CpusetCpus opt, cs_PidsLimit = ro_PidsLimit opt,
       cs_AutoRemove = True,
       cs_SecurityOpt = (if ro_NoNewPrivileges opt then [''no-new-privileges'', ''seccomp=unconfined''] else []),
       cs_CapDrop = (if ro_DropAllCaps opt then [''ALL''] else []),
       cs_Tmpfs = [(''/tmp'', ''rw,noexec,nosuid,size=64m'')],
       cs_Networks = [ro_NetworkName opt]\<rparr>)"

definition RunSandbox :: "'d docker_ops \<Rightarrow> runOptions \<Rightarrow> 'd \<Rightarrow> (string + string \<times> string) \<times> 'd" where
  "RunSandbox D opt0 d =
     (if ro_Image opt0 = '''' then (Inl ''image is required'', d)
      else let opt = sandbox_defaults opt0 in
        case dk_ContainerCreate D (container_spec opt) d of
          (Inl e, d1) \<Rightarrow> (Inl e, d1)
        | (Inr cid, d1) \<Rightarrow>
            (case dk_ContainerStart D cid d1 of
               (Some e, d2) \<Rightarrow> (let (_, d3) = dk_ContainerRemove D cid True d2 in (Inl e, d3))
             | (None, d2) \<Rightarrow> (Inr (cid, ''127.0.0.1:'' @ show_int (ro_HostPort opt)), d2)))"

definition StopAndRemove :: "'d docker_ops \<Rightarrow> string \<Rightarrow> 'd \<Rightarrow> 'd" where
  "StopAndRemove D cid d =
     (let (_, d1) = dk_ContainerStop D cid 5 d; (_, d2) = dk_ContainerRemove D cid True d1 in d2)"

section \<open>Building an image\<close>

text \<open>
  \<open>tarDir\<close> writes one entry per file of the directory walk through a \<open>tar.Writer\<close> into a buffer
  and returns a reader on the bytes the buffer holds at that moment; the deferred \<open>Close\<close> of
  the writer runs after that. The writer: \<open>WriteHeader\<close> first pads the previous file to a
  multiple of 512 bytes, then writes the header block(s), given by \<open>hdr\<close>; \<open>Close\<close> pads the
  last file and writes the two zero blocks that end an archive. A file's size in the header is
  that of the content copied. A walk is the list of what \<open>WalkDir\<close> hands to its callback.
\<close>

datatype walk = WalkErr string | IsDir | File string "nat list"

record tar_writer =
  tw_buf :: "nat list"
  tw_pad :: nat

definition tar_WriteHeader :: "(string \<Rightarrow> nat \<Rightarrow> nat list) \<Rightarrow> string \<Rightarrow> nat \<Rightarrow> tar_writer \<Rightarrow> tar_writer" where
  "tar_WriteHeader hdr rel sz tw =
     \<lparr>tw_buf = tw_buf tw @ replicate (tw_pad tw) 0 @ hdr rel sz,
      tw_pad = (512 - sz mod 512) mod 512\<rparr>"

definition tar_Write :: "nat list \<Rightarrow> tar_writer \<Rightarrow> tar_writer" where
  "tar_Write bs tw = tw\<lparr>tw_buf := tw_buf tw @ bs\<rparr>"

definition tar_Close :: "tar_writer \<Rightarrow> tar_writer" where
  "tar_Close tw = \<lparr>tw_buf = tw_buf tw @ replicate (tw_pad tw) 0 @ replicate 1024 0, tw_pad = 0\<rparr>"

fun tar_walk :: "(string \<Rightarrow> nat \<Rightarrow> nat list) \<Rightarrow> walk list \<Rightarrow> tar_writer \<Rightarrow> string + tar_writer" where
  "tar_walk hdr [] tw = Inr tw"
| "tar_walk hdr (WalkErr e # ws) tw = Inl e"
| "tar_walk hdr (IsDir # ws) tw = tar_walk hdr ws tw"
| "tar_walk hdr (File rel bs # ws) tw = tar_walk hdr ws (tar_Write bs (tar_WriteHeader hdr rel (length bs) tw))"

definition tar_empty :: tar_writer where
  "tar_empty = \<lparr>tw_buf = [], tw_pad = 0\<rparr>"

definition tarDir :: "(string \<Rightarrow> nat \<Rightarrow> nat list) \<Rightarrow> walk list \<Rightarrow> string + nat list" where
  "tarDir hdr ws =
     (case tar_walk hdr ws tar_empty of Inl e \<Rightarrow> Inl e | Inr tw \<Rightarrow> let body = tw_buf tw in Inr body)"

definition BuildImage ::
  "'d docker_ops \<Rightarrow> (string \<Rightarrow> nat \<Rightarrow> nat list) \<Rightarrow> (string \<Rightarrow> walk list) \<Rightarrow> string \<Rightarrow> string \<Rightarrow> 'd \<Rightarrow> string option \<times> 'd" where
  "BuildImage D hdr fs contextDir tag d =
     (if contextDir = '''' then (Some ''contextDir is required'', d)
      else if tag = '''' then (Some ''tag is required'', d)
      else case tarDir hdr (fs contextDir) of
        Inl e \<Rightarrow> (Some e, d)
      | Inr body \<Rightarrow> dk_ImageBuild D body tag d)"

section \<open>The command line\<close>

text \<open>
  Each command of sandbox_manager after flag parsing: the exit code, 0 when it returns
  normally. \<open>dk_New\<close> is the error of constructing the client, which \<open>mustClient\<close> exits on.
\<close>

definition netCmd :: "'d docker_ops \<Rightarrow> string \<Rightarrow> 'd \<Rightarrow> int \<times> 'd" where
  "netCmd D name d =
     (case dk_New D of Some e \<Rightarrow> (1, d) | None \<Rightarrow>
        case dk_Ping D d of (Some e, d1) \<Rightarrow> (1, d1)
      | (None, d1) \<Rightarrow> (case EnsureInternalNetwork D name d1 of (Inl e, d2) \<Rightarrow> (1, d2) | (Inr i, d2) \<Rightarrow> (0, d2)))"

definition buildCmd ::
  "'d docker_ops \<Rightarrow> (string \<Rightarrow> nat \<Rightarrow> nat list) \<Rightarrow> (string \<Rightarrow> walk list) \<Rightarrow> string \<Rightarrow> string \<Rightarrow> 'd \<Rightarrow> int \<times> 'd" where
  "buildCmd D hdr fs contextDir tag d =
     (case dk_New D of Some e \<Rightarrow> (1, d) | None \<Rightarrow>
        case dk_Ping D d of (Some e, d1) \<Rightarrow> (1, d1)
      | (None, d1) \<Rightarrow> (case BuildImage D hdr fs contextDir tag d1 of (Some e, d2) \<Rightarrow> (1, d2) | (None, d2) \<Rightarrow> (0, d2)))"

record run_flags =
  rf_image :: string
  rf_network :: string
  rf_name :: string
  rf_hostPort :: int
  rf_containerPort :: int
  rf_mem :: string
  rf_cpus :: int
  rf_cpuset :: string
  rf_pids :: int

definition run_flag_options :: "run_flags \<Rightarrow> int \<Rightarrow> runOptions" where
  "run_flag_options fl memBytes =
     \<lparr>ro_Image = rf_image fl, ro_ContainerName = rf_name fl, ro_NetworkName = rf_network fl,
      ro_HostPort = rf_hostPort fl, ro_ContainerPort = rf_containerPort fl, ro_MemoryBytes = memBytes,
      ro_NanoCPUs = int64_wrap (rf_cpus fl * 1000000000), ro_CpusetCpus = rf_cpuset fl, ro_PidsLimit = rf_pids fl,
      ro_ReadonlyRootfs = True, ro_NoNewPrivileges = True, ro_DropAllCaps = True, ro_Env = []\<rparr>"

definition runCmd :: "'d docker_ops \<Rightarrow> run_flags \<Rightarrow> 'd \<Rightarrow> int \<times> 'd" where
  "runCmd D fl d =
     (case ParseBytes (rf_mem fl) of Inl e \<Rightarrow> (2, d)
      | Inr memBytes \<Rightarrow>
        (case dk_New D of Some e \<Rightarrow> (1, d) | None \<Rightarrow>
         case dk_Ping D d of (Some e, d1) \<Rightarrow> (1, d1)
         | (None, d1) \<Rightarrow>
           (case EnsureInternalNetwork D (rf_network fl) d1 of (Inl e, d2) \<Rightarrow> (1, d2)
            | (Inr i, d2) \<Rightarrow>
              (case RunSandbox D (run_flag_options fl memBytes) d2 of
                 (Inl e, d3) \<Rightarrow> (1, d3) | (Inr r, d3) \<Rightarrow> (0, d3)))))"

text \<open>
  The command line: the subcommand and its flags, parsed by the library, which exits with code 2
  on bad ones (\<open>None\<close>).
\<close>

record flag_parsers =
  fp_net :: "string list \<Rightarrow> string option"
  fp_build :: "string list \<Rightarrow> (string \<times> string) option"
  fp_run :: "string list \<Rightarrow> run_flags option"

definition sandbox_main ::
  "'d docker_ops \<Rightarrow> (string \<Rightarrow> nat \<Rightarrow> nat list) \<Rightarrow> (string \<Rightarrow> walk list) \<Rightarrow> flag_parsers \<Rightarrow> string list \<Rightarrow> 'd \<Rightarrow> int \<times> 'd" where
  "sandbox_main D hdr fs fp args d =
     (case args of [] \<Rightarrow> (2, d)
      | command # rest \<Rightarrow>
          if command = ''net''
          then (case fp_net fp rest of None \<Rightarrow> (2, d) | Some name \<Rightarrow> netCmd D name d)
          else if command = ''build''
          then (case fp_build fp rest of None \<Rightarrow> (2, d) | Some (contextDir, tag) \<Rightarrow> buildCmd D hdr fs contextDir tag d)
          else if command = ''run''
          then (case fp_run fp rest of None \<Rightarrow> (2, d) | Some f \<Rightarrow> runCmd D f d)
          else (2, d))"

lemma sandbox_main_codes: "fst (sandbox_main D hdr fs fp args d) \<in> {0, 1, 2}"
  by (simp add: sandbox_main_def netCmd_def buildCmd_def runCmd_def split: option.split prod.split sum.split list.split)

section \<open>Lemmas\<close>

lemma ToLower_lower: "\<forall>c \<in> set s. lower_char c = c \<Longrightarrow> ToLower s = s"
  by (simp add: ToLower_def map_idI)

lemma digit_facts:
  assumes "digit_val c \<noteq> None"
  shows "lower_char c = c" "\<not> is_space c" "\<not> (c < CHR ''0'' \<or> c > CHR ''9'')"
  using assms by (auto simp: digit_val_def lower_char_def is_space_def less_char_def Let_def split: if_splits)

lemma show_nat_last: "digit_val (last (show_nat n)) \<noteq> None"
  using show_nat_digits [of "last (show_nat n)" n] by (simp add: last_in_set)

text \<open>Sizes as people write them: digits, then possibly one of the three unit letters.\<close>

definition unit_mult :: "char \<Rightarrow> int option" where
  "unit_mult c = (if c = CHR ''k'' then Some 1024 else if c = CHR ''m'' then Some (1024 * 1024)
     else if c = CHR ''g'' then Some (1024 * 1024 * 1024) else None)"

lemma unit_char:
  assumes "unit_mult c = Some k"
  shows "lower_char c = c" "\<not> is_space c" "c < CHR ''0'' \<or> c > CHR ''9''"
  using assms by (auto simp: unit_mult_def lower_char_def is_space_def split: if_splits)

lemma ParseBytes_unit:
  assumes "int n < 2 ^ 63" "unit_mult c = Some k"
  shows "ParseBytes (show_nat n @ [c]) = Inr (int64_wrap (int n * k))"
proof -
  have d: "\<forall>x \<in> set (show_nat n @ [c]). lower_char x = x \<and> \<not> is_space x"
    using digit_facts show_nat_digits unit_char [OF assms(2)] by auto
  then have "TrimSpace (ToLower (show_nat n @ [c])) = show_nat n @ [c]"
    using ToLower_lower [of "show_nat n @ [c]"] TrimSpace_id [of "show_nat n @ [c]"] by simp
  then show ?thesis
    using unit_char(3) [OF assms(2)] assms by (auto simp: ParseBytes_def Let_def unit_mult_def split: if_splits)
qed

lemma ParseBytes_plain:
  assumes "int n < 2 ^ 63"
  shows "ParseBytes (show_nat n) = Inr (int n)"
proof -
  have "\<forall>x \<in> set (show_nat n). lower_char x = x \<and> \<not> is_space x"
    using digit_facts show_nat_digits by blast
  then have "TrimSpace (ToLower (show_nat n)) = show_nat n"
    using ToLower_lower [of "show_nat n"] TrimSpace_id [of "show_nat n"] by simp
  moreover have "in_int64 (int n)" using assms by (simp add: in_int64_def)
  ultimately show ?thesis
    using digit_facts(3) [OF show_nat_last [of n]] assms by (simp add: ParseBytes_def Let_def)
qed

lemma sandbox_defaults_hardened:
  "ro_ReadonlyRootfs (sandbox_defaults opt)" "ro_NoNewPrivileges (sandbox_defaults opt)"
  "ro_DropAllCaps (sandbox_defaults opt)" "ro_MemoryBytes (sandbox_defaults opt) \<noteq> 0"
  "ro_NanoCPUs (sandbox_defaults opt) \<noteq> 0" "ro_PidsLimit (sandbox_defaults opt) \<noteq> 0"
  "ro_Image (sandbox_defaults opt) = ro_Image opt" "ro_ContainerName (sandbox_defaults opt) = ro_ContainerName opt"
  "ro_NetworkName (sandbox_defaults opt) \<noteq> ''''" "ro_HostPort (sandbox_defaults opt) \<noteq> 0"
  "ro_MemoryBytes opt \<noteq> 0 \<Longrightarrow> ro_MemoryBytes (sandbox_defaults opt) = ro_MemoryBytes opt"
  "ro_MemoryBytes opt = 0 \<Longrightarrow> ro_MemoryBytes (sandbox_defaults opt) = 512 * 1024 * 1024"
  by (simp_all add: sandbox_defaults_def Let_def)

text \<open>
  The complete archive of a walk's files: each header with its content padded to a multiple
  of 512 bytes, then two zero blocks. The writer with its padding done holds all but the end.
\<close>

definition padded :: "nat list \<Rightarrow> nat list" where
  "padded bs = bs @ replicate ((512 - length bs mod 512) mod 512) 0"

fun tar_entries :: "(string \<Rightarrow> nat \<Rightarrow> nat list) \<Rightarrow> walk list \<Rightarrow> nat list" where
  "tar_entries hdr [] = []"
| "tar_entries hdr (File rel bs # ws) = hdr rel (length bs) @ padded bs @ tar_entries hdr ws"
| "tar_entries hdr (w # ws) = tar_entries hdr ws"

definition tar_archive :: "(string \<Rightarrow> nat \<Rightarrow> nat list) \<Rightarrow> walk list \<Rightarrow> nat list" where
  "tar_archive hdr ws = tar_entries hdr ws @ replicate 1024 0"

lemma tar_walk_entries:
  "tar_walk hdr ws tw = Inr tw' \<Longrightarrow>
   tw_buf tw' @ replicate (tw_pad tw') 0 = tw_buf tw @ replicate (tw_pad tw) 0 @ tar_entries hdr ws"
  by (induction hdr ws tw rule: tar_walk.induct)
    (auto simp: tar_Write_def tar_WriteHeader_def padded_def)

lemma tar_closed: "tar_walk hdr ws tar_empty = Inr tw \<Longrightarrow> tw_buf (tar_Close tw) = tar_archive hdr ws"
  using tar_walk_entries [of hdr ws tar_empty tw] by (simp add: tar_Close_def tar_archive_def tar_empty_def)

lemma tar_walk_pad: "tar_walk hdr ws tw = Inr tw' \<Longrightarrow> tw_pad tw < 512 \<Longrightarrow> tw_pad tw' < 512"
  by (induction hdr ws tw rule: tar_walk.induct) (auto simp: tar_Write_def tar_WriteHeader_def)

text \<open>
  What is used of the daemon, in two views of its state. \<open>alive\<close> are the containers of this
  client that exist. \<open>errored\<close> is a history: the containers that some create or forced remove
  answered with an error was about. The law says only what the API documents. The client's
  error can be a timeout or a cancelled context, so it tells nothing about the container: a
  create that fails may have made one, and a forced remove that fails may leave it; both enter
  the history. A create that succeeds gives an id never used before, and a forced remove that
  succeeds leaves the container gone. With \<open>AutoRemove\<close> the daemon also removes a container by
  itself once it has exited, at any time, so no call is claimed to keep containers alive, only
  to make none.
\<close>

definition makes_no_container :: "('d \<Rightarrow> string set) \<Rightarrow> ('d \<Rightarrow> string set) \<Rightarrow> 'd \<Rightarrow> 'd \<Rightarrow> bool" where
  "makes_no_container alive errored d d' \<longleftrightarrow> alive d' \<subseteq> alive d \<and> errored d' = errored d"

definition docker_law :: "'d docker_ops \<Rightarrow> ('d \<Rightarrow> string set) \<Rightarrow> ('d \<Rightarrow> string set) \<Rightarrow> bool" where
  "docker_law D alive errored \<longleftrightarrow>
     (\<forall>spec d e d'. dk_ContainerCreate D spec d = (Inl e, d') \<longrightarrow>
        errored d \<subseteq> errored d' \<and> alive d' - alive d \<subseteq> errored d' - errored d) \<and>
     (\<forall>spec d cid d'. dk_ContainerCreate D spec d = (Inr cid, d') \<longrightarrow>
        cid \<notin> alive d \<and> cid \<notin> errored d \<and> alive d' \<subseteq> insert cid (alive d) \<and> errored d' = errored d) \<and>
     (\<forall>cid d r d'. dk_ContainerStart D cid d = (r, d') \<longrightarrow> makes_no_container alive errored d d') \<and>
     (\<forall>cid t d r d'. dk_ContainerStop D cid t d = (r, d') \<longrightarrow> makes_no_container alive errored d d') \<and>
     (\<forall>cid d d'. dk_ContainerRemove D cid True d = (None, d') \<longrightarrow>
        alive d' \<subseteq> alive d - {cid} \<and> errored d' = errored d) \<and>
     (\<forall>cid d e d'. dk_ContainerRemove D cid True d = (Some e, d') \<longrightarrow>
        alive d' \<subseteq> alive d \<and> errored d' = insert cid (errored d)) \<and>
     (\<forall>d r d'. dk_Ping D d = (r, d') \<longrightarrow> makes_no_container alive errored d d') \<and>
     (\<forall>n d r d'. dk_NetworkList D n d = (r, d') \<longrightarrow> makes_no_container alive errored d d') \<and>
     (\<forall>n d r d'. dk_NetworkCreate D n d = (r, d') \<longrightarrow> makes_no_container alive errored d d')"

lemma docker_lawD:
  assumes "docker_law D alive errored"
  shows "dk_ContainerCreate D spec d = (Inl e, d') \<Longrightarrow>
      errored d \<subseteq> errored d' \<and> alive d' - alive d \<subseteq> errored d' - errored d"
    "dk_ContainerCreate D spec d = (Inr cid, d') \<Longrightarrow>
      cid \<notin> alive d \<and> cid \<notin> errored d \<and> alive d' \<subseteq> insert cid (alive d) \<and> errored d' = errored d"
    "dk_ContainerStart D cid d = (r, d') \<Longrightarrow> makes_no_container alive errored d d'"
    "dk_ContainerStop D cid t d = (r, d') \<Longrightarrow> makes_no_container alive errored d d'"
    "dk_ContainerRemove D cid True d = (None, d') \<Longrightarrow> alive d' \<subseteq> alive d - {cid} \<and> errored d' = errored d"
    "dk_ContainerRemove D cid True d = (Some e, d') \<Longrightarrow> alive d' \<subseteq> alive d \<and> errored d' = insert cid (errored d)"
    "dk_Ping D d = (r, d') \<Longrightarrow> makes_no_container alive errored d d'"
    "dk_NetworkList D n d = (rl, d') \<Longrightarrow> makes_no_container alive errored d d'"
    "dk_NetworkCreate D ns d = (rc, d') \<Longrightarrow> makes_no_container alive errored d d'"
  using assms unfolding docker_law_def by (elim conjE; simp only: simp_thms)+

text \<open>
  What a piece of the program may leave behind: new containers only with an error about each of
  them in its own calls.
\<close>

definition leaks_only_errored :: "('d \<Rightarrow> string set) \<Rightarrow> ('d \<Rightarrow> string set) \<Rightarrow> 'd \<Rightarrow> 'd \<Rightarrow> bool" where
  "leaks_only_errored alive errored d d' \<longleftrightarrow>
     errored d \<subseteq> errored d' \<and> alive d' - alive d \<subseteq> errored d' - errored d"

lemma leaks_only_errored_trans:
  "leaks_only_errored alive errored d d1 \<Longrightarrow> leaks_only_errored alive errored d1 d2 \<Longrightarrow>
   leaks_only_errored alive errored d d2"
  unfolding leaks_only_errored_def by blast

lemma leaks_only_errored_refl [simp]: "leaks_only_errored alive errored d d"
  by (simp add: leaks_only_errored_def)

lemma makes_no_container_leaks:
  "makes_no_container alive errored d d' \<Longrightarrow> leaks_only_errored alive errored d d'"
  by (auto simp: makes_no_container_def leaks_only_errored_def)

lemma makes_no_container_trans:
  "makes_no_container alive errored d d1 \<Longrightarrow> makes_no_container alive errored d1 d2 \<Longrightarrow>
   makes_no_container alive errored d d2"
  unfolding makes_no_container_def by blast

lemma removed_own:
  assumes "docker_law D alive errored" "dk_ContainerRemove D cid True d1 = (r, d2)"
    "cid \<notin> alive d" "cid \<notin> errored d" "alive d1 \<subseteq> insert cid (alive d)" "errored d1 = errored d"
  shows "leaks_only_errored alive errored d d2 \<and> errored d2 \<subseteq> insert cid (errored d)"
  using assms(2-6) by (cases r) (auto simp: leaks_only_errored_def dest!: docker_lawD [OF assms(1)])

lemma RunSandbox_alive:
  assumes "docker_law D alive errored" "RunSandbox D opt d = (res, d')"
  shows "case res of Inl e \<Rightarrow> leaks_only_errored alive errored d d'
    | Inr (cid, addr) \<Rightarrow> cid \<notin> alive d \<and> cid \<notin> errored d \<and> alive d' \<subseteq> insert cid (alive d) \<and> errored d' = errored d"
proof (cases "dk_ContainerCreate D (container_spec (sandbox_defaults opt)) d")
  case (Pair r d1)
  show ?thesis
  proof (cases r)
    case (Inl e)
    then show ?thesis
      using assms(2) Pair docker_lawD(1) [OF assms(1)]
      by (auto simp: RunSandbox_def Let_def leaks_only_errored_def split: if_splits)
  next
    case (Inr cid)
    obtain s d2 where s: "dk_ContainerStart D cid d1 = (s, d2)" by fastforce
    obtain x d3 where x: "dk_ContainerRemove D cid True d2 = (x, d3)" by fastforce
    have "cid \<notin> alive d" "cid \<notin> errored d" "alive d2 \<subseteq> insert cid (alive d)" "errored d2 = errored d"
      using docker_lawD(2) [OF assms(1) Pair [unfolded Inr]] docker_lawD(3) [OF assms(1) s]
      by (auto simp: makes_no_container_def)
    then show ?thesis
      using assms(2) Pair Inr s x removed_own [OF assms(1) x]
      by (cases s) (auto simp: RunSandbox_def Let_def split: if_splits)
  qed
qed

lemma StopAndRemove_alive:
  assumes "docker_law D alive errored" "cid \<notin> alive d" "cid \<notin> errored d" "alive d1 \<subseteq> insert cid (alive d)"
    "errored d1 = errored d"
  shows "leaks_only_errored alive errored d (StopAndRemove D cid d1) \<and>
    errored (StopAndRemove D cid d1) \<subseteq> insert cid (errored d)"
proof -
  obtain s d2 where s: "dk_ContainerStop D cid 5 d1 = (s, d2)" by fastforce
  obtain x d3 where x: "dk_ContainerRemove D cid True d2 = (x, d3)" by fastforce
  have "alive d2 \<subseteq> insert cid (alive d)" "errored d2 = errored d"
    using docker_lawD(4) [OF assms(1) s] assms(4,5) by (auto simp: makes_no_container_def)
  from removed_own [OF assms(1) x assms(2,3) this] show ?thesis by (simp add: StopAndRemove_def s x)
qed

lemma EnsureInternalNetwork_alive:
  assumes "docker_law D alive errored" "EnsureInternalNetwork D n d = (res, d')"
  shows "makes_no_container alive errored d d'"
  using assms(2)
  by (auto simp: EnsureInternalNetwork_def Let_def split: if_splits prod.splits sum.splits
    dest!: docker_lawD(8,9) [OF assms(1)] intro: makes_no_container_trans)

text \<open>A daemon in a list of container ids, for the witnesses.\<close>

definition toy_docker :: "string list docker_ops" where
  "toy_docker = \<lparr>dk_New = None, dk_Ping = (\<lambda>d. (None, d)), dk_NetworkList = (\<lambda>n d. (Inr [''net''], d)),
     dk_NetworkCreate = (\<lambda>n d. (Inr ''net'', d)),
     dk_ContainerCreate = (\<lambda>spec d. let i = replicate (Suc (length (concat d))) (CHR ''x'') in (Inr i, i # d)),
     dk_ContainerStart = (\<lambda>i d. (None, d)), dk_ContainerStop = (\<lambda>i t d. (None, d)),
     dk_ContainerRemove = (\<lambda>i f d. (None, removeAll i d)), dk_ImageBuild = (\<lambda>b t d. (None, d))\<rparr>"

lemma concat_bound: "x \<in> set d \<Longrightarrow> length x \<le> length (concat d)"
  by (induction d) auto

lemma fresh_replicate: "replicate (Suc (length (concat d))) x \<notin> set d"
  using concat_bound [of "replicate (Suc (length (concat d))) x" d] by (auto simp del: length_concat)

lemma toy_docker_law: "docker_law toy_docker set (\<lambda>d. {})"
  using fresh_replicate
  by (fastforce simp: docker_law_def makes_no_container_def toy_docker_def Let_def
    simp del: replicate.simps length_concat)

text \<open>
  A daemon that starts no container and answers no remove, as one whose caller's context ends
  between create and start: it holds the containers and the history of the refused removes.
\<close>

definition stuck_docker :: "(string list \<times> string list) docker_ops" where
  "stuck_docker = \<lparr>dk_New = None, dk_Ping = (\<lambda>d. (None, d)), dk_NetworkList = (\<lambda>n d. (Inr [''net''], d)),
     dk_NetworkCreate = (\<lambda>n d. (Inr ''net'', d)),
     dk_ContainerCreate = (\<lambda>spec d. let i = replicate (Suc (length (concat (fst d @ snd d)))) (CHR ''x'') in
       (Inr i, (i # fst d, snd d))),
     dk_ContainerStart = (\<lambda>i d. (Some ''context canceled'', d)), dk_ContainerStop = (\<lambda>i t d. (Some ''context canceled'', d)),
     dk_ContainerRemove = (\<lambda>i f d. (Some ''context canceled'', (fst d, i # snd d))), dk_ImageBuild = (\<lambda>b t d. (None, d))\<rparr>"

lemma stuck_docker_law: "docker_law stuck_docker (\<lambda>d. set (fst d)) (\<lambda>d. set (snd d))"
proof -
  have "replicate (Suc (length (concat (a @ b)))) x \<notin> set a \<and>
      replicate (Suc (length (concat (a @ b)))) x \<notin> set b" for a b :: "string list" and x
    using fresh_replicate [of "a @ b" x] by (metis UnCI set_append)
  then show ?thesis
    by (auto simp: docker_law_def makes_no_container_def stuck_docker_def Let_def
      simp del: replicate.simps replicate_Suc length_concat concat_append)
qed

section \<open>Properties\<close>

text \<open>
  \<open>ParseBytes\<close> reads what people write: a decimal number alone is that many bytes, a number
  followed by k, m or g is multiplied by the unit, in 64-bit signed arithmetic, so exactly when
  the product fits.
\<close>

theorem ParseBytes_reads_sizes:
  assumes "int n < 2 ^ 63" "unit_mult c = Some k"
  shows "ParseBytes (show_nat n) = Inr (int n) \<and> ParseBytes (show_nat n @ [c]) = Inr (int64_wrap (int n * k)) \<and>
    (int n * k < 2 ^ 63 \<longrightarrow> ParseBytes (show_nat n @ [c]) = Inr (int n * k))"
proof -
  have "0 < k" using assms(2) by (auto simp: unit_mult_def split: if_splits)
  then have "int n * k < 2 ^ 63 \<Longrightarrow> in_int64 (int n * k)" by (auto simp: in_int64_def intro: order_trans [of _ 0])
  then show ?thesis using ParseBytes_plain [OF assms(1)] ParseBytes_unit [OF assms] by simp
qed

lemma ParseBytes_reads_sizes_witness: "ParseBytes (show_nat 512 @ ''m'') = Inr 536870912"
  using ParseBytes_reads_sizes [of 512 "CHR ''m''" 1048576] by (simp add: unit_mult_def int64_wrap_def)

text \<open>
  The product is not checked. A limit of 16 EiB parses to 0 bytes, which \<open>RunSandbox\<close>
  replaces by its default, so the container runs with 512 MiB; negative sizes are accepted too.
\<close>

theorem ParseBytes_overflow_accepted:
  "ParseBytes ''17179869184g'' = Inr 0 \<and> ParseBytes ''-1g'' = Inr (- 1073741824) \<and>
   cs_Memory (container_spec (sandbox_defaults (run_flag_options fl 0))) = 536870912"
proof -
  have "TrimSpace (ToLower ''-1g'') = ''-1g''" "TrimSpace (ToLower ''17179869184g'') = ''17179869184g''"
    "ParseInt ''-1'' = Some (- 1)" by code_simp+
  moreover have "ParseInt ''17179869184'' = Some 17179869184"
    by (simp add: ParseInt_def parse_digits_def digit_val_def in_int64_def)
  ultimately have "ParseBytes ''17179869184g'' = Inr 0" "ParseBytes ''-1g'' = Inr (- 1073741824)"
    by (simp_all add: ParseBytes_def int64_wrap_def)
  then show ?thesis by (simp add: container_spec_def sandbox_defaults_def run_flag_options_def Let_def)
qed

text \<open>
  C23: whatever options it is called with, a container that \<open>RunSandbox\<close> starts was created with a
  read-only root file system, all capabilities dropped, no new privileges, a memory, CPU and
  process limit that is not 0 (unlimited), automatic removal, a named network, and one port
  published on the loopback address only. Its seccomp option, however, is \<open>unconfined\<close>.
\<close>

theorem sandbox_is_hardened:
  assumes "RunSandbox D opt d = (Inr (cid, addr), d')"
  shows "\<exists>spec d1. dk_ContainerCreate D spec d = (Inr cid, d1) \<and> cs_Image spec = ro_Image opt \<and> ro_Image opt \<noteq> '''' \<and>
    cs_ReadonlyRootfs spec \<and> cs_CapDrop spec = [''ALL''] \<and> ''no-new-privileges'' \<in> set (cs_SecurityOpt spec) \<and>
    cs_Memory spec \<noteq> 0 \<and> cs_NanoCPUs spec \<noteq> 0 \<and> cs_PidsLimit spec \<noteq> 0 \<and> cs_AutoRemove spec \<and>
    (\<exists>net. net \<noteq> '''' \<and> cs_Networks spec = [net]) \<and>
    (\<exists>port hp. cs_PortBindings spec = [(port, [\<lparr>pb_HostIP = ''127.0.0.1'', pb_HostPort = hp\<rparr>])] \<and>
       addr = ''127.0.0.1:'' @ hp) \<and>
    ''seccomp=unconfined'' \<in> set (cs_SecurityOpt spec)"
proof -
  let ?o = "sandbox_defaults opt"
  have img: "ro_Image opt \<noteq> ''''" and "\<exists>d1. dk_ContainerCreate D (container_spec ?o) d = (Inr cid, d1)"
    and addr: "addr = ''127.0.0.1:'' @ show_int (ro_HostPort ?o)"
    using assms by (auto simp: RunSandbox_def Let_def split: if_splits prod.splits sum.splits option.splits)
  then obtain d1 where d1: "dk_ContainerCreate D (container_spec ?o) d = (Inr cid, d1)" by blast
  let ?s = "container_spec ?o"
  have "cs_Image ?s = ro_Image opt" "cs_ReadonlyRootfs ?s" "cs_CapDrop ?s = [''ALL'']"
    "cs_SecurityOpt ?s = [''no-new-privileges'', ''seccomp=unconfined'']"
    "cs_Memory ?s \<noteq> 0" "cs_NanoCPUs ?s \<noteq> 0" "cs_PidsLimit ?s \<noteq> 0" "cs_AutoRemove ?s"
    "cs_Networks ?s = [ro_NetworkName ?o]" "ro_NetworkName ?o \<noteq> ''''"
    "cs_PortBindings ?s = [(show_int (ro_ContainerPort ?o) @ ''/tcp'',
       [\<lparr>pb_HostIP = ''127.0.0.1'', pb_HostPort = show_int (ro_HostPort ?o)\<rparr>])]"
    by (simp_all add: sandbox_defaults_hardened container_spec_def Let_def)
  then show ?thesis using d1 img addr by (intro exI [of _ ?s] exI [of _ d1] conjI) auto
qed

definition demo_options :: runOptions where
  "demo_options = \<lparr>ro_Image = ''img'', ro_ContainerName = ''c'', ro_NetworkName = '''', ro_HostPort = 0,
     ro_ContainerPort = 0, ro_MemoryBytes = 0, ro_NanoCPUs = 0, ro_CpusetCpus = '''', ro_PidsLimit = 0,
     ro_ReadonlyRootfs = False, ro_NoNewPrivileges = False, ro_DropAllCaps = False, ro_Env = []\<rparr>"

lemma demo_run: "RunSandbox toy_docker demo_options [] =
   (Inr (''x'', ''127.0.0.1:'' @ show_int (ro_HostPort (sandbox_defaults demo_options))), [''x''])"
  by (simp add: RunSandbox_def toy_docker_def demo_options_def Let_def)

lemma sandbox_is_hardened_witness:
  "\<exists>spec d1. dk_ContainerCreate toy_docker spec [] = (Inr ''x'', d1) \<and> cs_ReadonlyRootfs spec"
  using sandbox_is_hardened [OF demo_run] by blast

text \<open>
  C22: what \<open>RunSandbox\<close> can leave behind. When it fails, every container that is there now and
  was not before is one whose create or forced remove Docker answered with an error in this
  very call; so with no such error there is none. When it succeeds, the only new container is
  the one whose id it returns, no error was given, and after \<open>StopAndRemove\<close> of that id it can
  only still be there if its own forced remove was answered with an error.
\<close>

theorem RunSandbox_leaves_nothing_on_failure:
  assumes "docker_law D alive errored" "RunSandbox D opt d = (res, d')"
  shows "case res of Inl e \<Rightarrow> errored d \<subseteq> errored d' \<and> alive d' - alive d \<subseteq> errored d' - errored d
    | Inr (cid, addr) \<Rightarrow> cid \<notin> alive d \<and> alive d' \<subseteq> insert cid (alive d) \<and> errored d' = errored d \<and>
        errored (StopAndRemove D cid d') \<subseteq> insert cid (errored d) \<and>
        alive (StopAndRemove D cid d') - alive d \<subseteq> errored (StopAndRemove D cid d') - errored d"
  using RunSandbox_alive [OF assms] StopAndRemove_alive [OF assms(1)]
  by (auto simp: leaks_only_errored_def split: sum.splits prod.splits)

lemma RunSandbox_leaves_nothing_on_failure_witness:
  "set (StopAndRemove toy_docker ''x'' (snd (RunSandbox toy_docker demo_options []))) = {}"
  using RunSandbox_leaves_nothing_on_failure [OF toy_docker_law demo_run] by (simp add: demo_run)

text \<open>
  The cleanup of a failed start can leak. It calls \<open>ContainerRemove\<close> with the context the start
  was given, which the cancellation or timeout that made the start fail has ended, and drops its
  error; a container that was never started is not removed by \<open>AutoRemove\<close>, which acts when a
  container exits. So when start and remove both fail, the call fails and the container stays.
\<close>

theorem failed_start_can_leak:
  assumes "ro_Image opt \<noteq> ''''"
    and "dk_ContainerCreate D (container_spec (sandbox_defaults opt)) d = (Inr cid, d1)"
    and "dk_ContainerStart D cid d1 = (Some e, d2)" and "dk_ContainerRemove D cid True d2 = (Some e2, d3)"
  shows "RunSandbox D opt d = (Inl e, d3)"
  using assms by (simp add: RunSandbox_def Let_def)

lemma failed_start_can_leak_witness:
  "RunSandbox stuck_docker demo_options ([], []) = (Inl ''context canceled'', ([''x''], [''x'']))"
  by (rule failed_start_can_leak [where cid = "''x''" and e = "''context canceled''" and ?e2.0 = "''context canceled''"
      and ?d1.0 = "([''x''], [])" and ?d2.0 = "([''x''], [])"])
    (simp_all add: stuck_docker_def demo_options_def Let_def)

text \<open>
  \<open>sandbox_manager run\<close> exits with 2 exactly when the memory limit does not parse, and then
  Docker is not called; every other failure exits with 1 and leaves no new container unless
  Docker answered its create or remove with an error; exit 0 leaves at most one new container.
\<close>

theorem runCmd_exit_codes:
  assumes "docker_law D alive errored" "runCmd D fl d = (code, d')"
  shows "(code = 2 \<longleftrightarrow> (\<exists>e. ParseBytes (rf_mem fl) = Inl e)) \<and> code \<in> {0, 1, 2} \<and> (code = 2 \<longrightarrow> d' = d) \<and>
    (code = 0 \<longrightarrow> errored d' = errored d \<and> (\<exists>cid. alive d' \<subseteq> insert cid (alive d))) \<and>
    (code \<noteq> 0 \<longrightarrow> alive d' - alive d \<subseteq> errored d' - errored d)"
proof (cases "ParseBytes (rf_mem fl)")
  case (Inr mem)
  obtain e d1 where p: "dk_Ping D d = (e, d1)" by fastforce
  obtain n d2 where n: "EnsureInternalNetwork D (rf_network fl) d1 = (n, d2)" by fastforce
  obtain r d3 where x: "RunSandbox D (run_flag_options fl mem) d2 = (r, d3)" by fastforce
  have 1: "makes_no_container alive errored d d1" and 2: "makes_no_container alive errored d1 d2"
    using docker_lawD(7) [OF assms(1) p] EnsureInternalNetwork_alive [OF assms(1) n] .
  show ?thesis
  proof (cases r)
    case (Inl e)
    have "leaks_only_errored alive errored d d3"
      using RunSandbox_alive [OF assms(1) x] Inl makes_no_container_leaks [OF makes_no_container_trans [OF 1 2]]
      by (auto intro: leaks_only_errored_trans)
    then show ?thesis
      using assms(2) \<open>ParseBytes (rf_mem fl) = Inr mem\<close> p n x Inl 1 2
      by (auto simp: runCmd_def leaks_only_errored_def makes_no_container_def split: option.splits sum.splits)
  next
    case (Inr ca)
    obtain cid addr where "ca = (cid, addr)" by fastforce
    then have "errored d3 = errored d \<and> alive d3 \<subseteq> insert cid (alive d)"
      using RunSandbox_alive [OF assms(1) x] Inr 1 2 by (auto simp: makes_no_container_def)
    then show ?thesis
      using assms(2) \<open>ParseBytes (rf_mem fl) = Inr mem\<close> p n x Inr 1 2
      by (auto simp: runCmd_def makes_no_container_def split: option.splits sum.splits)
  qed
qed (use assms(2) in \<open>simp add: runCmd_def\<close>)

definition demo_flags :: run_flags where
  "demo_flags = \<lparr>rf_image = ''img'', rf_network = ''n'', rf_name = '''', rf_hostPort = 1, rf_containerPort = 1,
     rf_mem = ''512'', rf_cpus = 1, rf_cpuset = '''', rf_pids = 20\<rparr>"

lemma runCmd_exit_codes_witness:
  "\<exists>d'. runCmd toy_docker demo_flags [] = (0, d') \<and> (\<exists>cid. set d' \<subseteq> {cid})"
proof -
  have "ParseBytes ''512'' = Inr 512" by code_simp
  then obtain d' where r: "runCmd toy_docker demo_flags [] = (0, d')"
    by (auto simp: runCmd_def demo_flags_def toy_docker_def EnsureInternalNetwork_def RunSandbox_def
      run_flag_options_def Let_def)
  from runCmd_exit_codes [OF toy_docker_law this] show ?thesis by (auto simp: r)
qed

text \<open>
  The build context is cut short. \<open>tarDir\<close> takes the bytes of its buffer before the tar
  writer is closed: what it returns lacks the padding of the last file and the two zero blocks
  that end an archive, so it is never the complete archive of the directory.
\<close>

theorem tarDir_misses_the_end:
  assumes "tarDir hdr ws = Inr body"
  shows "\<exists>pad < 512. tar_archive hdr ws = body @ replicate (pad + 1024) 0"
proof -
  obtain tw where tw: "tar_walk hdr ws tar_empty = Inr tw" "body = tw_buf tw"
    using assms by (auto simp: tarDir_def split: sum.splits)
  have "tw_pad tw < 512"
    using tw(1) tar_walk_pad [of hdr ws tar_empty tw] by (simp add: tar_empty_def)
  moreover have "tar_archive hdr ws = body @ replicate (tw_pad tw + 1024) 0"
    using tar_closed [OF tw(1)] tw(2) by (simp add: tar_Close_def replicate_add)
  ultimately show ?thesis by blast
qed

lemma tarDir_misses_the_end_witness:
  "\<exists>pad < 512. tar_archive (\<lambda>rel n. replicate 512 1) [IsDir, File ''Dockerfile'' [7, 8]]
     = (replicate 512 1 @ [7, 8]) @ replicate (pad + 1024) 0"
proof -
  have "tarDir (\<lambda>rel n. replicate 512 1) [IsDir, File ''Dockerfile'' [7, 8]] = Inr (replicate 512 1 @ [7, 8])"
    by (simp add: tarDir_def tar_empty_def tar_WriteHeader_def tar_Write_def del: replicate.simps replicate_Suc)
  from tarDir_misses_the_end [OF this] show ?thesis .
qed

text \<open>
  \<open>EnsureInternalNetwork\<close> can settle for another network. Docker's name filter matches all
  or part of a name; so with a network whose name merely contains the wanted one, and none
  that has it, the call returns that network and creates nothing, internal or not.
\<close>

fun has_part :: "string \<Rightarrow> string \<Rightarrow> bool" where
  "has_part p [] = (p = [])"
| "has_part p (c # cs) = (has_prefix p (c # cs) \<or> has_part p cs)"

theorem EnsureInternalNetwork_takes_partial_match:
  assumes "\<And>n d. dk_NetworkList D n d = (Inr (map snd (filter (\<lambda>x. has_part n (fst x)) (nets d))), d)"
    and "nets d = [(other, i)]" "has_part name other" "name \<noteq> ''''"
  shows "EnsureInternalNetwork D name d = (Inr i, d)"
  using assms by (simp add: EnsureInternalNetwork_def)

lemma EnsureInternalNetwork_takes_partial_match_witness:
  "EnsureInternalNetwork
     (toy_docker\<lparr>dk_NetworkList := (\<lambda>n d. (Inr (map snd (filter (\<lambda>x. has_part n (fst x)) [(''iicpc_internal_old'', ''n7'')])), d))\<rparr>)
     ''iicpc_internal'' [] = (Inr ''n7'', [])"
  by (rule EnsureInternalNetwork_takes_partial_match [where nets = "\<lambda>d. [(''iicpc_internal_old'', ''n7'')]"
      and other = "''iicpc_internal_old''"]) (simp_all add: has_prefix_def)

end
