(* ===== verification/JudgeEngine.thy ===== *)
theory JudgeEngine
  imports JudgeStats BotFleet Sandbox Redis
begin

text \<open>
  internal/judge/judge.go: the engine that takes one submission through a whole run. Docker and
  Redis are the arguments of \<open>Sandbox\<close> and \<open>Redis\<close>, JSON is a \<open>codec\<close>, and what the clock, gRPC
  and the engine under test deliver to one run is a \<open>run_env\<close>. The result is \<open>None\<close> when the
  code does not return (an endless wait, a panic). The statistics of the ring are in
  \<open>JudgeStats\<close>, the bots in \<open>BotFleet\<close>. Log lines are left out; context deadlines show in the
  errors the inputs carry.
\<close>

section \<open>Records\<close>

datatype submissionStatus = StatusQueued | StatusRunning | StatusCompleted | StatusFailed

record submission =
  sub_ID :: string
  sub_ContestantID :: string
  sub_ImageTag :: string
  sub_SubmittedAt :: int

record runResult =
  rr_RunID :: string
  rr_SubmissionID :: string
  rr_ContestantID :: string
  rr_Status :: submissionStatus
  rr_StartedAt :: int
  rr_FinishedAt :: int
  rr_TotalOrders :: u64
  rr_CorrectRatio :: f64
  rr_P50Us :: u64
  rr_P90Us :: u64
  rr_P99Us :: u64
  rr_Score :: f64
  rr_Error :: string

record judgeConfig =
  jc_SandboxMemory :: string
  jc_SandboxCPUs :: int
  jc_SandboxCPUSet :: string
  jc_SandboxPIDs :: int
  jc_SandboxPort :: int
  jc_BotCount :: int
  jc_OrdersPerSec :: int
  jc_Duration :: int
  jc_Symbol :: string
  jc_KafkaBrokers :: "string list"
  jc_KafkaTopic :: string
  jc_RedisAddr :: string

definition DefaultConfig :: judgeConfig where
  "DefaultConfig = \<lparr>jc_SandboxMemory = ''512m'', jc_SandboxCPUs = 1, jc_SandboxCPUSet = '''', jc_SandboxPIDs = 50,
     jc_SandboxPort = 50052, jc_BotCount = 50, jc_OrdersPerSec = 200, jc_Duration = 60 * 1000000000,
     jc_Symbol = ''AAPL'', jc_KafkaBrokers = [], jc_KafkaTopic = ''metrics'', jc_RedisAddr = ''localhost:6379''\<rparr>"

text \<open>\<open>json.Marshal\<close> and \<open>json.Unmarshal\<close> at one type. Times are nanoseconds, 0 the unset time.\<close>

record 'a codec =
  marshal :: "'a \<Rightarrow> string"
  unmarshal :: "string \<Rightarrow> string + 'a"

section \<open>New and PingDocker\<close>

definition judge_New :: "'d docker_ops \<Rightarrow> 'd \<Rightarrow> string option \<times> 'd" where
  "judge_New D d =
     (case dk_New D of Some e \<Rightarrow> (Some (''docker client: '' @ e), d)
      | None \<Rightarrow> (case dk_Ping D d of
            (Some e, d1) \<Rightarrow> (Some (''docker daemon unreachable: '' @ e), d1)
          | (None, d1) \<Rightarrow> (None, d1)))"

definition PingDocker :: "'d docker_ops \<Rightarrow> 'd \<Rightarrow> string option \<times> 'd" where
  "PingDocker D d = dk_Ping D d"

section \<open>saveResult and fail\<close>

definition save_cmds :: "runResult codec \<Rightarrow> runResult \<Rightarrow> cmd list" where
  "save_cmds J r =
     [CSet (''run:'' @ rr_RunID r) (marshal J r),
      CLPush (''runs:submission:'' @ rr_SubmissionID r) (rr_RunID r),
      CLPush (''runs:contestant:'' @ rr_ContestantID r) (rr_RunID r),
      CLTrim (''runs:contestant:'' @ rr_ContestantID r) 0 49]"

definition saveResult :: "runResult codec \<Rightarrow> 's server \<Rightarrow> runResult \<Rightarrow> 's \<Rightarrow> 's" where
  "saveResult J srv r s = do_all srv (save_cmds J r) s"

definition engine_fail ::
  "runResult codec \<Rightarrow> 's server \<Rightarrow> int \<Rightarrow> runResult \<Rightarrow> string \<Rightarrow> 's \<Rightarrow> (runResult \<times> string option) \<times> 's" where
  "engine_fail J srv now r err s =
     (let r' = r\<lparr>rr_Status := StatusFailed, rr_Error := err, rr_FinishedAt := now\<rparr>
      in ((r', Some err), saveResult J srv r' s))"

section \<open>waitForGRPC and validateEngine\<close>

text \<open>
  One turn of the retry loop: the error of dialling, the clock after it, and the context's
  error if the context ends before the pause of 300 ms does.
\<close>

record attempt =
  at_dialErr :: "string option"
  at_now :: int
  at_ctxErr :: "string option"

partial_function (option) wait_loop :: "string \<Rightarrow> int \<Rightarrow> (nat \<Rightarrow> attempt) \<Rightarrow> nat \<Rightarrow> string option option" where
  "wait_loop addr deadline env i =
     (case at_dialErr (env i) of
        None \<Rightarrow> Some None
      | Some e \<Rightarrow>
          if at_now (env i) > deadline
          then Some (Some (''gRPC server at '' @ addr @ '' not ready after 10s: '' @ e))
          else (case at_ctxErr (env i) of
                  Some c \<Rightarrow> Some (Some c)
                | None \<Rightarrow> wait_loop addr deadline env (i + 1)))"

definition waitForGRPC :: "string \<Rightarrow> int \<Rightarrow> (nat \<Rightarrow> attempt) \<Rightarrow> string option option" where
  "waitForGRPC addr now env = (let deadline = now + 10 * 1000000000 in wait_loop addr deadline env 0)"

definition probe_order :: "u64 \<Rightarrow> orderRequest" where
  "probe_order now = \<lparr>oq_OrderId = ''probe-001'', oq_ClientId = ''judge-probe'', oq_Symbol = ''AAPL'', oq_Side = BUY,
     oq_OrderType = MARKET, oq_Price = Fin 0, oq_Quantity = 1, oq_TimestampNs = now\<rparr>"

definition validateEngine :: "string option \<Rightarrow> (orderRequest \<Rightarrow> string + orderResponse) \<Rightarrow> u64 \<Rightarrow> string option" where
  "validateEngine dialErr call now =
     (case dialErr of Some e \<Rightarrow> Some (''dial failed: '' @ e)
      | None \<Rightarrow> (case call (probe_order now) of
          Inl e \<Rightarrow> Some (''PlaceOrder probe failed: '' @ e)
        | Inr resp \<Rightarrow> if or_Status resp = '''' then Some ''engine returned empty status on probe order'' else None))"

section \<open>Run\<close>

text \<open>
  The inputs of one run: clock readings, the turns of the retry loop, the probe, how dialling
  the fleet's connection ends, what ends each bot, the metrics the bots push in the order the
  ring takes them, and the state of the run's context after the fleet.
\<close>

record run_env =
  re_nano :: int
  re_started :: int
  re_waitStart :: int
  re_attempts :: "nat \<Rightarrow> attempt"
  re_probeDial :: "string option"
  re_probe :: "orderRequest \<Rightarrow> string + orderResponse"
  re_probeNs :: u64
  re_fleetDial :: "string option"
  re_bots :: "nat \<Rightarrow> bot_inputs"
  re_pushed :: "metric list"
  re_finished :: int
  re_failed :: int
  re_runCtxErr :: "string option"

definition sandbox_options :: "judgeConfig \<Rightarrow> submission \<Rightarrow> int \<Rightarrow> runOptions" where
  "sandbox_options cfg sub memBytes =
     \<lparr>ro_Image = sub_ImageTag sub, ro_ContainerName = ''iicpc-contestant-'' @ sub_ID sub,
      ro_NetworkName = ''iicpc_internal'', ro_HostPort = jc_SandboxPort cfg, ro_ContainerPort = 50051,
      ro_MemoryBytes = memBytes, ro_NanoCPUs = int64_wrap (jc_SandboxCPUs cfg * 1000000000),
      ro_CpusetCpus = jc_SandboxCPUSet cfg, ro_PidsLimit = jc_SandboxPIDs cfg,
      ro_ReadonlyRootfs = True, ro_NoNewPrivileges = True, ro_DropAllCaps = True, ro_Env = []\<rparr>"

definition fleet_config :: "judgeConfig \<Rightarrow> submission \<Rightarrow> string \<Rightarrow> string \<Rightarrow> config" where
  "fleet_config cfg sub hostAddr runID =
     \<lparr>cf_TargetAddr = hostAddr, cf_BotCount = jc_BotCount cfg, cf_OrdersPerSec = jc_OrdersPerSec cfg,
      cf_Duration = jc_Duration cfg, cf_TestRunID = runID, cf_ContestantID = sub_ContestantID sub,
      cf_Symbol = jc_Symbol cfg, cf_KafkaBrokers = jc_KafkaBrokers cfg, cf_KafkaTopic = jc_KafkaTopic cfg\<rparr>"

text \<open>
  The fleet as the engine sees it: an error before any bot starts, or a ring that was pushed to
  once \<open>wg.Wait\<close> has seen every bot return. A ticker that cannot be made panics in the bot's
  goroutine and ends the process (\<open>None\<close>), and so is a bot that never returns.
\<close>

definition fleet_Run ::
  "string option \<Rightarrow> (nat \<Rightarrow> bot_inputs) \<Rightarrow> metric list \<Rightarrow> config \<Rightarrow> metric ring \<Rightarrow> (string option \<times> metric ring) option" where
  "fleet_Run dialErr inputs pushed fcfg rb =
     (case Run_start dialErr fcfg of
        Inl e \<Rightarrow> Some (Some e, rb)
      | Inr (cfg, _, bots) \<Rightarrow>
          (case bot_interval cfg of
             None \<Rightarrow> None
           | Some _ \<Rightarrow>
               if list_all (\<lambda>i. bot_returns (inputs i)) [0..<length bots]
               then Some (None, fst (push_all Push rb pushed))
               else None))"

definition completed_result :: "runResult \<Rightarrow> localStats \<Rightarrow> runResult" where
  "completed_result r stats =
     r\<lparr>rr_Status := StatusCompleted, rr_TotalOrders := l_Count stats, rr_CorrectRatio := l_CorrectRatio stats,
       rr_P50Us := l_P50Us stats, rr_P90Us := l_P90Us stats, rr_P99Us := l_P99Us stats, rr_Score := l_Score stats\<rparr>"

text \<open>
  From the started container on. The engine's own Kafka producer is opened and closed but never
  used, so it has no part here.
\<close>

definition run_in_container ::
  "runResult codec \<Rightarrow> 's server \<Rightarrow> judgeConfig \<Rightarrow> run_env \<Rightarrow> submission \<Rightarrow> string \<Rightarrow> runResult \<Rightarrow> 's \<Rightarrow>
     ((runResult \<times> string option) \<times> 's) option" where
  "run_in_container J srv cfg env sub hostAddr r s =
     (case waitForGRPC hostAddr (re_waitStart env) (re_attempts env) of
        None \<Rightarrow> None
      | Some (Some e) \<Rightarrow> Some (engine_fail J srv (re_failed env) r (''sandbox not ready: '' @ e) s)
      | Some None \<Rightarrow>
          (case validateEngine (re_probeDial env) (re_probe env) (re_probeNs env) of
             Some e \<Rightarrow> Some (engine_fail J srv (re_failed env) r (''engine validation failed: '' @ e) s)
           | None \<Rightarrow>
               let rb = NewRingBuffer 500000 in
               case fleet_Run (re_fleetDial env) (re_bots env) (re_pushed env)
                      (fleet_config cfg sub hostAddr (rr_RunID r)) rb of
                 None \<Rightarrow> None
               | Some (fleetErr, rb1) \<Rightarrow>
                  (case drainRingBuffer rb1 of
                     None \<Rightarrow> None
                   | Some (_, stats) \<Rightarrow>
                      let r1 = r\<lparr>rr_FinishedAt := re_finished env\<rparr> in
                      if fleetErr \<noteq> None \<and> re_runCtxErr env = None
                      then Some (engine_fail J srv (re_failed env) r1 (''bot fleet: '' @ the fleetErr) s)
                      else let r2 = completed_result r1 stats;
                               s1 = saveResult J srv r2 s;
                               s2 = snd (srv (CPublish ''leaderboard_updates'' (sub_ContestantID sub)) s1)
                           in Some ((r2, None), s2))))"

definition run_id :: "submission \<Rightarrow> run_env \<Rightarrow> string" where
  "run_id sub env = ''run-'' @ sub_ID sub @ ''-'' @ show_int (re_nano env)"

definition running_result :: "submission \<Rightarrow> run_env \<Rightarrow> runResult" where
  "running_result sub env =
     \<lparr>rr_RunID = run_id sub env, rr_SubmissionID = sub_ID sub, rr_ContestantID = sub_ContestantID sub,
      rr_Status = StatusRunning, rr_StartedAt = re_started env, rr_FinishedAt = 0, rr_TotalOrders = 0,
      rr_CorrectRatio = Fin 0, rr_P50Us = 0, rr_P90Us = 0, rr_P99Us = 0, rr_Score = Fin 0, rr_Error = ''''\<rparr>"

definition judge_Run ::
  "'d docker_ops \<Rightarrow> runResult codec \<Rightarrow> 's server \<Rightarrow> judgeConfig \<Rightarrow> run_env \<Rightarrow> submission \<Rightarrow> 'd \<Rightarrow> 's \<Rightarrow>
     ((runResult \<times> string option) \<times> 'd \<times> 's) option" where
  "judge_Run D J srv cfg env sub d s =
     (let r = running_result sub env; s1 = saveResult J srv r s in
      case EnsureInternalNetwork D ''iicpc_internal'' d of
        (Inl e, d1) \<Rightarrow> (case engine_fail J srv (re_failed env) r (''ensure network: '' @ e) s1 of (out, s2) \<Rightarrow> Some (out, d1, s2))
      | (Inr _, d1) \<Rightarrow>
          (case ParseBytes (jc_SandboxMemory cfg) of
             Inl e \<Rightarrow> (case engine_fail J srv (re_failed env) r (''parse memory: '' @ e) s1 of (out, s2) \<Rightarrow> Some (out, d1, s2))
           | Inr memBytes \<Rightarrow>
               (case RunSandbox D (sandbox_options cfg sub memBytes) d1 of
                  (Inl e, d2) \<Rightarrow> (case engine_fail J srv (re_failed env) r (''start sandbox: '' @ e) s1 of (out, s2) \<Rightarrow> Some (out, d2, s2))
                | (Inr (containerID, hostAddr), d2) \<Rightarrow>
                    (case run_in_container J srv cfg env sub hostAddr r s1 of
                       None \<Rightarrow> None
                     | Some (out, s2) \<Rightarrow> Some (out, StopAndRemove D containerID d2, s2)))))"

section \<open>Lemmas\<close>

subsection \<open>The retry loop\<close>

text \<open>
  The clock after attempt \<open>i\<close> is at least \<open>i\<close> pauses of 300 ms after the start, so the loop
  ends after at most 35 attempts.
\<close>

definition clock_advances :: "int \<Rightarrow> (nat \<Rightarrow> attempt) \<Rightarrow> bool" where
  "clock_advances now env \<longleftrightarrow> (\<forall>i. at_now (env i) \<ge> now + int i * 300000000)"

lemma wait_loop_Some:
  "\<exists>n. at_now (env (i + n)) > deadline \<Longrightarrow> \<exists>r. wait_loop addr deadline env i = Some r"
proof (elim exE)
  fix n
  show "at_now (env (i + n)) > deadline \<Longrightarrow> \<exists>r. wait_loop addr deadline env i = Some r"
  proof (induction n arbitrary: i)
    case 0
    then show ?case by (subst wait_loop.simps) (simp split: option.split)
  next
    case (Suc n)
    then have "\<exists>r. wait_loop addr deadline env (i + 1) = Some r" by simp
    then show ?case by (subst wait_loop.simps) (auto split: option.split)
  qed
qed

lemma waitForGRPC_Some: "clock_advances now env \<Longrightarrow> \<exists>r. waitForGRPC addr now env = Some r"
proof -
  assume "clock_advances now env"
  then have "at_now (env 34) \<ge> now + int 34 * 300000000" unfolding clock_advances_def by blast
  then have "at_now (env (0 + 34)) > now + 10 * 1000000000" by simp
  then show ?thesis unfolding waitForGRPC_def Let_def by (rule wait_loop_Some [OF exI])
qed

text \<open>The loop up to the first turn that decides.\<close>

definition attempt_decides :: "int \<Rightarrow> attempt \<Rightarrow> bool" where
  "attempt_decides deadline a \<longleftrightarrow> at_dialErr a = None \<or> at_now a > deadline \<or> at_ctxErr a \<noteq> None"

lemma wait_loop_first:
  assumes "\<forall>j < n. \<not> attempt_decides deadline (env (i + j))" "at_dialErr (env (i + n)) = None"
  shows "wait_loop addr deadline env i = Some None"
  using assms
proof (induction n arbitrary: i)
  case 0
  then show ?case by (subst wait_loop.simps) simp
next
  case (Suc n)
  have "\<not> attempt_decides deadline (env (i + 0))" using Suc.prems(1) by blast
  moreover have "\<forall>j<n. \<not> attempt_decides deadline (env (i + 1 + j))"
    using Suc.prems(1) by (metis Suc_less_eq add.assoc plus_1_eq_Suc)
  then have "wait_loop addr deadline env (i + 1) = Some None" using Suc by simp
  ultimately show ?case by (subst wait_loop.simps) (auto simp: attempt_decides_def split: option.split)
qed

subsection \<open>The ring after the fleet\<close>

lemma push_all_rq:
  "push_all rq_push (r, dst) ms = (case push_all Push r ms of (r', oks) \<Rightarrow> ((r', dst), oks))"
  by (induction ms arbitrary: r) (simp_all add: rq_push_def split: prod.split)

lemma fleet_ring:
  assumes "length ms < 2 ^ 64"
  shows "rb_inv (fst (push_all Push (NewRingBuffer 500000) ms)) \<and>
    contents (fst (push_all Push (NewRingBuffer 500000) ms)) = take 500000 ms"
proof -
  let ?q = "(NewRingBuffer 500000, [zero_metric])"
  have "rq_inv ?q" by (simp add: rq_inv_def NewRingBuffer_inv)
  moreover have "length ms \<le> rq_quota ?q" using assms by (simp add: rq_quota_def)
  ultimately obtain q oks where q: "push_all rq_push ?q ms = (q, oks)" "rq_inv q" "contents (fst q) = take 500000 ms"
    using rq.push_all_spec [of ?q ms] by (auto simp: NewRingBuffer_size min_def)
  then show ?thesis using push_all_rq [of "NewRingBuffer 500000" "[zero_metric]" ms]
    by (auto simp: rq_inv_def split: prod.splits)
qed

lemma drained_fleet:
  assumes "length ms < 2 ^ 64"
  shows "\<exists>r' st. drainRingBuffer (fst (push_all Push (NewRingBuffer 500000) ms)) = Some (r', st) \<and>
    summary (take 500000 ms) = Some st"
proof -
  have "length (take 500000 ms) \<le> 2 ^ 46" by (simp add: min_le_iff_disj)
  then obtain st where st: "summary (take 500000 ms) = Some st" using summary_defined by blast
  have "\<exists>r'. drain_with 8192 (fst (push_all Push (NewRingBuffer 500000) ms)) = Some (r', st) \<and> rb_inv r' \<and> contents r' = []"
    using fleet_ring [OF assms] st by (intro drain_with_spec) simp_all
  then show ?thesis using st by (auto simp: drainRingBuffer_def)
qed

lemma drained_unused:
  "\<exists>r'. drainRingBuffer (NewRingBuffer 500000) = Some (r', zero_stats)"
  using drained_fleet [of "[]"] summary_Nil by auto

subsection \<open>How a run ends\<close>

text \<open>
  A run ends by \<open>fail\<close> or by the completed result, its announcement last; in both cases the
  last record saved is the one returned, under the ids of the running record.
\<close>

definition same_run :: "runResult \<Rightarrow> runResult \<Rightarrow> bool" where
  "same_run r r' \<longleftrightarrow> rr_RunID r' = rr_RunID r \<and> rr_SubmissionID r' = rr_SubmissionID r \<and>
     rr_ContestantID r' = rr_ContestantID r \<and> rr_StartedAt r' = rr_StartedAt r"

definition run_end ::
  "runResult codec \<Rightarrow> 's server \<Rightarrow> runResult \<Rightarrow> runResult \<times> string option \<Rightarrow> 's \<Rightarrow> 's \<Rightarrow> bool" where
  "run_end J srv r out s s' \<longleftrightarrow> same_run r (fst out) \<and>
     (case snd out of
        Some e \<Rightarrow> rr_Status (fst out) = StatusFailed \<and> rr_Error (fst out) = e \<and> s' = saveResult J srv (fst out) s
      | None \<Rightarrow> rr_Status (fst out) = StatusCompleted \<and>
          s' = snd (srv (CPublish ''leaderboard_updates'' (rr_ContestantID r)) (saveResult J srv (fst out) s)))"

lemma same_run_refl [simp]: "same_run r r"
  by (simp add: same_run_def)

lemma engine_fail_end [intro]:
  "same_run r r1 \<Longrightarrow> engine_fail J srv now r1 e s = (out, s') \<Longrightarrow> run_end J srv r out s s'"
  by (auto simp: engine_fail_def Let_def run_end_def same_run_def)

lemma run_in_container_end:
  assumes "run_in_container J srv cfg env sub addr r s = Some (out, s')" "rr_ContestantID r = sub_ContestantID sub"
  shows "run_end J srv r out s s'"
proof -
  have f: "run_end J srv r out s s'" if "engine_fail J srv now r1 e s = (out, s')" "same_run r r1" for r1 e now
    using that by blast
  have "same_run r (r\<lparr>rr_FinishedAt := t\<rparr>)" for t by (simp add: same_run_def)
  moreover have "run_end J srv r (completed_result (r\<lparr>rr_FinishedAt := t\<rparr>) st, None) s
      (snd (srv (CPublish ''leaderboard_updates'' (sub_ContestantID sub))
        (saveResult J srv (completed_result (r\<lparr>rr_FinishedAt := t\<rparr>) st) s)))" for t st
    using assms(2) by (simp add: run_end_def same_run_def completed_result_def)
  ultimately show ?thesis using assms(1) f
    unfolding run_in_container_def Let_def
    by (simp split: option.splits prod.splits if_splits) (metis same_run_refl)+
qed

lemma judge_Run_end:
  assumes "judge_Run D J srv cfg env sub d s = Some (out, d', s')"
  shows "run_end J srv (running_result sub env) out (saveResult J srv (running_result sub env) s) s'"
proof -
  have "rr_ContestantID (running_result sub env) = sub_ContestantID sub" by (simp add: running_result_def)
  note c = run_in_container_end [OF _ this]
  show ?thesis using assms unfolding judge_Run_def Let_def
    by (simp split: sum.splits prod.splits option.splits) (metis c engine_fail_end same_run_refl)+
qed

lemma judge_Run_alive:
  assumes "docker_law D alive errored" "judge_Run D J srv cfg env sub d s = Some (out, d', s')"
  shows "leaks_only_errored alive errored d d'"
proof -
  obtain net d1 where n: "EnsureInternalNetwork D ''iicpc_internal'' d = (net, d1)" by fastforce
  note a1 = EnsureInternalNetwork_alive [OF assms(1) n]
  note l1 = makes_no_container_leaks [OF a1]
  show ?thesis
  proof (cases "\<exists>i mem. net = Inr i \<and> ParseBytes (jc_SandboxMemory cfg) = Inr mem")
    case False
    then have "d' = d1" using assms(2) n unfolding judge_Run_def Let_def
      by (auto split: sum.splits prod.splits)
    then show ?thesis using l1 by simp
  next
    case True
    then obtain i mem where ok: "net = Inr i" "ParseBytes (jc_SandboxMemory cfg) = Inr mem" by auto
    obtain res d2 where r: "RunSandbox D (sandbox_options cfg sub mem) d1 = (res, d2)" by fastforce
    note a2 = RunSandbox_alive [OF assms(1) r]
    show ?thesis
    proof (cases res)
      case (Inl e)
      then have "d' = d2" using assms(2) n ok r unfolding judge_Run_def Let_def by (simp split: prod.splits)
      then show ?thesis using Inl a2 leaks_only_errored_trans [OF l1] by simp
    next
      case (Inr ca)
      then have "d' = StopAndRemove D (fst ca) d2"
        using assms(2) n ok r unfolding judge_Run_def Let_def by (auto split: prod.splits option.splits)
      moreover have "leaks_only_errored alive errored d1 (StopAndRemove D (fst ca) d2)"
        using Inr a2 by (intro StopAndRemove_alive [OF assms(1), THEN conjunct1]) (auto split: prod.splits)
      ultimately show ?thesis using leaks_only_errored_trans [OF l1] by simp
    qed
  qed
qed

subsection \<open>What is saved\<close>

lemma save_exec:
  fixes t :: store and r :: runResult
  defines "kr \<equiv> ''run:'' @ rr_RunID r" and "ks \<equiv> ''runs:submission:'' @ rr_SubmissionID r"
    and "kc \<equiv> ''runs:contestant:'' @ rr_ContestantID r"
  assumes "read_list (st_keys t ks) = Some subs" "read_list (st_keys t kc) = Some runs"
  shows "\<exists>t'. exec_all (save_cmds J r) t = Some t' \<and> st_keys t' kr = Some (VStr (marshal J r)) \<and>
    read_list (st_keys t' ks) = Some (rr_RunID r # subs) \<and>
    read_list (st_keys t' kc) = Some (take 50 (rr_RunID r # runs)) \<and>
    (\<forall>k. k \<notin> {kr, ks, kc} \<longrightarrow> st_keys t' k = st_keys t k) \<and> st_published t' = st_published t"
proof -
  have [simp]: "kr \<noteq> ks" "kr \<noteq> kc" "ks \<noteq> kc" "ks \<noteq> kr" "kc \<noteq> kr" "kc \<noteq> ks"
    by (simp_all add: kr_def ks_def kc_def)
  show ?thesis
    using assms(4,5) unfolding save_cmds_def kr_def [symmetric] ks_def [symmetric] kc_def [symmetric]
    by (simp add: range_of_head)
qed

subsection \<open>That a run returns\<close>

lemma fleet_drained:
  assumes "length pushed < 2 ^ 64" "fleet_Run dialErr inputs pushed fcfg (NewRingBuffer 500000) = Some (fe, rb)"
  shows "\<exists>r' st. drainRingBuffer rb = Some (r', st) \<and>
    (if fe = None then summary (take 500000 pushed) = Some st else st = zero_stats)"
  using assms drained_fleet [OF assms(1)] drained_unused
  by (auto simp: fleet_Run_def split: sum.splits option.splits if_splits)

text \<open>
  The fleet connects without an error exactly when the dial succeeds, and then returns when
  every bot's context ends and the rate is one a ticker can have.
\<close>

definition fleet_can_end :: "judgeConfig \<Rightarrow> run_env \<Rightarrow> bool" where
  "fleet_can_end cfg env \<longleftrightarrow> jc_OrdersPerSec cfg \<le> 1000000000 \<and> (\<forall>i. context_ends (re_bots env i))"

lemma fleet_Run_err:
  "fleet_Run dialErr inputs pushed fcfg rb = Some (fe, rb') \<Longrightarrow> fe = None \<longleftrightarrow> dialErr = None"
  by (auto simp: fleet_Run_def Run_start_def NewProducer_def Let_def split: option.splits sum.splits if_splits)

lemma fleet_Run_Some:
  assumes "fleet_can_end cfg env"
  shows "\<exists>fe rb'. fleet_Run dialErr (re_bots env) pushed (fleet_config cfg sub addr i) rb = Some (fe, rb')"
proof -
  have "cf_OrdersPerSec (fleet_config cfg sub addr i) \<le> 1000000000"
    using assms by (simp add: fleet_can_end_def fleet_config_def)
  from bot_interval_runs [OF this] obtain t where "bot_interval (run_defaults (fleet_config cfg sub addr i)) = Some t" ..
  moreover have "list_all (\<lambda>i. bot_returns (re_bots env i)) is" for "is"
    using assms bot_returns_at_deadline by (simp add: fleet_can_end_def list_all_iff)
  ultimately show ?thesis
    by (auto simp: fleet_Run_def Run_start_def Let_def split: option.splits sum.splits)
qed

lemma run_in_container_Some:
  assumes "clock_advances (re_waitStart env) (re_attempts env)" "fleet_can_end cfg env" "length (re_pushed env) < 2 ^ 64"
  shows "\<exists>out s'. run_in_container J srv cfg env sub addr r s = Some (out, s')"
proof -
  obtain w where w: "waitForGRPC addr (re_waitStart env) (re_attempts env) = Some w"
    using waitForGRPC_Some [OF assms(1)] by blast
  obtain fe rb where f: "fleet_Run (re_fleetDial env) (re_bots env) (re_pushed env)
      (fleet_config cfg sub addr (rr_RunID r)) (NewRingBuffer 500000) = Some (fe, rb)"
    using fleet_Run_Some [OF assms(2)] by blast
  obtain r' st where "drainRingBuffer rb = Some (r', st)" using fleet_drained [OF assms(3) f] by blast
  then show ?thesis using w f
    by (auto simp: run_in_container_def Let_def engine_fail_def split: option.split)
qed

lemma judge_Run_Some:
  assumes "clock_advances (re_waitStart env) (re_attempts env)" "fleet_can_end cfg env" "length (re_pushed env) < 2 ^ 64"
  shows "\<exists>res err d' s'. judge_Run D J srv cfg env sub d s = Some ((res, err), d', s')"
proof -
  have c: "run_in_container J srv cfg env sub addr r s \<noteq> None" for addr r s
    using run_in_container_Some [OF assms] by (metis option.distinct(1))
  have "judge_Run D J srv cfg env sub d s \<noteq> None"
    unfolding judge_Run_def Let_def
    by (simp split: sum.split prod.split option.split) (simp add: c)
  then show ?thesis by auto
qed

lemma completed_in_container:
  assumes "run_in_container J srv cfg env sub addr r s = Some ((res, None), s')" "length (re_pushed env) < 2 ^ 64"
  shows "\<exists>st. res = completed_result (r\<lparr>rr_FinishedAt := re_finished env\<rparr>) st \<and>
    (if re_fleetDial env = None then summary (take 500000 (re_pushed env)) = Some st
     else st = zero_stats \<and> re_runCtxErr env \<noteq> None)"
proof -
  obtain fe rb where f: "fleet_Run (re_fleetDial env) (re_bots env) (re_pushed env)
      (fleet_config cfg sub addr (rr_RunID r)) (NewRingBuffer 500000) = Some (fe, rb)"
    using assms(1) by (auto simp: run_in_container_def Let_def engine_fail_def split: option.splits)
  note fe = fleet_Run_err [OF f]
  obtain r' st where d: "drainRingBuffer rb = Some (r', st)"
    "if fe = None then summary (take 500000 (re_pushed env)) = Some st else st = zero_stats"
    using fleet_drained [OF assms(2) f] by blast
  have "res = completed_result (r\<lparr>rr_FinishedAt := re_finished env\<rparr>) st \<and> (fe \<noteq> None \<longrightarrow> re_runCtxErr env \<noteq> None)"
    using assms(1) f d(1) by (auto simp: run_in_container_def Let_def engine_fail_def split: option.splits if_splits)
  then show ?thesis using d(2) fe by auto
qed

lemma completed_run:
  assumes "judge_Run D J srv cfg env sub d s = Some ((res, None), d', s')" "length (re_pushed env) < 2 ^ 64"
  shows "\<exists>st. res = completed_result ((running_result sub env)\<lparr>rr_FinishedAt := re_finished env\<rparr>) st \<and>
    (if re_fleetDial env = None then summary (take 500000 (re_pushed env)) = Some st
     else st = zero_stats \<and> re_runCtxErr env \<noteq> None)"
proof -
  obtain addr s0 where "run_in_container J srv cfg env sub addr (running_result sub env) s0 = Some ((res, None), s')"
    using assms(1) unfolding judge_Run_def Let_def
    by (auto simp: engine_fail_def Let_def split: sum.splits prod.splits option.splits)
  then show ?thesis using assms(2) by (rule completed_in_container)
qed

subsection \<open>The steps of a run that goes well\<close>

lemma run_in_container_good:
  assumes "waitForGRPC addr (re_waitStart env) (re_attempts env) = Some None"
    "validateEngine (re_probeDial env) (re_probe env) (re_probeNs env) = None"
    "re_fleetDial env = None" "fleet_can_end cfg env" "length (re_pushed env) < 2 ^ 64"
  shows "\<exists>st s'. summary (take 500000 (re_pushed env)) = Some st \<and>
    run_in_container J srv cfg env sub addr r s =
      Some ((completed_result (r\<lparr>rr_FinishedAt := re_finished env\<rparr>) st, None), s')"
proof -
  obtain fe rb where f: "fleet_Run (re_fleetDial env) (re_bots env) (re_pushed env)
      (fleet_config cfg sub addr (rr_RunID r)) (NewRingBuffer 500000) = Some (fe, rb)"
    using fleet_Run_Some [OF assms(4)] by blast
  have "fe = None" using fleet_Run_err [OF f] assms(3) by simp
  with fleet_drained [OF assms(5) f] obtain r' st where
    "drainRingBuffer rb = Some (r', st)" "summary (take 500000 (re_pushed env)) = Some st" by auto
  then show ?thesis using assms(1,2) f \<open>fe = None\<close> by (simp add: run_in_container_def Let_def)
qed

lemma saveResult_up:
  fixes J :: "runResult codec" and srv :: "'s server" and r :: runResult and s :: 's
  assumes "redis_up srv view"
    and "read_list (st_keys (view s) (''runs:submission:'' @ rr_SubmissionID r)) = Some subs"
    and "read_list (st_keys (view s) (''runs:contestant:'' @ rr_ContestantID r)) = Some runs"
  defines "t \<equiv> view (saveResult J srv r s)"
  shows "st_keys t (''run:'' @ rr_RunID r) = Some (VStr (marshal J r)) \<and>
    read_list (st_keys t (''runs:submission:'' @ rr_SubmissionID r)) = Some (rr_RunID r # subs) \<and>
    read_list (st_keys t (''runs:contestant:'' @ rr_ContestantID r)) = Some (take 50 (rr_RunID r # runs)) \<and>
    (\<forall>k. k \<notin> {''run:'' @ rr_RunID r, ''runs:submission:'' @ rr_SubmissionID r, ''runs:contestant:'' @ rr_ContestantID r}
       \<longrightarrow> st_keys t k = st_keys (view s) k) \<and> st_published t = st_published (view s)"
proof -
  note up = redis_running_up [OF assms(1)]
  obtain t' where t': "exec_all (save_cmds J r) (view s) = Some t'"
    "st_keys t' (''run:'' @ rr_RunID r) = Some (VStr (marshal J r)) \<and>
    read_list (st_keys t' (''runs:submission:'' @ rr_SubmissionID r)) = Some (rr_RunID r # subs) \<and>
    read_list (st_keys t' (''runs:contestant:'' @ rr_ContestantID r)) = Some (take 50 (rr_RunID r # runs)) \<and>
    (\<forall>k. k \<notin> {''run:'' @ rr_RunID r, ''runs:submission:'' @ rr_SubmissionID r, ''runs:contestant:'' @ rr_ContestantID r}
       \<longrightarrow> st_keys t' k = st_keys (view s) k) \<and> st_published t' = st_published (view s)"
    using save_exec [OF assms(2,3), of J] by (elim exE conjE) (intro that conjI)
  have "t = t'" unfolding t_def saveResult_def
    by (rule redis_running.do_all_runs [OF up t'(1)]) (simp add: save_cmds_def)
  then show ?thesis using t'(2) by blast
qed

lemma publish_up:
  "redis_up srv view \<Longrightarrow>
   view (snd (srv (CPublish ch m) s)) = (view s)\<lparr>st_published := st_published (view s) @ [(ch, m)]\<rparr>"
  by (rule redis_running.effect [OF redis_running_up, where r = "RInt 0"]) simp_all

lemma run_end_stored:
  assumes "redis_up srv view" "judge_Run D J srv cfg env sub d s = Some ((res, err), d', s')"
    and "read_list (st_keys (view s) (''runs:submission:'' @ sub_ID sub)) = Some subs"
    and "read_list (st_keys (view s) (''runs:contestant:'' @ sub_ContestantID sub)) = Some runs"
  shows "st_keys (view s') (''run:'' @ run_id sub env) = Some (VStr (marshal J res)) \<and>
    rr_RunID res = run_id sub env \<and> rr_SubmissionID res = sub_ID sub \<and> rr_ContestantID res = sub_ContestantID sub \<and>
    read_list (st_keys (view s') (''runs:submission:'' @ sub_ID sub)) = Some (run_id sub env # run_id sub env # subs) \<and>
    read_list (st_keys (view s') (''runs:contestant:'' @ sub_ContestantID sub)) =
      Some (take 50 (run_id sub env # run_id sub env # runs)) \<and>
    (\<forall>k. k \<notin> {''run:'' @ run_id sub env, ''runs:submission:'' @ sub_ID sub, ''runs:contestant:'' @ sub_ContestantID sub}
       \<longrightarrow> st_keys (view s') k = st_keys (view s) k) \<and>
    st_published (view s') = st_published (view s) @
      (if err = None then [(''leaderboard_updates'', sub_ContestantID sub)] else [])"
proof -
  let ?r = "running_result sub env"
  let ?s1 = "saveResult J srv ?r s"
  have r: "rr_RunID ?r = run_id sub env" "rr_SubmissionID ?r = sub_ID sub" "rr_ContestantID ?r = sub_ContestantID sub"
    by (simp_all add: running_result_def)
  note first = saveResult_up [OF assms(1), of s ?r subs runs J, unfolded r, OF assms(3,4)]
  have e: "run_end J srv ?r (res, err) ?s1 s'" by (rule judge_Run_end [OF assms(2)])
  then have id: "rr_RunID res = run_id sub env" "rr_SubmissionID res = sub_ID sub" "rr_ContestantID res = sub_ContestantID sub"
    by (simp_all add: run_end_def same_run_def r)
  note second = saveResult_up [OF assms(1), of ?s1 res "run_id sub env # subs" "take 50 (run_id sub env # runs)" J, unfolded id]
  have v: "view s' = (view (saveResult J srv res ?s1))\<lparr>st_published := st_published (view (saveResult J srv res ?s1)) @
      (if err = None then [(''leaderboard_updates'', sub_ContestantID sub)] else [])\<rparr>"
    using e by (simp add: run_end_def r publish_up [OF assms(1)] split: option.splits)
  show ?thesis using first second unfolding v by (simp add: id)
qed

lemma judge_Run_good:
  assumes "EnsureInternalNetwork D ''iicpc_internal'' d = (Inr net, d1)"
    and "ParseBytes (jc_SandboxMemory cfg) = Inr mem"
    and "RunSandbox D (sandbox_options cfg sub mem) d1 = (Inr (cid, addr), d2)"
    and "\<forall>j < n. \<not> attempt_decides (re_waitStart env + 10000000000) (re_attempts env j)"
    and "at_dialErr (re_attempts env n) = None"
    and "re_probeDial env = None" "re_probe env (probe_order (re_probeNs env)) = Inr resp" "or_Status resp \<noteq> ''''"
    and "re_fleetDial env = None" "fleet_can_end cfg env" "length (re_pushed env) < 2 ^ 64"
  shows "\<exists>res s' st. judge_Run D J srv cfg env sub d s = Some ((res, None), StopAndRemove D cid d2, s') \<and>
    summary (take 500000 (re_pushed env)) = Some st \<and> rr_Status res = StatusCompleted \<and>
    rr_TotalOrders res = l_Count st \<and> rr_Score res = l_Score st"
proof -
  have "\<forall>j < n. \<not> attempt_decides (re_waitStart env + 10000000000) (re_attempts env (0 + j))"
    using assms(4) by simp
  from wait_loop_first [OF this] have w: "waitForGRPC addr (re_waitStart env) (re_attempts env) = Some None"
    using assms(5) by (simp add: waitForGRPC_def)
  have v: "validateEngine (re_probeDial env) (re_probe env) (re_probeNs env) = None"
    using assms(6-8) by (simp add: validateEngine_def)
  from run_in_container_good [OF w v assms(9-11), of J srv sub "running_result sub env" "saveResult J srv (running_result sub env) s"]
  obtain st s' where "summary (take 500000 (re_pushed env)) = Some st"
    "run_in_container J srv cfg env sub addr (running_result sub env) (saveResult J srv (running_result sub env) s) =
      Some ((completed_result ((running_result sub env)\<lparr>rr_FinishedAt := re_finished env\<rparr>) st, None), s')" by blast
  then show ?thesis using assms(1-3) by (simp add: judge_Run_def Let_def completed_result_def)
qed

section \<open>Properties\<close>

text \<open>A run in the documented daemon and server, for the witnesses.\<close>

definition demo_env :: run_env where
  "demo_env = \<lparr>re_nano = 7, re_started = 1, re_waitStart = 0,
     re_attempts = (\<lambda>i. \<lparr>at_dialErr = None, at_now = int i * 300000000, at_ctxErr = None\<rparr>),
     re_probeDial = None, re_probe = (\<lambda>req. Inr demo_reply), re_probeNs = 0, re_fleetDial = None,
     re_bots = (\<lambda>i. \<lparr>bi_streamErr = False, bi_turns = (\<lambda>t. if t < 9 then TurnSent else TurnDone), bi_recvErr = (\<lambda>t. 9 < t)\<rparr>),
     re_pushed = [zero_metric], re_finished = 5, re_failed = 6, re_runCtxErr = None\<rparr>"

definition demo_sub :: submission where
  "demo_sub = \<lparr>sub_ID = ''c-1'', sub_ContestantID = ''c'', sub_ImageTag = ''img'', sub_SubmittedAt = 0\<rparr>"

definition demo_codec :: "'a codec" where
  "demo_codec = \<lparr>marshal = (\<lambda>r. ''json''), unmarshal = (\<lambda>s. Inl ''unknown'')\<rparr>"

lemma demo_tag: "sub_ImageTag demo_sub \<noteq> ''''"
  by (simp add: demo_sub_def)

lemma demo_env_ok:
  "clock_advances (re_waitStart demo_env) (re_attempts demo_env)" "length (re_pushed demo_env) < 2 ^ 64"
  "re_fleetDial demo_env = None"
  by (simp_all add: demo_env_def clock_advances_def)

lemma demo_can_end: "fleet_can_end DefaultConfig demo_env"
  by (auto simp: fleet_can_end_def context_ends_def DefaultConfig_def demo_env_def
    intro: exI [of _ "9 :: nat"] exI [of _ "10 :: nat"])

lemma parse_512m: "ParseBytes ''512m'' = Inr 536870912"
proof -
  have "show_nat 512 = ''512''" by code_simp
  then show ?thesis using ParseBytes_unit [of 512 "CHR ''m''" 1048576] by (simp add: unit_mult_def int64_wrap_def)
qed

lemma demo_steps:
  "EnsureInternalNetwork toy_docker ''iicpc_internal'' [] = (Inr ''net'', [])"
  "ParseBytes (jc_SandboxMemory DefaultConfig) = Inr 536870912"
  "sub_ImageTag sub \<noteq> '''' \<Longrightarrow>
   \<exists>cid addr d2. RunSandbox toy_docker (sandbox_options DefaultConfig sub 536870912) [] = (Inr (cid, addr), d2)"
  "at_dialErr (re_attempts demo_env 0) = None" "re_probeDial demo_env = None"
  "re_probe demo_env (probe_order (re_probeNs demo_env)) = Inr demo_reply" "or_Status demo_reply \<noteq> ''''"
  by (simp_all add: EnsureInternalNetwork_def toy_docker_def DefaultConfig_def parse_512m RunSandbox_def
    sandbox_options_def Let_def demo_env_def demo_reply_def)

lemma demo_judge_run:
  assumes "sub_ImageTag sub \<noteq> ''''"
  shows "\<exists>res d' s' st. judge_Run toy_docker J srv DefaultConfig demo_env sub [] s = Some ((res, None), d', s') \<and>
     summary [zero_metric] = Some st \<and>
     res = completed_result ((running_result sub demo_env)\<lparr>rr_FinishedAt := 5\<rparr>) st"
proof -
  obtain cid addr d2 where r: "RunSandbox toy_docker (sandbox_options DefaultConfig sub 536870912) [] = (Inr (cid, addr), d2)"
    using demo_steps(3) [OF assms] by blast
  from judge_Run_good [where n = 0 and J = J and srv = srv and s = s, OF demo_steps(1,2) r _ demo_steps(4-7) demo_env_ok(3) demo_can_end demo_env_ok(2)]
  obtain res s' where j: "judge_Run toy_docker J srv DefaultConfig demo_env sub [] s = Some ((res, None), StopAndRemove toy_docker cid d2, s')"
    by blast
  from completed_run [OF this demo_env_ok(2)] j show ?thesis by (auto simp: demo_env_def)
qed

text \<open>
  C18: a judge run returns, whatever Docker, Redis, gRPC and the engine answer, if the configured
  rate is at most 10^9 orders a second (above it the bots' ticker panics), the clock moves on by
  the 300 ms pause of each attempt, and for each bot the fleet's context ends: at some turn its
  \<open>select\<close> takes the end and the stream's \<open>Recv\<close> fails. Then the wait for the port ends, every
  bot returns, no percentile index is out of range, and the run gives a result.
\<close>

theorem judge_Run_returns:
  assumes "jc_OrdersPerSec cfg \<le> 1000000000" "clock_advances (re_waitStart env) (re_attempts env)"
    and "\<And>i. context_ends (re_bots env i)" "length (re_pushed env) < 2 ^ 64"
  shows "\<exists>res err d' s'. judge_Run D J srv cfg env sub d s = Some ((res, err), d', s') \<and>
    rr_Status res = (if err = None then StatusCompleted else StatusFailed) \<and> (\<forall>e. err = Some e \<longrightarrow> rr_Error res = e)"
proof -
  have c: "fleet_can_end cfg env" using assms(1,3) by (simp add: fleet_can_end_def)
  obtain res err d' s' where r: "judge_Run D J srv cfg env sub d s = Some ((res, err), d', s')"
    using judge_Run_Some [OF assms(2) c assms(4), of D J srv sub d s] by blast
  then show ?thesis using judge_Run_end [OF r] by (auto simp: run_end_def split: option.splits)
qed

lemma judge_Run_returns_witness:
  "\<exists>res err d' s'. judge_Run toy_docker demo_codec (ref_server []) DefaultConfig demo_env demo_sub [] empty_store
     = Some ((res, err), d', s') \<and> rr_Status res = (if err = None then StatusCompleted else StatusFailed)"
  using judge_Run_returns [where cfg = DefaultConfig and D = toy_docker and J = demo_codec and srv = "ref_server []"
      and sub = demo_sub and d = "[]" and s = empty_store, OF _ demo_env_ok(1) _ demo_env_ok(2)] demo_can_end
  unfolding fleet_can_end_def by blast

text \<open>
  A rate beyond 10^9 is not refused anywhere: the first bot that starts panics, and with it the
  process, so no run that gets as far as its fleet returns.
\<close>

theorem fast_rate_panics:
  assumes "1000000000 < jc_OrdersPerSec cfg" "re_fleetDial env = None"
    and "waitForGRPC addr (re_waitStart env) (re_attempts env) = Some None"
    and "validateEngine (re_probeDial env) (re_probe env) (re_probeNs env) = None"
  shows "run_in_container J srv cfg env sub addr r s = None"
proof -
  let ?f = "fleet_config cfg sub addr (rr_RunID r)"
  have "cf_OrdersPerSec (run_defaults ?f) = jc_OrdersPerSec cfg"
    using assms(1) by (simp add: run_defaults_def fleet_config_def Let_def)
  then have "bot_interval (run_defaults ?f) = None" using assms(1) by (simp add: bot_interval_def go_quot_def Let_def)
  then have "fleet_Run None (re_bots env) (re_pushed env) ?f rb = None" for rb
    by (simp add: fleet_Run_def Run_start_def NewProducer_def Let_def)
  then show ?thesis using assms(2-4) by (simp add: run_in_container_def Let_def)
qed

lemma fast_rate_panics_witness:
  "run_in_container demo_codec (ref_server []) (DefaultConfig\<lparr>jc_OrdersPerSec := 2000000000\<rparr>) demo_env demo_sub ''h''
     (running_result demo_sub demo_env) empty_store = None"
proof (rule fast_rate_panics)
  show "waitForGRPC ''h'' (re_waitStart demo_env) (re_attempts demo_env) = Some None"
    using demo_steps(4) by (simp add: waitForGRPC_def wait_loop.simps)
  show "validateEngine (re_probeDial demo_env) (re_probe demo_env) (re_probeNs demo_env) = None"
    using demo_steps(5-7) by (simp add: validateEngine_def)
qed (simp_all add: demo_env_def)

text \<open>
  C7: what a run can leave behind: on every path, failures included, a container that is there
  after the run and was not before is one whose create or forced remove Docker answered with an
  error during the run; when there was no such error, the run leaves none.
\<close>

theorem judge_Run_leaves_no_container:
  assumes "docker_law D alive errored" "judge_Run D J srv cfg env sub d s = Some (out, d', s')"
  shows "errored d \<subseteq> errored d' \<and> alive d' - alive d \<subseteq> errored d' - errored d"
  using judge_Run_alive [OF assms] by (simp only: leaks_only_errored_def)

lemma judge_Run_leaves_no_container_witness:
  "\<exists>out d' s'. judge_Run toy_docker demo_codec (ref_server []) DefaultConfig demo_env demo_sub [] empty_store
     = Some (out, d', s') \<and> set d' = {}"
proof -
  obtain out d' s' where "judge_Run toy_docker demo_codec (ref_server []) DefaultConfig demo_env demo_sub [] empty_store
      = Some (out, d', s')" by (metis judge_Run_Some [OF demo_env_ok(1) demo_can_end demo_env_ok(2)])
  with judge_Run_leaves_no_container [OF toy_docker_law this] show ?thesis by auto
qed

text \<open>
  C8: when Redis is up, the final record is the one stored: after any run the key of the run holds
  the returned result (completed or failed, not the running one saved first), nothing else but
  the two lists of runs has changed, and exactly a completed run is announced. The run's id is
  on both lists twice, once for each save, and the contestant's list keeps 50 entries.
\<close>

theorem judge_Run_records:
  assumes "redis_up srv view" "judge_Run D J srv cfg env sub d s = Some ((res, err), d', s')"
    and "read_list (st_keys (view s) (''runs:submission:'' @ sub_ID sub)) = Some subs"
    and "read_list (st_keys (view s) (''runs:contestant:'' @ sub_ContestantID sub)) = Some runs"
  shows "st_keys (view s') (''run:'' @ run_id sub env) = Some (VStr (marshal J res)) \<and>
    rr_RunID res = run_id sub env \<and> rr_SubmissionID res = sub_ID sub \<and> rr_ContestantID res = sub_ContestantID sub \<and>
    read_list (st_keys (view s') (''runs:submission:'' @ sub_ID sub)) = Some (run_id sub env # run_id sub env # subs) \<and>
    read_list (st_keys (view s') (''runs:contestant:'' @ sub_ContestantID sub)) =
      Some (take 50 (run_id sub env # run_id sub env # runs)) \<and>
    (\<forall>k. k \<notin> {''run:'' @ run_id sub env, ''runs:submission:'' @ sub_ID sub, ''runs:contestant:'' @ sub_ContestantID sub}
       \<longrightarrow> st_keys (view s') k = st_keys (view s) k) \<and>
    st_published (view s') = st_published (view s) @
      (if err = None then [(''leaderboard_updates'', sub_ContestantID sub)] else [])"
  by (rule run_end_stored [OF assms])

lemma judge_Run_records_witness:
  "\<exists>res err d' s'. judge_Run toy_docker demo_codec (ref_server []) DefaultConfig demo_env demo_sub [] empty_store
       = Some ((res, err), d', s') \<and>
     st_keys s' (''run:'' @ run_id demo_sub demo_env) = Some (VStr ''json'') \<and>
     read_list (st_keys s' ''runs:contestant:c'') = Some [run_id demo_sub demo_env, run_id demo_sub demo_env]"
proof -
  obtain res err d' s' where r: "judge_Run toy_docker demo_codec (ref_server []) DefaultConfig demo_env demo_sub [] empty_store
      = Some ((res, err), d', s')" by (metis judge_Run_Some [OF demo_env_ok(1) demo_can_end demo_env_ok(2)])
  have "read_list (st_keys (id empty_store) (''runs:submission:'' @ sub_ID demo_sub)) = Some []"
    "read_list (st_keys (id empty_store) (''runs:contestant:'' @ sub_ContestantID demo_sub)) = Some []"
    by (simp_all add: empty_store_def)
  from judge_Run_records [OF ref_server_up r this]
  show ?thesis using r by (intro exI conjI) (assumption, simp_all add: demo_sub_def demo_codec_def)
qed

text \<open>
  C9: a completed run reports what the fleet recorded: the statistics of the first 500000 metrics,
  the capacity of the ring, whatever the fleet pushes beyond them. When the fleet's connection
  fails after the run's context has ended, there are no metrics and the run is completed with
  zeros.
\<close>

theorem completed_run_reports_fleet:
  assumes "judge_Run D J srv cfg env sub d s = Some ((res, None), d', s')" "length (re_pushed env) < 2 ^ 64"
  shows "\<exists>st. (if re_fleetDial env = None then summary (take 500000 (re_pushed env)) = Some st
      else st = zero_stats \<and> re_runCtxErr env \<noteq> None) \<and>
    rr_Status res = StatusCompleted \<and> rr_TotalOrders res = l_Count st \<and> rr_CorrectRatio res = l_CorrectRatio st \<and>
    rr_P50Us res = l_P50Us st \<and> rr_P90Us res = l_P90Us st \<and> rr_P99Us res = l_P99Us st \<and> rr_Score res = l_Score st \<and>
    rr_StartedAt res = re_started env \<and> rr_FinishedAt res = re_finished env \<and> rr_Error res = ''''"
proof -
  obtain st where "res = completed_result ((running_result sub env)\<lparr>rr_FinishedAt := re_finished env\<rparr>) st"
    "if re_fleetDial env = None then summary (take 500000 (re_pushed env)) = Some st
     else st = zero_stats \<and> re_runCtxErr env \<noteq> None" using completed_run [OF assms] by blast
  then show ?thesis by (intro exI [of _ st]) (simp add: completed_result_def running_result_def)
qed

lemma completed_run_reports_fleet_witness:
  "\<exists>res d' s' st. judge_Run toy_docker demo_codec (ref_server []) DefaultConfig demo_env demo_sub [] empty_store
       = Some ((res, None), d', s') \<and>
     summary [zero_metric] = Some st \<and> rr_TotalOrders res = l_Count st \<and> rr_Score res = l_Score st"
proof -
  obtain res d' s' where r: "judge_Run toy_docker demo_codec (ref_server []) DefaultConfig demo_env demo_sub [] empty_store
      = Some ((res, None), d', s')" using demo_judge_run [OF demo_tag, of demo_codec "ref_server []" empty_store] by blast
  have p: "take 500000 (re_pushed demo_env) = [zero_metric]" "re_fleetDial demo_env = None"
    by (simp_all add: demo_env_def)
  show ?thesis using completed_run_reports_fleet [OF r demo_env_ok(2)] r unfolding p by auto
qed

text \<open>
  A submission that behaves is judged: with a network, a memory size that parses, a container
  that starts, a port that opens before the deadline, a probe answered with a status and a fleet
  that connects, the run completes without error and its result is that of the fleet's metrics.
\<close>

theorem healthy_run_completes:
  assumes "EnsureInternalNetwork D ''iicpc_internal'' d = (Inr net, d1)"
    and "ParseBytes (jc_SandboxMemory cfg) = Inr mem"
    and "RunSandbox D (sandbox_options cfg sub mem) d1 = (Inr (cid, addr), d2)"
    and "\<forall>j < n. \<not> attempt_decides (re_waitStart env + 10000000000) (re_attempts env j)"
    and "at_dialErr (re_attempts env n) = None"
    and "re_probeDial env = None" "re_probe env (probe_order (re_probeNs env)) = Inr resp" "or_Status resp \<noteq> ''''"
    and "re_fleetDial env = None" "fleet_can_end cfg env" "length (re_pushed env) < 2 ^ 64"
  shows "\<exists>res s' st. judge_Run D J srv cfg env sub d s = Some ((res, None), StopAndRemove D cid d2, s') \<and>
    summary (take 500000 (re_pushed env)) = Some st \<and> rr_Status res = StatusCompleted \<and>
    rr_TotalOrders res = l_Count st \<and> rr_Score res = l_Score st"
  using assms by (rule judge_Run_good)

lemma healthy_run_completes_witness:
  "\<exists>res d' s'. judge_Run toy_docker demo_codec (ref_server []) DefaultConfig demo_env demo_sub [] empty_store
     = Some ((res, None), d', s') \<and> rr_Status res = StatusCompleted"
proof -
  obtain cid addr d2 where r: "RunSandbox toy_docker (sandbox_options DefaultConfig demo_sub 536870912) [] = (Inr (cid, addr), d2)"
    using demo_steps(3) [OF demo_tag] by blast
  from healthy_run_completes [where n = 0 and J = demo_codec and srv = "ref_server []" and s = empty_store,
      OF demo_steps(1,2) r _ demo_steps(4-7) demo_env_ok(3) demo_can_end demo_env_ok(2)] show ?thesis by blast
qed

end
