(* ===== verification/Arena.thy ===== *)
theory Arena
  imports JudgeEngine
begin

text \<open>
  Bots against the reference matcher: \<open>runBot\<close> of internal/botfleet and \<open>StreamOrders\<close> of
  cmd/mock_matcher_go joined by the two directions of a gRPC stream, which keep the order of what
  is sent. From one exchange to the result the judge saves for a container that runs the matcher.
\<close>

section \<open>A session\<close>

record 'r session =
  se_bot :: "'r bot"
  se_requests :: "orderRequest list"
  se_replies :: "orderResponse list"
  se_serving :: bool

definition start_session :: "'r \<Rightarrow> 'r session" where
  "start_session r = \<lparr>se_bot = start_bot r, se_requests = [], se_replies = [], se_serving = True\<rparr>"

text \<open>
  The steps of the bot are those of \<open>bot_step\<close>, tied to the stream; one turn of the matcher's loop
  takes a request and sends the reply, or ends the loop. The matcher's generator is shared by all
  streams, so a turn finds it in any state.
\<close>

inductive session_step :: "'r rng_ops \<Rightarrow> 'q rng_ops \<Rightarrow> config \<Rightarrow> string \<Rightarrow> 'r session \<Rightarrow> 'r session \<Rightarrow> bool"
  for R R' cfg botID where
  tick: "b_sender (se_bot x) = Waiting \<Longrightarrow>
    session_step R R' cfg botID x (x\<lparr>se_bot := on_tick R cfg botID now sentNs (se_bot x)\<rparr>)"
| send: "b_sender (se_bot x) = Sending req \<Longrightarrow>
    session_step R R' cfg botID x (x\<lparr>se_bot := (se_bot x)\<lparr>b_sender := Waiting\<rparr>, se_requests := se_requests x @ [req]\<rparr>)"
| send_err: "b_sender (se_bot x) = Sending req \<Longrightarrow> session_step R R' cfg botID x (x\<lparr>se_bot := on_send_err req (se_bot x)\<rparr>)"
| ctx_done: "b_sender (se_bot x) = Waiting \<Longrightarrow>
    session_step R R' cfg botID x (x\<lparr>se_bot := (se_bot x)\<lparr>b_sender := Closing\<rparr>\<rparr>)"
| serve: "se_serving x \<Longrightarrow> se_requests x = req # reqs \<Longrightarrow> mock_PlaceOrder R' None req now q = (Inr resp, q') \<Longrightarrow>
    session_step R R' cfg botID x (x\<lparr>se_requests := reqs, se_replies := se_replies x @ [resp]\<rparr>)"
| hang_up: "se_serving x \<Longrightarrow> session_step R R' cfg botID x (x\<lparr>se_serving := False\<rparr>)"
| deliver: "b_receiving (se_bot x) \<Longrightarrow> se_replies x = resp # resps \<Longrightarrow>
    session_step R R' cfg botID x (x\<lparr>se_bot := on_reply cfg botID resp recvNs (se_bot x), se_replies := resps\<rparr>)"
| recv_end: "b_receiving (se_bot x) \<Longrightarrow>
    session_step R R' cfg botID x (x\<lparr>se_bot := (se_bot x)\<lparr>b_receiving := False\<rparr>\<rparr>)"
| return: "b_sender (se_bot x) = Closing \<Longrightarrow> \<not> b_receiving (se_bot x) \<Longrightarrow>
    session_step R R' cfg botID x (x\<lparr>se_bot := (se_bot x)\<lparr>b_sender := Returned\<rparr>\<rparr>)"

text \<open>A session is a run of the bot alone with particular replies.\<close>

lemma session_bot: "session_step R R' cfg botID x x' \<Longrightarrow> se_bot x' = se_bot x \<or> bot_step R cfg botID (se_bot x) (se_bot x')"
  by (induction rule: session_step.induct) (auto intro: bot_step.intros)

lemma session_run_bot:
  "(session_step R R' cfg botID)\<^sup>*\<^sup>* (start_session r) x \<Longrightarrow> (bot_step R cfg botID)\<^sup>*\<^sup>* (start_bot r) (se_bot x)"
proof (induction rule: rtranclp_induct)
  case base
  then show ?case by (simp add: start_session_def)
next
  case (step x x')
  then show ?case using session_bot [OF step(2)] by (metis rtranclp.rtrancl_into_rtrancl)
qed

text \<open>The matcher's turns are those of its loop.\<close>

lemma serve_is_StreamOrders:
  assumes "mock_PlaceOrder R' None req now q = (Inr resp, q')"
  shows "mock_StreamOrders R' (Req req None now None # ins) q =
    (case mock_StreamOrders R' ins q' of (out, e) \<Rightarrow> (resp # out, e))"
  by (simp add: assms)

section \<open>Every reply is judged correct, in order\<close>

text \<open>
  Every order issued has the shape the matcher judges by, everything on its way belongs to an
  issued order, and replies on their way will be judged correct.
\<close>

definition fits :: "config \<Rightarrow> string \<Rightarrow> orderRequest \<times> bool \<times> u64 \<Rightarrow> bool" where
  "fits cfg botID x \<longleftrightarrow> (case x of (req, isCancel, sentNs) \<Rightarrow> oq_ClientId req = botID \<and> oq_Symbol req = cf_Symbol cfg \<and>
     oq_OrderId req \<noteq> '''' \<and> (oq_Quantity req = 0 \<longleftrightarrow> isCancel))"

definition good_reply :: "'r bot \<Rightarrow> orderResponse \<Rightarrow> bool" where
  "good_reply b resp \<longleftrightarrow> (\<exists>req isCancel sentNs. (req, isCancel, sentNs) \<in> set (b_issued b) \<and>
     or_OrderId resp = oq_OrderId req \<and> judge_status isCancel (or_Status resp))"

definition issued_req :: "'r bot \<Rightarrow> orderRequest \<Rightarrow> bool" where
  "issued_req b req \<longleftrightarrow> (\<exists>isCancel sentNs. (req, isCancel, sentNs) \<in> set (b_issued b))"

definition fair :: "config \<Rightarrow> string \<Rightarrow> 'r session \<Rightarrow> bool" where
  "fair cfg botID x \<longleftrightarrow> (\<forall>o' \<in> set (b_issued (se_bot x)). fits cfg botID o') \<and>
     (\<forall>req \<in> set (se_requests x). issued_req (se_bot x) req) \<and>
     (\<forall>req. b_sender (se_bot x) = Sending req \<longrightarrow> issued_req (se_bot x) req) \<and>
     (\<forall>resp \<in> set (se_replies x). good_reply (se_bot x) resp) \<and>
     (\<forall>m \<in> set (b_metrics (se_bot x)). m_IsCorrect m)"

lemma fair_start: "fair cfg botID (start_session r)"
  by (simp add: fair_def start_session_def start_bot_def)

lemma on_tick_issues:
  assumes "rng_law R"
  shows "\<exists>req c. b_issued (on_tick R cfg botID now sentNs b) = b_issued b @ [(req, c, sentNs)] \<and> fits cfg botID (req, c, sentNs) \<and>
    b_sender (on_tick R cfg botID now sentNs b) = Sending req \<and> b_metrics (on_tick R cfg botID now sentNs b) = b_metrics b"
proof -
  obtain req c r' where bo: "buildOrder R botID (b_seq b + 1) (cf_Symbol cfg) now (b_rng b) = ((req, c), r')" by (metis surj_pair)
  have "oq_OrderId req \<noteq> ''''" by (simp add: buildOrder_fields(1) [OF bo] order_id_def)
  moreover have "oq_Quantity req = 0 \<longleftrightarrow> c" using buildOrder_shape [OF assms bo] by (auto simp: order_shape_def split: if_splits)
  ultimately show ?thesis using buildOrder_fields(2,3) [OF bo] by (simp add: on_tick_def bo Let_def fits_def)
qed

lemma good_reply_mono: "set (b_issued b) \<subseteq> set (b_issued b') \<Longrightarrow> good_reply b resp \<Longrightarrow> good_reply b' resp"
  unfolding good_reply_def by blast

lemma issued_req_mono: "set (b_issued b) \<subseteq> set (b_issued b') \<Longrightarrow> issued_req b req \<Longrightarrow> issued_req b' req"
  unfolding issued_req_def by blast

lemma same_issued:
  "b_issued b = b_issued b' \<Longrightarrow> good_reply b = good_reply b'" "b_issued b = b_issued b' \<Longrightarrow> issued_req b = issued_req b'"
  by (simp_all add: fun_eq_iff good_reply_def issued_req_def)

lemma matcher_replies_well:
  assumes "fits cfg botID (req, isCancel, sentNs)" "botID \<noteq> ''''" "cf_Symbol cfg \<noteq> ''''"
    and "mock_PlaceOrder R' None req now q = (Inr resp, q')"
  shows "or_OrderId resp = oq_OrderId req \<and> judge_status isCancel (or_Status resp)"
  using mock_PlaceOrder_reply [OF assms(4)] assms(1-3) by (auto simp: fits_def judge_status_def)

lemma same_order:
  assumes "bot_ok cfg botID b" "length (b_issued b) < 2 ^ 64" "b_pending b (oq_OrderId req) = Some e" "(req, isCancel, sentNs) \<in> set (b_issued b)"
  shows "pe_isCancel e = isCancel"
proof -
  obtain req' where r: "(req', pe_isCancel e, pe_sentNs e) \<in> set (b_issued b)" "oq_OrderId req' = oq_OrderId req"
    using assms(1,3) unfolding bot_ok_def pending_ok_def by blast
  have "distinct (map issued_id (b_issued b))" using issued_distinct assms(1,2) by (auto simp: bot_ok_def)
  then have "(req', pe_isCancel e, pe_sentNs e) = (req, isCancel, sentNs)"
    using r assms(4) by (intro inj_onD [of issued_id "set (b_issued b)"]) (simp_all add: distinct_map issued_id_def)
  then show ?thesis by simp
qed

lemma delivered_correct:
  assumes "bot_ok cfg botID b" "length (b_issued b) < 2 ^ 64" "good_reply b resp" "\<forall>m \<in> set (b_metrics b). m_IsCorrect m"
  shows "\<forall>m \<in> set (b_metrics (on_reply cfg botID resp recvNs b)). m_IsCorrect m"
proof (cases "b_pending b (or_OrderId resp)")
  case (Some e)
  obtain req c t where r: "(req, c, t) \<in> set (b_issued b)" "or_OrderId resp = oq_OrderId req" "judge_status c (or_Status resp)"
    using assms(3) by (auto simp: good_reply_def)
  have "pe_isCancel e = c" using same_order [OF assms(1,2) _ r(1)] Some r(2) by simp
  then show ?thesis using assms(4) r(3) Some by (auto simp: on_reply_def reply_metric_def Let_def)
qed (use assms(4) in \<open>simp add: on_reply_def\<close>)

lemma on_reply_fields [simp]:
  "b_issued (on_reply cfg botID resp recvNs b) = b_issued b" "b_sender (on_reply cfg botID resp recvNs b) = b_sender b"
  by (simp_all add: on_reply_def split: option.split)

lemma fair_step [keeps]:
  assumes "rng_law R" "botID \<noteq> ''''" "cf_Symbol cfg \<noteq> ''''"
  shows "session_step R R' cfg botID x x' \<Longrightarrow> fair cfg botID x \<Longrightarrow> bot_ok cfg botID (se_bot x) \<Longrightarrow>
    length (b_issued (se_bot x)) < 2 ^ 64 \<Longrightarrow> fair cfg botID x'"
proof (induction rule: session_step.induct)
  case (tick x now sentNs)
  let ?b' = "on_tick R cfg botID now sentNs (se_bot x)"
  obtain req c where t: "b_issued ?b' = b_issued (se_bot x) @ [(req, c, sentNs)]" "fits cfg botID (req, c, sentNs)"
    "b_sender ?b' = Sending req" "b_metrics ?b' = b_metrics (se_bot x)" using on_tick_issues [OF assms(1)] by blast
  have s: "set (b_issued (se_bot x)) \<subseteq> set (b_issued ?b')" by (simp add: t(1) subset_insertI)
  have "issued_req ?b' req" by (auto simp: issued_req_def t(1))
  then show ?case using tick(2) t good_reply_mono [OF s] issued_req_mono [OF s] by (auto simp: fair_def)
next
  case (serve x req reqs now q resp q')
  then obtain c sentNs where r: "(req, c, sentNs) \<in> set (b_issued (se_bot x))" by (auto simp: fair_def issued_req_def)
  then have "fits cfg botID (req, c, sentNs)" using serve(4) by (auto simp: fair_def)
  from matcher_replies_well [OF this assms(2,3) serve(3)] r have "good_reply (se_bot x) resp" by (auto simp: good_reply_def)
  then show ?case using serve(2,4) by (auto simp: fair_def)
next
  case (deliver x resp resps recvNs)
  have f: "fair cfg botID x" "good_reply (se_bot x) resp" "\<forall>m \<in> set (b_metrics (se_bot x)). m_IsCorrect m"
    using deliver(2,3) by (simp_all add: fair_def)
  note i = same_issued [of "on_reply cfg botID resp recvNs (se_bot x)" "se_bot x", OF on_reply_fields(1)]
  from delivered_correct [OF deliver(4,5) f(2,3)] f(1) deliver(2) show ?case by (simp add: fair_def i)
next
  case (send x req)
  then show ?case by (simp add: fair_def same_issued [of "(se_bot x)\<lparr>b_sender := Waiting\<rparr>" "se_bot x"])
next
  case (send_err x req)
  then show ?case by (simp add: fair_def on_send_err_def good_reply_def issued_req_def)
qed (simp_all add: fair_def good_reply_def issued_req_def)

lemma session_issued_mono: "session_step R R' cfg botID x x' \<Longrightarrow> length (b_issued (se_bot x)) \<le> length (b_issued (se_bot x'))"
  using session_bot issued_mono by (metis order_refl)

definition played :: "'r rng_ops \<Rightarrow> 'q rng_ops \<Rightarrow> config \<Rightarrow> string \<Rightarrow> 'r \<Rightarrow> 'r session \<Rightarrow> bool" where
  "played R R' cfg botID r x \<longleftrightarrow> (session_step R R' cfg botID)\<^sup>*\<^sup>* (start_session r) x \<and> length (b_issued (se_bot x)) < 2 ^ 64"

lemma played_fair:
  assumes "rng_law R" "botID \<noteq> ''''" "cf_Symbol cfg \<noteq> ''''" "played R R' cfg botID r x"
  shows "fair cfg botID x \<and> bot_ok cfg botID (se_bot x)"
proof -
  have "(session_step R R' cfg botID)\<^sup>*\<^sup>* (start_session r) x" "length (b_issued (se_bot x)) < 2 ^ 64"
    using assms(4) by (simp_all add: played_def)
  then show ?thesis
  proof (induction rule: rtranclp_induct)
    case base
    then show ?case using fair_start [of cfg botID r] bot_ok_start [of cfg botID r] by (simp add: start_session_def)
  next
    case (step x x')
    have n: "length (b_issued (se_bot x)) < 2 ^ 64" using session_issued_mono [OF step(2)] step(4) by linarith
    with step have "fair cfg botID x" "bot_ok cfg botID (se_bot x)" by simp_all
    then show ?case using fair_step [OF assms(1-3) step(2) _ _ n] session_bot [OF step(2)] bot_step_ok [of R cfg botID _ "se_bot x'"] step(4) by auto
  qed
qed

text \<open>
  The orders are judged in the order of issue: judged, replied, sent, and at most one that is being
  sent or could not be.
\<close>

definition under_way :: "'r session \<Rightarrow> string list" where
  "under_way x = map or_OrderId (se_replies x) @ map oq_OrderId (se_requests x)"

definition unsent :: "'r session \<Rightarrow> string list" where
  "unsent x = (case b_sender (se_bot x) of Sending req \<Rightarrow> [oq_OrderId req] | _ \<Rightarrow> [])"

definition in_turn :: "'r session \<Rightarrow> bool" where
  "in_turn x \<longleftrightarrow> (\<exists>failed. map m_OrderID (b_metrics (se_bot x)) @ under_way x @ unsent x @ failed = map issued_id (b_issued (se_bot x)) \<and>
     length (unsent x @ failed) \<le> 1 \<and> (b_sender (se_bot x) = Waiting \<longrightarrow> failed = [])) \<and>
     (\<forall>k \<in> set (under_way x @ unsent x). b_pending (se_bot x) k \<noteq> None)"

lemma in_turn_start: "in_turn (start_session r)"
  by (simp add: in_turn_def start_session_def start_bot_def under_way_def unsent_def)

lemma in_turn_distinct:
  assumes "in_turn x" "distinct (map issued_id (b_issued (se_bot x)))"
  shows "distinct (under_way x @ unsent x)"
proof -
  obtain failed where "map m_OrderID (b_metrics (se_bot x)) @ under_way x @ unsent x @ failed = map issued_id (b_issued (se_bot x))"
    using assms(1) by (auto simp: in_turn_def)
  from arg_cong [OF this, of distinct] show ?thesis using assms(2) by auto
qed

lemma in_turn_step [keeps]:
  "session_step R R' cfg botID x x' \<Longrightarrow> in_turn x \<Longrightarrow> distinct (map issued_id (b_issued (se_bot x))) \<Longrightarrow> in_turn x'"
proof (induction rule: session_step.induct)
  case (tick x now sentNs)
  obtain req c r' where "buildOrder R botID (b_seq (se_bot x) + 1) (cf_Symbol cfg) now (b_rng (se_bot x)) = ((req, c), r')"
    by (metis surj_pair)
  then show ?case using tick by (auto simp: in_turn_def under_way_def unsent_def on_tick_def issued_id_def)
next
  case (send x req)
  then show ?case by (auto simp: in_turn_def under_way_def unsent_def)
next
  case (send_err x req)
  then have "oq_OrderId req \<notin> set (under_way x)" using in_turn_distinct [of x] by (simp add: unsent_def)
  with send_err show ?case by (auto simp: in_turn_def under_way_def unsent_def on_send_err_def)
next
  case (serve x req reqs now q resp q')
  then show ?case using mock_PlaceOrder_reply(2) [OF serve(3)] by (auto simp: in_turn_def under_way_def unsent_def)
next
  case (deliver x resp resps recvNs)
  then have d: "or_OrderId resp \<notin> set (map or_OrderId resps @ map oq_OrderId (se_requests x) @ unsent x)"
    using in_turn_distinct [of x] by (simp add: under_way_def)
  obtain e where "b_pending (se_bot x) (or_OrderId resp) = Some e" using deliver by (auto simp: in_turn_def under_way_def)
  then have r: "on_reply cfg botID resp recvNs (se_bot x) = (se_bot x)\<lparr>b_pending := (b_pending (se_bot x))(or_OrderId resp := None),
      b_metrics := b_metrics (se_bot x) @ [reply_metric cfg botID e resp recvNs]\<rparr>" by (simp add: on_reply_def)
  have m: "m_OrderID (reply_metric cfg botID e resp recvNs) = or_OrderId resp" by (simp add: reply_metric_def Let_def)
  show ?case using deliver(2,3) d unfolding r by (auto simp: in_turn_def under_way_def unsent_def m split: sender.splits)
next
  case (ctx_done x)
  then show ?case by (intro in_turn_def [THEN iffD2] conjI exI [of _ "[]"]) (auto simp: in_turn_def under_way_def unsent_def)
qed (auto simp: in_turn_def under_way_def unsent_def split: sender.splits)

lemma played_in_turn:
  assumes "played R R' cfg botID r x"
  shows "in_turn x"
proof -
  have "(session_step R R' cfg botID)\<^sup>*\<^sup>* (start_session r) x" "length (b_issued (se_bot x)) < 2 ^ 64"
    using assms by (simp_all add: played_def)
  then show ?thesis
  proof (induction rule: rtranclp_induct)
    case (step x x')
    have n: "length (b_issued (se_bot x)) < 2 ^ 64" using session_issued_mono [OF step(2)] step(4) by linarith
    have "bot_ok cfg botID (se_bot x)" by (rule bot_run_ok [OF session_run_bot [OF step(1)] n])
    then have "distinct (map issued_id (b_issued (se_bot x)))" using issued_distinct n by (auto simp: bot_ok_def)
    with step n show ?case using in_turn_step by blast
  qed (rule in_turn_start)
qed

section \<open>Properties\<close>

text \<open>
  C12: a bot playing against the reference matcher over one stream: however sender, receiver and
  matcher interleave and wherever the stream breaks, every recorded metric is correct, and the orders
  are judged in the order of issue without a gap: those judged, those under way, and at most one that
  is being sent or whose sending failed, are together exactly the orders issued.
\<close>

theorem matcher_session_is_judged_correct:
  assumes "rng_law R" "botID \<noteq> ''''" "cf_Symbol cfg \<noteq> ''''"
    and "(session_step R R' cfg botID)\<^sup>*\<^sup>* (start_session r) x" "length (b_issued (se_bot x)) < 2 ^ 64"
  shows "(\<forall>m \<in> set (b_metrics (se_bot x)). m_IsCorrect m \<and> m_ErrorCode m = '''') \<and>
    (\<exists>rest. map m_OrderID (b_metrics (se_bot x)) @ map or_OrderId (se_replies x) @ map oq_OrderId (se_requests x) @ rest =
      map issued_id (b_issued (se_bot x)) \<and> length rest \<le> 1 \<and> (b_sender (se_bot x) = Waiting \<longrightarrow> rest = []))"
proof -
  have p: "played R R' cfg botID r x" using assms(4,5) by (simp add: played_def)
  from played_fair [OF assms(1-3) p] have f: "\<forall>m \<in> set (b_metrics (se_bot x)). m_IsCorrect m" "metrics_ok cfg botID (se_bot x)"
    by (simp_all add: fair_def bot_ok_def)
  have "m_ErrorCode m = ''''" if "m \<in> set (b_metrics (se_bot x))" for m
    using that f by (fastforce simp: metrics_ok_def metric_of_order_def reply_metric_def Let_def)
  moreover obtain failed where "map m_OrderID (b_metrics (se_bot x)) @ under_way x @ unsent x @ failed = map issued_id (b_issued (se_bot x))"
    "length (unsent x @ failed) \<le> 1" "b_sender (se_bot x) = Waiting \<longrightarrow> unsent x @ failed = []"
    using played_in_turn [OF p] by (auto simp: in_turn_def unsent_def)
  ultimately show ?thesis using f(1) by (intro conjI ballI exI [of _ "unsent x @ failed"]) (simp_all add: under_way_def)
qed

text \<open>One order played to its judgement, for the witnesses.\<close>

lemma demo_exchange:
  fixes R' :: "'q rng_ops" and r :: 'r
  assumes "rng_law R" "botID \<noteq> ''''" "cf_Symbol cfg \<noteq> ''''"
  shows "\<exists>x. (session_step R R' cfg botID)\<^sup>*\<^sup>* (start_session r) x \<and> length (b_issued (se_bot x)) = 1 \<and> length (b_metrics (se_bot x)) = 1"
proof -
  let ?b = "on_tick R cfg botID 1 2 (start_bot r)"
  obtain req c where t: "b_issued ?b = [(req, c, 2)]" "b_sender ?b = Sending req" "b_metrics ?b = []"
    using on_tick_issues [OF assms(1), of cfg botID 1 2 "start_bot r"] by (auto simp: start_bot_def)
  obtain q resp q' where m: "mock_PlaceOrder R' None req 3 q = (Inr resp, q')" using mock_PlaceOrder_total [of R' req 3] by blast
  let ?x1 = "(start_session r)\<lparr>se_bot := ?b\<rparr>"
  let ?x2 = "?x1\<lparr>se_bot := ?b\<lparr>b_sender := Waiting\<rparr>, se_requests := [req]\<rparr>"
  let ?x3 = "?x2\<lparr>se_requests := [], se_replies := [resp]\<rparr>"
  let ?x4 = "?x3\<lparr>se_bot := on_reply cfg botID resp 9 (?b\<lparr>b_sender := Waiting\<rparr>), se_replies := []\<rparr>"
  have "session_step R R' cfg botID (start_session r) ?x1"
    using tick [of "start_session r" R R' cfg botID 1 2] by (simp add: start_session_def start_bot_def)
  moreover have "session_step R R' cfg botID ?x1 ?x2"
    using send [of ?x1 req R R' cfg botID] t(2) by (simp add: start_session_def)
  moreover have "session_step R R' cfg botID ?x2 ?x3"
    using serve [of ?x2 req "[]" R' 3 q resp q' R cfg botID] m by (simp add: start_session_def)
  moreover have "b_receiving ?b" by (simp add: on_tick_def start_bot_def Let_def split: prod.split)
  then have "session_step R R' cfg botID ?x3 ?x4"
    using deliver [of ?x3 resp "[]" R R' cfg botID 9] by (simp add: start_session_def)
  ultimately have run: "(session_step R R' cfg botID)\<^sup>*\<^sup>* (start_session r) ?x4"
    by (meson converse_rtranclp_into_rtranclp rtranclp.rtrancl_refl)
  have n: "length (b_issued (se_bot ?x4)) = 1" by (simp add: t(1))
  then have "in_turn ?x4" using run by (intro played_in_turn) (simp add: played_def)
  then have "length (b_metrics (se_bot ?x4)) = 1"
    by (auto simp: in_turn_def under_way_def unsent_def start_session_def t(1) dest: arg_cong [where f = length])
  with run n show ?thesis by blast
qed

lemma matcher_session_is_judged_correct_witness:
  "\<exists>x. (session_step zero_rng zero_rng demo_config ''b'')\<^sup>*\<^sup>* (start_session ()) x \<and> length (b_metrics (se_bot x)) = 1 \<and>
     (\<forall>m \<in> set (b_metrics (se_bot x)). m_IsCorrect m)"
proof -
  have c: "''b'' \<noteq> ''''" "cf_Symbol demo_config \<noteq> ''''" by (simp_all add: demo_config_def)
  from demo_exchange [OF zero_rng_law this, of zero_rng "()"] obtain x where
    x: "(session_step zero_rng zero_rng demo_config ''b'')\<^sup>*\<^sup>* (start_session ()) x" "length (b_issued (se_bot x)) = 1"
    "length (b_metrics (se_bot x)) = 1" by blast
  have "length (b_issued (se_bot x)) < 2 ^ 64" by (simp add: x(2))
  from matcher_session_is_judged_correct [OF zero_rng_law c x(1) this] x show ?thesis by blast
qed

text \<open>
  The metrics a fleet can record from streams to the matcher: those of some session of one of its
  bots, under the configuration the fleet completes with its defaults.
\<close>

definition matcher_metric :: "'r rng_ops \<Rightarrow> 'q rng_ops \<Rightarrow> config \<Rightarrow> metric \<Rightarrow> bool" where
  "matcher_metric R R' fcfg m \<longleftrightarrow> (\<exists>i r x. (session_step R R' (run_defaults fcfg) (bot_name i))\<^sup>*\<^sup>* (start_session r) x \<and>
     length (b_issued (se_bot x)) < 2 ^ 64 \<and> m \<in> set (b_metrics (se_bot x)))"

lemma matcher_metric_correct: "rng_law R \<Longrightarrow> matcher_metric R R' fcfg m \<Longrightarrow> m_IsCorrect m"
  using played_fair [of R "bot_name _" "run_defaults fcfg"] run_defaults_valid(4) [of fcfg]
  by (fastforce simp: matcher_metric_def played_def fair_def bot_name_def)

lemma probe_filled:
  assumes "fst (mock_PlaceOrder R' None (probe_order ns) now q) = Inr resp"
  shows "or_Status resp = ''FILLED''"
proof -
  obtain q' where "mock_PlaceOrder R' None (probe_order ns) now q = (Inr resp, q')" using assms by (metis prod.collapse)
  from mock_PlaceOrder_reply(6) [OF this] show ?thesis by (simp add: probe_order_def)
qed

lemma full_marks:
  assumes "ms \<noteq> []" "length ms \<le> 2 ^ 46" "\<forall>m \<in> set ms. m_IsCorrect m" "summary ms = Some st"
  shows "l_Count st = of_nat (length ms) \<and> l_CorrectRatio st = Fin 1 \<and> l_Score st = judge_score (Fin 1) (l_P99Us st)"
proof -
  have c: "length (filter m_IsCorrect ms) = length ms" using assms(3) by simp
  have "ratio_rat (length ms) (length ms) = 1" using assms(1) by (simp add: ratio_rat_def)
  then show ?thesis using summary_eq [OF assms(1,2)] assms(4) judge_score_Fin [of 1 "l_P99Us st"] unfolding c by auto
qed

text \<open>
  C10: a submission that is the reference matcher gets full marks. Its container starts and its port
  opens in time, the rate is one a ticker can have (at most 10^9 a second) and the fleet's context
  ends for every bot; the probe and every bot's orders are answered by \<open>PlaceOrder\<close>, over one stream for each
  bot, in any interleaving and pushed in any order. Then the run completes, counts the metrics the
  ring could hold, and reports all of them as correct: the ratio is exactly 1 and the score the
  highest for its 99th percentile.
\<close>

theorem reference_matcher_gets_full_marks:
  assumes "EnsureInternalNetwork D ''iicpc_internal'' d = (Inr net, d1)"
    and "ParseBytes (jc_SandboxMemory cfg) = Inr mem"
    and "RunSandbox D (sandbox_options cfg sub mem) d1 = (Inr (cid, addr), d2)"
    and "\<forall>j < n. \<not> attempt_decides (re_waitStart env + 10000000000) (re_attempts env j)"
    and "at_dialErr (re_attempts env n) = None" "re_probeDial env = None" "re_fleetDial env = None"
    and "re_probe env (probe_order (re_probeNs env)) = fst (mock_PlaceOrder R' None (probe_order (re_probeNs env)) now q)"
    and "jc_OrdersPerSec cfg \<le> 1000000000" "\<And>i. context_ends (re_bots env i)"
    and "rng_law R" "length (re_pushed env) < 2 ^ 64"
    and "\<forall>m \<in> set (re_pushed env). matcher_metric R R' (fleet_config cfg sub addr (run_id sub env)) m"
  shows "\<exists>res s'. judge_Run D J srv cfg env sub d s = Some ((res, None), StopAndRemove D cid d2, s') \<and>
    rr_Status res = StatusCompleted \<and> rr_TotalOrders res = of_nat (min 500000 (length (re_pushed env))) \<and>
    (re_pushed env \<noteq> [] \<longrightarrow> rr_CorrectRatio res = Fin 1 \<and> rr_Score res = judge_score (Fin 1) (rr_P99Us res))"
proof -
  obtain resp where p: "re_probe env (probe_order (re_probeNs env)) = Inr resp"
    using assms(8) mock_PlaceOrder_total [of R' "probe_order (re_probeNs env)" now q] by auto
  have "or_Status resp \<noteq> ''''" using probe_filled p assms(8) by (metis list.distinct(1))
  have c: "fleet_can_end cfg env" using assms(9,10) by (simp add: fleet_can_end_def)
  from judge_Run_good [OF assms(1-6) p \<open>or_Status resp \<noteq> ''''\<close> assms(7) c assms(12), of J srv s] obtain res s' where
    j: "judge_Run D J srv cfg env sub d s = Some ((res, None), StopAndRemove D cid d2, s')" by blast
  let ?ms = "take 500000 (re_pushed env)"
  from completed_run [OF j assms(12)] assms(7) obtain st where
    st: "res = completed_result ((running_result sub env)\<lparr>rr_FinishedAt := re_finished env\<rparr>) st" "summary ?ms = Some st" by auto
  have c: "\<forall>m \<in> set ?ms. m_IsCorrect m" using assms(13) matcher_metric_correct [OF assms(11)] in_set_takeD by fast
  have n: "length ?ms \<le> 2 ^ 46" by simp
  show ?thesis
  proof (cases "?ms = []")
    case True
    then show ?thesis using j st by (auto simp: summary_Nil zero_stats_def completed_result_def)
  next
    case False
    from full_marks [OF this n c st(2)] show ?thesis using j st(1) by (auto simp: completed_result_def min.commute)
  qed
qed

lemma reference_matcher_gets_full_marks_witness:
  "\<exists>env res d' s'. length (re_pushed env) = 1 \<and>
     judge_Run toy_docker demo_codec (ref_server []) DefaultConfig env demo_sub [] empty_store = Some ((res, None), d', s') \<and>
     rr_CorrectRatio res = Fin 1"
proof -
  obtain cid addr d2 where r: "RunSandbox toy_docker (sandbox_options DefaultConfig demo_sub 536870912) [] = (Inr (cid, addr), d2)"
    using demo_steps(3) [OF demo_tag] by blast
  let ?cfg = "fleet_config DefaultConfig demo_sub addr (run_id demo_sub demo_env)"
  have "bot_name 0 \<noteq> ''''" by (simp add: bot_name_def)
  from demo_exchange [OF zero_rng_law this run_defaults_valid(4) [of ?cfg], of zero_rng "()"] obtain x where
    x: "(session_step zero_rng zero_rng (run_defaults ?cfg) (bot_name 0))\<^sup>*\<^sup>* (start_session ()) x" "length (b_issued (se_bot x)) = 1"
    "length (b_metrics (se_bot x)) = 1" by blast
  define env where "env = demo_env\<lparr>re_probe := \<lambda>req. fst (mock_PlaceOrder zero_rng None req 0 ()), re_pushed := b_metrics (se_bot x)\<rparr>"
  have e: "at_dialErr (re_attempts env 0) = None" "re_probeDial env = None" "re_fleetDial env = None"
    "re_probe env (probe_order (re_probeNs env)) = fst (mock_PlaceOrder zero_rng None (probe_order (re_probeNs env)) 0 ())"
    "length (re_pushed env) = 1" "re_pushed env = b_metrics (se_bot x)" "run_id demo_sub env = run_id demo_sub demo_env"
    by (simp_all add: env_def demo_env_def x(3) run_id_def)
  have m: "\<forall>m \<in> set (re_pushed env). matcher_metric zero_rng zero_rng (fleet_config DefaultConfig demo_sub addr (run_id demo_sub env)) m"
    using x(1,2) unfolding matcher_metric_def e(6,7) by (intro ballI exI [of _ 0] exI [of _ "()"] exI [of _ x]) simp
  have b: "jc_OrdersPerSec DefaultConfig \<le> 1000000000" "context_ends (re_bots env i)" for i
    using demo_can_end by (simp_all add: fleet_can_end_def env_def)
  have l: "length (re_pushed env) < 2 ^ 64" "\<forall>j < 0. \<not> attempt_decides (re_waitStart env + 10000000000) (re_attempts env j)"
    "re_pushed env \<noteq> []" using e(5) by auto
  from reference_matcher_gets_full_marks [where J = demo_codec and srv = "ref_server []" and s = empty_store,
      OF demo_steps(1,2) r l(2) e(1-4) b zero_rng_law l(1) m] e(5) l(3) show ?thesis by blast
qed

end
