(* ===== verification/Registry.thy ===== *)
theory Registry
  imports JudgeEngine
begin

text \<open>
  internal/registry/registry.go: contestants, submissions and run results in Redis, as JSON under
  one key each, with a set of the contestants and lists of the newest submissions and runs.
\<close>

section \<open>Contestants\<close>

record contestant =
  co_ID :: string
  co_DisplayName :: string
  co_RegisteredAt :: int

text \<open>The two sentinel errors, with the kind and the id their message names, and any other error.\<close>

datatype regError =
    ErrNotFound string string
  | ErrAlreadyExists string string
  | ErrOther string

fun error_text :: "regError \<Rightarrow> string" where
  "error_text (ErrNotFound kind i) = ''not found: '' @ kind @ '' '' @ go_quote i"
| "error_text (ErrAlreadyExists kind i) = ''already exists: '' @ kind @ '' '' @ go_quote i"
| "error_text (ErrOther e) = e"

text \<open>Registration asks whether the key exists and then writes, in two round trips.\<close>

definition register_check :: "'s server \<Rightarrow> contestant \<Rightarrow> 's \<Rightarrow> regError option \<times> 's" where
  "register_check srv c s =
     (let key = ''contestant:'' @ co_ID c; (rep, s1) = srv (CExists key) s
      in (case as_int rep of
            Inl e \<Rightarrow> Some (ErrOther e)
          | Inr exists \<Rightarrow> if exists > 0 then Some (ErrAlreadyExists ''contestant'' (co_ID c)) else None, s1))"

definition register_write :: "contestant codec \<Rightarrow> 's server \<Rightarrow> contestant \<Rightarrow> 's \<Rightarrow> regError option \<times> 's" where
  "register_write C srv c s =
     (let key = ''contestant:'' @ co_ID c; b = marshal C c;
          (err, s1) = pipeline srv [CSet key b, CSAdd ''contestants'' (co_ID c)] s
      in (map_option ErrOther err, s1))"

definition RegisterContestant :: "contestant codec \<Rightarrow> 's server \<Rightarrow> contestant \<Rightarrow> 's \<Rightarrow> regError option \<times> 's" where
  "RegisterContestant C srv c s =
     (case register_check srv c s of
        (Some e, s1) \<Rightarrow> (Some e, s1)
      | (None, s1) \<Rightarrow> register_write C srv c s1)"

section \<open>Reading records\<close>

text \<open>The three lookups by id differ in the key's prefix, the record and its name only.\<close>

definition get_json :: "'a codec \<Rightarrow> 's server \<Rightarrow> string \<Rightarrow> string \<Rightarrow> string \<Rightarrow> 's \<Rightarrow> (regError + 'a) \<times> 's" where
  "get_json C srv prefix kind i s =
     (let (rep, s1) = srv (CGet (prefix @ i)) s
      in (case as_val rep of
            Inl e \<Rightarrow> Inl (ErrOther e)
          | Inr None \<Rightarrow> Inl (ErrNotFound kind i)
          | Inr (Some v) \<Rightarrow> (case unmarshal C v of Inl e \<Rightarrow> Inl (ErrOther e) | Inr x \<Rightarrow> Inr x), s1))"

definition GetContestant :: "contestant codec \<Rightarrow> 's server \<Rightarrow> string \<Rightarrow> 's \<Rightarrow> (regError + contestant) \<times> 's" where
  "GetContestant C srv i s = get_json C srv ''contestant:'' ''contestant'' i s"

definition GetSubmission :: "submission codec \<Rightarrow> 's server \<Rightarrow> string \<Rightarrow> 's \<Rightarrow> (regError + submission) \<times> 's" where
  "GetSubmission C srv i s = get_json C srv ''submission:'' ''submission'' i s"

definition GetRunResult :: "runResult codec \<Rightarrow> 's server \<Rightarrow> string \<Rightarrow> 's \<Rightarrow> (regError + runResult) \<times> 's" where
  "GetRunResult C srv runID s = get_json C srv ''run:'' ''run'' runID s"

text \<open>What is missing or does not decode is left out of a list.\<close>

fun decode_all :: "'a codec \<Rightarrow> string option list \<Rightarrow> 'a list" where
  "decode_all C [] = []"
| "decode_all C (None # vs) = decode_all C vs"
| "decode_all C (Some v # vs) =
     (case unmarshal C v of Inr x \<Rightarrow> x # decode_all C vs | Inl e \<Rightarrow> decode_all C vs)"

definition list_json :: "'a codec \<Rightarrow> 's server \<Rightarrow> cmd \<Rightarrow> string \<Rightarrow> 's \<Rightarrow> (regError + 'a list) \<times> 's" where
  "list_json C srv ids_cmd prefix s =
     (let (rep, s1) = srv ids_cmd s in
      case as_keys rep of
        Inl e \<Rightarrow> (Inl (ErrOther e), s1)
      | Inr ids \<Rightarrow>
          if length ids = 0 then (Inr [], s1)
          else let keys = map (\<lambda>i. prefix @ i) ids; (rep2, s2) = srv (CMGet keys) s1
               in (case as_vals rep2 of Inl e \<Rightarrow> Inl (ErrOther e) | Inr vals \<Rightarrow> Inr (decode_all C vals), s2))"

definition ListContestants :: "contestant codec \<Rightarrow> 's server \<Rightarrow> 's \<Rightarrow> (regError + contestant list) \<times> 's" where
  "ListContestants C srv s = list_json C srv (CSMembers ''contestants'') ''contestant:'' s"

definition ListSubmissions :: "submission codec \<Rightarrow> 's server \<Rightarrow> string \<Rightarrow> 's \<Rightarrow> (regError + submission list) \<times> 's" where
  "ListSubmissions C srv contestantID s =
     list_json C srv (CLRange (''submissions:contestant:'' @ contestantID) 0 99) ''submission:'' s"

definition ListRunsForContestant :: "runResult codec \<Rightarrow> 's server \<Rightarrow> string \<Rightarrow> int \<Rightarrow> 's \<Rightarrow> (regError + runResult list) \<times> 's" where
  "ListRunsForContestant C srv contestantID limit0 s =
     (let limit = (if limit0 \<le> 0 then 20 else limit0)
      in list_json C srv (CLRange (''runs:contestant:'' @ contestantID) 0 (limit - 1)) ''run:'' s)"

section \<open>Saving a submission\<close>

definition submission_cmds :: "submission codec \<Rightarrow> submission \<Rightarrow> cmd list" where
  "submission_cmds C x =
     [CSet (''submission:'' @ sub_ID x) (marshal C x),
      CLPush (''submissions:contestant:'' @ sub_ContestantID x) (sub_ID x),
      CLTrim (''submissions:contestant:'' @ sub_ContestantID x) 0 99]"

definition SaveSubmission :: "submission codec \<Rightarrow> 's server \<Rightarrow> submission \<Rightarrow> 's \<Rightarrow> regError option \<times> 's" where
  "SaveSubmission C srv x s = (let (err, s1) = pipeline srv (submission_cmds C x) s in (map_option ErrOther err, s1))"

section \<open>On a server that is up\<close>

lemma get_json_up:
  assumes "redis_up srv view" "read_str (st_keys (view s) (prefix @ i)) = Some v"
  shows "\<exists>s'. get_json C srv prefix kind i s =
      (case v of None \<Rightarrow> Inl (ErrNotFound kind i)
       | Some t \<Rightarrow> (case unmarshal C t of Inl e \<Rightarrow> Inl (ErrOther e) | Inr x \<Rightarrow> Inr x), s') \<and> view s' = view s"
proof -
  have "redis_exec (CGet (prefix @ i)) (view s) = Some (RVal v, view s)" using assms(2) by simp
  from redis_running.runs [OF redis_running_up [OF assms(1)] this] obtain s' where
    "srv (CGet (prefix @ i)) s = (Inr (RVal v), s')" "view s' = view s" by auto
  then show ?thesis by (simp add: get_json_def)
qed

lemma list_json_up:
  assumes "redis_up srv view" "redis_exec c (view s) = Some (RKeys ids, view s)" "\<not> is_scan c" "\<not> is_publish c"
  shows "\<exists>s'. list_json C srv c prefix s =
      (Inr (decode_all C (map (\<lambda>i. mget_one (st_keys (view s) (prefix @ i))) ids)), s') \<and> view s' = view s"
proof -
  note runs = redis_running.runs [OF redis_running_up [OF assms(1)]]
  obtain s1 where s1: "srv c s = (Inr (RKeys ids), s1)" "view s1 = view s"
    using runs [OF assms(2,3)] assms(4) by auto
  have "redis_exec (CMGet (map (\<lambda>i. prefix @ i) ids)) (view s1)
      = Some (RVals (map (\<lambda>k. mget_one (st_keys (view s1) k)) (map (\<lambda>i. prefix @ i) ids)), view s1)" by simp
  from runs [OF this] obtain s2 where
    "srv (CMGet (map (\<lambda>i. prefix @ i) ids)) s1 = (Inr (RVals (map (\<lambda>i. mget_one (st_keys (view s) (prefix @ i))) ids)), s2)"
    "view s2 = view s" using s1 by (auto simp: o_def)
  then show ?thesis using s1 by (simp add: list_json_def)
qed

lemma register_check_up:
  assumes "redis_up srv view"
  shows "\<exists>s'. register_check srv c s =
      (if st_keys (view s) (''contestant:'' @ co_ID c) = None then None
       else Some (ErrAlreadyExists ''contestant'' (co_ID c)), s') \<and> view s' = view s"
proof -
  let ?k = "''contestant:'' @ co_ID c"
  have "redis_exec (CExists ?k) (view s) = Some (RInt (if st_keys (view s) ?k = None then 0 else 1), view s)" by simp
  from redis_running.runs [OF redis_running_up [OF assms] this] obtain s' where
    "srv (CExists ?k) s = (Inr (RInt (if st_keys (view s) ?k = None then 0 else 1)), s')" "view s' = view s" by auto
  then show ?thesis by (simp add: register_check_def split: if_splits)
qed

definition with_contestant :: "contestant codec \<Rightarrow> contestant \<Rightarrow> string list \<Rightarrow> store \<Rightarrow> store" where
  "with_contestant C c xs t =
     (let t1 = put (''contestant:'' @ co_ID c) (VStr (marshal C c)) t
      in if co_ID c \<in> set xs then t1 else put ''contestants'' (VSet (xs @ [co_ID c])) t1)"

lemma with_contestant_keys:
  "st_keys (with_contestant C c xs t) (''contestant:'' @ co_ID c) = Some (VStr (marshal C c))"
  "read_set (st_keys t ''contestants'') = Some xs \<Longrightarrow>
   read_set (st_keys (with_contestant C c xs t) ''contestants'') = Some (if co_ID c \<in> set xs then xs else xs @ [co_ID c])"
  "k \<noteq> ''contestants'' \<Longrightarrow> k \<noteq> ''contestant:'' @ co_ID c \<Longrightarrow> st_keys (with_contestant C c xs t) k = st_keys t k"
  by (simp_all add: with_contestant_def Let_def)

lemma register_write_up:
  assumes "redis_up srv view" "read_set (st_keys (view s) ''contestants'') = Some xs"
  shows "\<exists>s'. register_write C srv c s = (None, s') \<and> view s' = with_contestant C c xs (view s)"
proof -
  let ?cs = "[CSet (''contestant:'' @ co_ID c) (marshal C c), CSAdd ''contestants'' (co_ID c)]"
  have "exec_all ?cs (view s) = Some (with_contestant C c xs (view s))"
    using assms(2) by (simp add: with_contestant_def Let_def)
  from redis_running.pipeline_runs [OF redis_running_up [OF assms(1)] this] obtain s' where
    "pipeline srv ?cs s = (None, s')" "view s' = with_contestant C c xs (view s)" by auto
  then show ?thesis by (simp add: register_write_def Let_def)
qed

lemma SaveSubmission_up:
  assumes "redis_up srv view"
    and "read_list (st_keys (view s) (''submissions:contestant:'' @ sub_ContestantID x)) = Some ids"
  shows "\<exists>s'. SaveSubmission C srv x s = (None, s') \<and>
    st_keys (view s') (''submission:'' @ sub_ID x) = Some (VStr (marshal C x)) \<and>
    read_list (st_keys (view s') (''submissions:contestant:'' @ sub_ContestantID x)) = Some (take 100 (sub_ID x # ids)) \<and>
    (\<forall>k. k \<noteq> ''submission:'' @ sub_ID x \<longrightarrow> k \<noteq> ''submissions:contestant:'' @ sub_ContestantID x \<longrightarrow>
      st_keys (view s') k = st_keys (view s) k)"
proof -
  have "\<exists>t. exec_all (submission_cmds C x) (view s) = Some t \<and>
    st_keys t (''submission:'' @ sub_ID x) = Some (VStr (marshal C x)) \<and>
    read_list (st_keys t (''submissions:contestant:'' @ sub_ContestantID x)) = Some (take 100 (sub_ID x # ids)) \<and>
    (\<forall>k. k \<noteq> ''submission:'' @ sub_ID x \<longrightarrow> k \<noteq> ''submissions:contestant:'' @ sub_ContestantID x \<longrightarrow>
      st_keys t k = st_keys (view s) k)"
    using assms(2) by (simp add: submission_cmds_def range_of_head)
  then obtain t where t: "exec_all (submission_cmds C x) (view s) = Some t"
    "st_keys t (''submission:'' @ sub_ID x) = Some (VStr (marshal C x)) \<and>
    read_list (st_keys t (''submissions:contestant:'' @ sub_ContestantID x)) = Some (take 100 (sub_ID x # ids)) \<and>
    (\<forall>k. k \<noteq> ''submission:'' @ sub_ID x \<longrightarrow> k \<noteq> ''submissions:contestant:'' @ sub_ContestantID x \<longrightarrow>
      st_keys t k = st_keys (view s) k)" by (elim exE conjE) (intro that conjI)
  from redis_running.pipeline_runs [OF redis_running_up [OF assms(1)] t(1)] obtain s' where
    "pipeline srv (submission_cmds C x) s = (None, s')" "view s' = t" by (auto simp: submission_cmds_def)
  then show ?thesis using t(2) by (simp add: SaveSubmission_def)
qed

section \<open>The submissions as a log\<close>

text \<open>
  The abstract state: all submissions, newest first. The store holds each under its id and, per
  contestant, the ids of the newest 100.
\<close>

definition of_contestant :: "string \<Rightarrow> submission list \<Rightarrow> submission list" where
  "of_contestant cid subs = filter (\<lambda>x. sub_ContestantID x = cid) subs"

definition holds_log :: "submission codec \<Rightarrow> store \<Rightarrow> submission list \<Rightarrow> bool" where
  "holds_log C t subs \<longleftrightarrow> distinct (map sub_ID subs) \<and>
     (\<forall>x \<in> set subs. st_keys t (''submission:'' @ sub_ID x) = Some (VStr (marshal C x))) \<and>
     (\<forall>cid. read_list (st_keys t (''submissions:contestant:'' @ cid)) = Some (take 100 (map sub_ID (of_contestant cid subs))))"

text \<open>Decoding gives back what was encoded.\<close>

definition decodes :: "'a codec \<Rightarrow> 'a \<Rightarrow> bool" where
  "decodes C x \<longleftrightarrow> unmarshal C (marshal C x) = Inr x"

lemma decode_all_stored:
  "\<forall>x \<in> set xs. decodes C x \<and> v x = Some (marshal C x) \<Longrightarrow> decode_all C (map v xs) = xs"
  by (induction xs) (auto simp: decodes_def)

lemma holds_log_list:
  assumes "redis_up srv view" "holds_log C (view s) subs" "\<forall>x \<in> set subs. decodes C x"
  shows "\<exists>s'. ListSubmissions C srv cid s = (Inr (take 100 (of_contestant cid subs)), s') \<and> view s' = view s"
proof -
  let ?xs = "take 100 (of_contestant cid subs)"
  have "redis_exec (CLRange (''submissions:contestant:'' @ cid) 0 99) (view s) = Some (RKeys (map sub_ID ?xs), view s)"
    using assms(2) by (simp add: holds_log_def range_of_head take_map)
  from list_json_up [OF assms(1) this, of C "''submission:''"] obtain s' where s':
    "ListSubmissions C srv cid s =
      (Inr (decode_all C (map (\<lambda>i. mget_one (st_keys (view s) (''submission:'' @ i))) (map sub_ID ?xs))), s')"
    "view s' = view s" by (auto simp: ListSubmissions_def)
  have "\<forall>x \<in> set ?xs. decodes C x \<and> mget_one (st_keys (view s) (''submission:'' @ sub_ID x)) = Some (marshal C x)"
    using assms(2,3) by (auto simp: holds_log_def of_contestant_def mget_one_def dest!: in_set_takeD)
  from decode_all_stored [OF this] s' show ?thesis by (simp add: o_def)
qed

lemma holds_log_get:
  assumes "redis_up srv view" "holds_log C (view s) subs" "x \<in> set subs" "decodes C x"
  shows "\<exists>s'. GetSubmission C srv (sub_ID x) s = (Inr x, s') \<and> view s' = view s"
proof -
  have "read_str (st_keys (view s) (''submission:'' @ sub_ID x)) = Some (Some (marshal C x))"
    using assms(2,3) by (simp add: holds_log_def)
  from get_json_up [OF assms(1) this, of C "''submission''"] show ?thesis
    using assms(4) by (simp add: GetSubmission_def decodes_def)
qed

lemma holds_log_save:
  assumes "redis_up srv view" "holds_log C (view s) subs" "sub_ID x \<notin> sub_ID ` set subs"
  shows "\<exists>s'. SaveSubmission C srv x s = (None, s') \<and> holds_log C (view s') (x # subs) \<and>
    (\<forall>k. k \<noteq> ''submission:'' @ sub_ID x \<longrightarrow> k \<noteq> ''submissions:contestant:'' @ sub_ContestantID x \<longrightarrow>
      st_keys (view s') k = st_keys (view s) k)"
proof -
  let ?ids = "take 100 (map sub_ID (of_contestant (sub_ContestantID x) subs))"
  have "read_list (st_keys (view s) (''submissions:contestant:'' @ sub_ContestantID x)) = Some ?ids"
    using assms(2) by (simp add: holds_log_def)
  from SaveSubmission_up [OF assms(1) this, of C] obtain s' where s':
    "SaveSubmission C srv x s = (None, s')"
    "st_keys (view s') (''submission:'' @ sub_ID x) = Some (VStr (marshal C x))"
    "read_list (st_keys (view s') (''submissions:contestant:'' @ sub_ContestantID x)) = Some (take 100 (sub_ID x # ?ids))"
    "\<forall>k. k \<noteq> ''submission:'' @ sub_ID x \<longrightarrow> k \<noteq> ''submissions:contestant:'' @ sub_ContestantID x \<longrightarrow>
      st_keys (view s') k = st_keys (view s) k" by (elim exE conjE) (rule that)
  have "st_keys (view s') (''submission:'' @ sub_ID y) = Some (VStr (marshal C y))"
    if "y \<in> set subs" for y
  proof -
    have "sub_ID y \<noteq> sub_ID x" using assms(3) that by (metis imageI)
    then have "st_keys (view s') (''submission:'' @ sub_ID y) = st_keys (view s) (''submission:'' @ sub_ID y)"
      using s'(4) by simp
    then show ?thesis using assms(2) that by (simp add: holds_log_def)
  qed
  moreover have "read_list (st_keys (view s') (''submissions:contestant:'' @ cid)) =
      Some (take 100 (map sub_ID (of_contestant cid (x # subs))))" for cid
  proof (cases "cid = sub_ContestantID x")
    case True
    then show ?thesis using s'(3) by (simp add: of_contestant_def take_Cons')
  next
    case False
    then have "st_keys (view s') (''submissions:contestant:'' @ cid) = st_keys (view s) (''submissions:contestant:'' @ cid)"
      using s'(4) by simp
    then show ?thesis using assms(2) False by (simp add: holds_log_def of_contestant_def)
  qed
  ultimately have "holds_log C (view s') (x # subs)" using s'(2) assms(2,3) unfolding holds_log_def by simp
  then show ?thesis using s'(1,4) by blast
qed

text \<open>The log lives in the keys that begin with submission.\<close>

lemma holds_log_cong:
  assumes "\<And>i. st_keys t' (''submission:'' @ i) = st_keys t (''submission:'' @ i)"
    and "\<And>i. st_keys t' (''submissions:contestant:'' @ i) = st_keys t (''submissions:contestant:'' @ i)"
  shows "holds_log C t' subs = holds_log C t subs"
  by (simp add: holds_log_def assms del: append_Cons append.simps)

lemma holds_log_empty: "holds_log C empty_store []"
  by (simp add: holds_log_def of_contestant_def empty_store_def)

section \<open>Properties\<close>

text \<open>
  A registered contestant is found: when the id is free, registration succeeds, the lookup by
  id returns the record and the id is in the set once; registering the id again, with whatever
  name, is refused as a duplicate and changes nothing.
\<close>

theorem register_then_get:
  assumes "redis_up srv view" "decodes C c" "co_ID c' = co_ID c"
    and "st_keys (view s) (''contestant:'' @ co_ID c) = None"
    and "read_set (st_keys (view s) ''contestants'') = Some xs" "distinct xs"
  shows "\<exists>s1 s2 s3. RegisterContestant C srv c s = (None, s1) \<and> GetContestant C srv (co_ID c) s1 = (Inr c, s2) \<and>
    (\<exists>ys. read_set (st_keys (view s2) ''contestants'') = Some ys \<and> distinct ys \<and> set ys = insert (co_ID c) (set xs)) \<and>
    RegisterContestant C srv c' s2 = (Some (ErrAlreadyExists ''contestant'' (co_ID c)), s3) \<and> view s3 = view s2"
proof -
  obtain s0 where s0: "register_check srv c s = (None, s0)" "view s0 = view s"
    using register_check_up [OF assms(1), of c s] assms(4) by auto
  obtain s1 where s1: "register_write C srv c s0 = (None, s1)" "view s1 = with_contestant C c xs (view s)"
    using register_write_up [OF assms(1), of s0 xs C c] assms(5) s0 by auto
  have k: "st_keys (view s1) (''contestant:'' @ co_ID c) = Some (VStr (marshal C c))"
    "read_set (st_keys (view s1) ''contestants'') = Some (if co_ID c \<in> set xs then xs else xs @ [co_ID c])"
    unfolding s1(2) using with_contestant_keys(1,2) assms(5) by blast+
  then obtain s2 where s2: "GetContestant C srv (co_ID c) s1 = (Inr c, s2)" "view s2 = view s1"
    using get_json_up [OF assms(1), of s1 "''contestant:''" "co_ID c" "Some (marshal C c)" C "''contestant''"] assms(2)
    by (auto simp: GetContestant_def decodes_def)
  obtain s3 where s3: "register_check srv c' s2 = (Some (ErrAlreadyExists ''contestant'' (co_ID c)), s3)" "view s3 = view s2"
    using register_check_up [OF assms(1), of c' s2] k(1) s2(2) assms(3) by auto
  have "RegisterContestant C srv c s = (None, s1)"
    "RegisterContestant C srv c' s2 = (Some (ErrAlreadyExists ''contestant'' (co_ID c)), s3)"
    using s0 s1 s3 by (simp_all add: RegisterContestant_def)
  moreover have "\<exists>ys. read_set (st_keys (view s2) ''contestants'') = Some ys \<and> distinct ys \<and> set ys = insert (co_ID c) (set xs)"
    using k(2) s2(2) assms(6) by (cases "co_ID c \<in> set xs") auto
  ultimately show ?thesis using s2 s3(2) by blast
qed

definition demo_contestant :: contestant where
  "demo_contestant = \<lparr>co_ID = ''alice'', co_DisplayName = ''Alice'', co_RegisteredAt = 1\<rparr>"

text \<open>A codec that knows one value, for the witnesses.\<close>

definition one_codec :: "'a \<Rightarrow> 'a codec" where
  "one_codec x = \<lparr>marshal = (\<lambda>y. ''json''), unmarshal = (\<lambda>s. if s = ''json'' then Inr x else Inl ''unknown'')\<rparr>"

lemma one_codec_decodes: "decodes (one_codec x) x"
  by (simp add: decodes_def one_codec_def)

lemma register_then_get_witness:
  "\<exists>s1 s2. RegisterContestant (one_codec demo_contestant) (ref_server []) demo_contestant empty_store = (None, s1) \<and>
    GetContestant (one_codec demo_contestant) (ref_server []) ''alice'' s1 = (Inr demo_contestant, s2)"
proof -
  have "st_keys (id empty_store) (''contestant:'' @ co_ID demo_contestant) = None"
    "read_set (st_keys (id empty_store) ''contestants'') = Some []" by (simp_all add: empty_store_def)
  from register_then_get [OF ref_server_up one_codec_decodes refl this, of "[]"] show ?thesis
    by (auto simp: demo_contestant_def)
qed

text \<open>
  Two registrations of one id that overlap both succeed: the second asks before the first
  writes, both are told the id is free, and the record that stays is the later one.
\<close>

theorem register_race:
  assumes "redis_up srv view" "co_ID b = co_ID a"
    and "st_keys (view s) (''contestant:'' @ co_ID a) = None"
    and "read_set (st_keys (view s) ''contestants'') = Some xs"
  shows "\<exists>s1 s2 s3 s4. register_check srv a s = (None, s1) \<and> register_check srv b s1 = (None, s2) \<and>
    register_write C srv a s2 = (None, s3) \<and> register_write C srv b s3 = (None, s4) \<and>
    st_keys (view s4) (''contestant:'' @ co_ID a) = Some (VStr (marshal C b))"
proof -
  obtain s1 where s1: "register_check srv a s = (None, s1)" "view s1 = view s"
    using register_check_up [OF assms(1), of a s] assms(3) by auto
  obtain s2 where s2: "register_check srv b s1 = (None, s2)" "view s2 = view s"
    using register_check_up [OF assms(1), of b s1] assms(2,3) s1(2) by auto
  obtain s3 where s3: "register_write C srv a s2 = (None, s3)" "view s3 = with_contestant C a xs (view s)"
    using register_write_up [OF assms(1), of s2 xs C a] assms(4) s2(2) by auto
  then obtain ys where "read_set (st_keys (view s3) ''contestants'') = Some ys"
    using with_contestant_keys(2) assms(4) by metis
  from register_write_up [OF assms(1) this, of C b] obtain s4 where
    "register_write C srv b s3 = (None, s4)" "view s4 = with_contestant C b ys (view s3)" by auto
  then show ?thesis using s1 s2 s3 with_contestant_keys(1) assms(2) by metis
qed

lemma register_race_witness:
  "\<exists>s1 s2 s3 s4. register_check (ref_server []) demo_contestant empty_store = (None, s1) \<and>
    register_check (ref_server []) (demo_contestant\<lparr>co_DisplayName := ''Mallory''\<rparr>) s1 = (None, s2) \<and>
    register_write demo_codec (ref_server []) demo_contestant s2 = (None, s3) \<and>
    register_write demo_codec (ref_server []) (demo_contestant\<lparr>co_DisplayName := ''Mallory''\<rparr>) s3 = (None, s4)"
proof -
  have "co_ID (demo_contestant\<lparr>co_DisplayName := ''Mallory''\<rparr>) = co_ID demo_contestant"
    "st_keys (id empty_store) (''contestant:'' @ co_ID demo_contestant) = None"
    "read_set (st_keys (id empty_store) ''contestants'') = Some []" by (simp_all add: empty_store_def demo_contestant_def)
  from register_race [OF ref_server_up this, of "[]" demo_codec] show ?thesis by blast
qed

text \<open>
  C27: the submissions in Redis refine a log. Saving a submission under a new id adds it in front;
  then the list of every contestant is that of the log cut to the newest 100, and every
  submission of the log, the older ones too, is found by its id.
\<close>

theorem submissions_refine_log:
  assumes "redis_up srv view" "holds_log C (view s) subs" "sub_ID x \<notin> sub_ID ` set subs"
    and "\<forall>y \<in> set (x # subs). decodes C y"
  shows "\<exists>s'. SaveSubmission C srv x s = (None, s') \<and> holds_log C (view s') (x # subs) \<and>
    (\<forall>cid. \<exists>s2. ListSubmissions C srv cid s' = (Inr (take 100 (of_contestant cid (x # subs))), s2) \<and> view s2 = view s') \<and>
    (\<forall>y \<in> set (x # subs). \<exists>s2. GetSubmission C srv (sub_ID y) s' = (Inr y, s2) \<and> view s2 = view s')"
proof -
  obtain s' where s': "SaveSubmission C srv x s = (None, s')" "holds_log C (view s') (x # subs)"
    using holds_log_save [OF assms(1-3)] by blast
  have "\<exists>s2. ListSubmissions C srv cid s' = (Inr (take 100 (of_contestant cid (x # subs))), s2) \<and> view s2 = view s'" for cid
    by (rule holds_log_list [OF assms(1) s'(2) assms(4)])
  moreover have "\<exists>s2. GetSubmission C srv (sub_ID y) s' = (Inr y, s2) \<and> view s2 = view s'" if "y \<in> set (x # subs)" for y
    using assms(4) that by (intro holds_log_get [OF assms(1) s'(2) that]) blast
  ultimately show ?thesis using s' by blast
qed

lemma submissions_refine_log_witness:
  "\<exists>s' s2. SaveSubmission (one_codec demo_sub) (ref_server []) demo_sub empty_store = (None, s') \<and>
    ListSubmissions (one_codec demo_sub) (ref_server []) ''c'' s' = (Inr [demo_sub], s2)"
proof -
  have "holds_log (one_codec demo_sub) (id empty_store) []" "sub_ID demo_sub \<notin> sub_ID ` set []"
    "\<forall>y \<in> set [demo_sub]. decodes (one_codec demo_sub) y"
    by (simp_all add: holds_log_empty one_codec_decodes)
  from submissions_refine_log [OF ref_server_up [of "[]"] this] obtain s' where
    "SaveSubmission (one_codec demo_sub) (ref_server []) demo_sub empty_store = (None, s')"
    "\<forall>cid. \<exists>s2. ListSubmissions (one_codec demo_sub) (ref_server []) cid s' =
       (Inr (take 100 (of_contestant cid [demo_sub])), s2) \<and> id s2 = id s'" by auto
  moreover have "take 100 (of_contestant ''c'' [demo_sub]) = [demo_sub]"
    by (simp add: of_contestant_def demo_sub_def)
  ultimately show ?thesis by metis
qed

text \<open>
  A run is listed twice. The engine pushes the id of a run each time it saves it, so after one
  run of a contestant who had none the list of runs has the same result two times.
\<close>

theorem run_is_listed_twice:
  assumes "redis_up srv view" "judge_Run D J srv cfg env sub d s = Some ((res, err), d', s')" "decodes J res"
    and "read_list (st_keys (view s) (''runs:submission:'' @ sub_ID sub)) = Some subs"
    and "read_list (st_keys (view s) (''runs:contestant:'' @ sub_ContestantID sub)) = Some []"
  shows "\<exists>s2 s3. ListRunsForContestant J srv (sub_ContestantID sub) 20 s' = (Inr [res, res], s2) \<and>
    GetRunResult J srv (rr_RunID res) s2 = (Inr res, s3)"
proof -
  let ?id = "run_id sub env"
  have k: "st_keys (view s') (''run:'' @ ?id) = Some (VStr (marshal J res))" "rr_RunID res = ?id"
    "read_list (st_keys (view s') (''runs:contestant:'' @ sub_ContestantID sub)) = Some [?id, ?id]"
    using run_end_stored [OF assms(1,2,4,5)] by simp_all
  have "redis_exec (CLRange (''runs:contestant:'' @ sub_ContestantID sub) 0 (20 - 1)) (view s') = Some (RKeys [?id, ?id], view s')"
    using k(3) by (simp add: range_of_head)
  from list_json_up [OF assms(1) this, of J "''run:''"] obtain s2 where
    "ListRunsForContestant J srv (sub_ContestantID sub) 20 s' = (Inr [res, res], s2)" "view s2 = view s'"
    using k(1) assms(3) by (auto simp: ListRunsForContestant_def mget_one_def decodes_def)
  moreover from this obtain s3 where "GetRunResult J srv ?id s2 = (Inr res, s3)"
    using get_json_up [OF assms(1), of s2 "''run:''" ?id "Some (marshal J res)" J "''run''"] k(1) assms(3)
    by (auto simp: GetRunResult_def decodes_def)
  ultimately show ?thesis using k(2) by auto
qed

lemma run_is_listed_twice_witness:
  "\<exists>J res err d' s' s2. judge_Run toy_docker J (ref_server []) DefaultConfig demo_env demo_sub [] empty_store
       = Some ((res, err), d', s') \<and> ListRunsForContestant J (ref_server []) ''c'' 20 s' = (Inr [res, res], s2)"
proof -
  obtain st where st: "summary [zero_metric] = Some st" using summary_defined [of "[zero_metric]"] by auto
  let ?J = "one_codec (completed_result ((running_result demo_sub demo_env)\<lparr>rr_FinishedAt := 5\<rparr>) st)"
  obtain res d' s' where r: "judge_Run toy_docker ?J (ref_server []) DefaultConfig demo_env demo_sub [] empty_store
      = Some ((res, None), d', s')" "res = completed_result ((running_result demo_sub demo_env)\<lparr>rr_FinishedAt := 5\<rparr>) st"
    using demo_judge_run [OF demo_tag, of ?J "ref_server []" empty_store] st by auto
  have "decodes ?J res" unfolding r(2) by (rule one_codec_decodes)
  moreover have "read_list (st_keys (id empty_store) (''runs:submission:'' @ sub_ID demo_sub)) = Some []"
    "read_list (st_keys (id empty_store) (''runs:contestant:'' @ sub_ContestantID demo_sub)) = Some []"
    by (simp_all add: empty_store_def)
  ultimately have "\<exists>s2 s3. ListRunsForContestant ?J (ref_server []) (sub_ContestantID demo_sub) 20 s' = (Inr [res, res], s2) \<and>
      GetRunResult ?J (ref_server []) (rr_RunID res) s2 = (Inr res, s3)"
    by (rule run_is_listed_twice [OF ref_server_up r(1)])
  moreover have "sub_ContestantID demo_sub = ''c''" by (simp add: demo_sub_def)
  ultimately show ?thesis using r(1) by metis
qed

end
