(* ===== verification/Http.thy ===== *)
theory Http
  imports Registry
begin

text \<open>
  What the two HTTP services share: the response writer of net/http, the JSON answers, the
  allow-list of origins, the CORS headers and the recovery of panics. The services have their
  own copies of some of these; each is in the theory of its service, with the lemma that it is
  the same function.
\<close>

section \<open>Responses\<close>

text \<open>What is encoded as the JSON body: one constructor per type of value the handlers send.\<close>

datatype body =
    BError string
  | BContestant contestant
  | BContestants "contestant list"
  | BSubmission submission
  | BSubmissions "submission list"
  | BRun runResult
  | BRuns "runResult list"
  | BStatus string
  | BQueue int int
  | BHealth "(string \<times> string) list"
  | BText string

text \<open>
  The writer: headers that can still be changed, the status with the headers sent with it, and
  the body. Only the first \<open>WriteHeader\<close> counts, and writing a body sends status 200 first when
  none was sent.
\<close>

record 'b writer =
  wr_header :: "string \<Rightarrow> string option"
  wr_sent :: "(int \<times> (string \<Rightarrow> string option)) option"
  wr_body :: "'b list"

definition fresh_writer :: "'b writer" where
  "fresh_writer = \<lparr>wr_header = Map.empty, wr_sent = None, wr_body = []\<rparr>"

definition Header_Set :: "string \<Rightarrow> string \<Rightarrow> 'b writer \<Rightarrow> 'b writer" where
  "Header_Set k v w = w\<lparr>wr_header := (wr_header w)(k \<mapsto> v)\<rparr>"

definition WriteHeader :: "int \<Rightarrow> 'b writer \<Rightarrow> 'b writer" where
  "WriteHeader code w = (if wr_sent w = None then w\<lparr>wr_sent := Some (code, wr_header w)\<rparr> else w)"

definition WriteBody :: "'b \<Rightarrow> 'b writer \<Rightarrow> 'b writer" where
  "WriteBody b w = (let w1 = WriteHeader 200 w in w1\<lparr>wr_body := wr_body w1 @ [b]\<rparr>)"

definition jsonResp :: "int \<Rightarrow> 'b \<Rightarrow> 'b writer \<Rightarrow> 'b writer" where
  "jsonResp code v w = WriteBody v (WriteHeader code (Header_Set ''Content-Type'' ''application/json'' w))"

definition httpErr :: "int \<Rightarrow> string \<Rightarrow> body writer \<Rightarrow> body writer" where
  "httpErr code msg w = WriteBody (BError msg) (WriteHeader code (Header_Set ''Content-Type'' ''application/json'' w))"

lemmas writer_defs = Header_Set_def WriteHeader_def WriteBody_def jsonResp_def httpErr_def

definition status_of :: "'b writer \<Rightarrow> int option" where
  "status_of w = map_option fst (wr_sent w)"

lemma jsonResp_status [simp]: "wr_sent w = None \<Longrightarrow> status_of (jsonResp code v w) = Some code"
  by (simp add: writer_defs status_of_def Let_def)

lemma httpErr_status [simp]: "wr_sent w = None \<Longrightarrow> status_of (httpErr code v w) = Some code"
  by (simp add: writer_defs status_of_def Let_def)

lemma jsonResp_body [simp]: "wr_body (jsonResp code v w) = wr_body w @ [v]"
  by (simp add: writer_defs Let_def)

lemma httpErr_body [simp]: "wr_body (httpErr code v w) = wr_body w @ [BError v]"
  by (simp add: writer_defs Let_def)

section \<open>Origins and CORS\<close>

text \<open>\<open>None\<close> is the nil map, which stands for every origin.\<close>

definition buildOriginSet :: "string \<Rightarrow> string set option" where
  "buildOriginSet csv0 =
     (let csv = TrimSpace csv0 in
      if csv = '''' then None
      else Some (fold (\<lambda>p acc. let o' = TrimSpace p in if o' \<noteq> '''' then insert o' acc else acc)
             (split_on (CHR '','') csv) {}))"

record request =
  rq_Method :: string
  rq_Origin :: string

text \<open>A handler returns or panics; either way the writer has what was written.\<close>

datatype ('b, 's) outcome = Done "'b writer" 's | Panic "'b writer" 's

definition corsMiddleware ::
  "string set option \<Rightarrow> (request \<Rightarrow> 'b writer \<Rightarrow> 's \<Rightarrow> ('b, 's) outcome) \<Rightarrow> request \<Rightarrow> 'b writer \<Rightarrow> 's \<Rightarrow> ('b, 's) outcome" where
  "corsMiddleware originSet next r w s =
     (let origin = rq_Origin r;
          w1 = (case originSet of
                  None \<Rightarrow> Header_Set ''Access-Control-Allow-Origin'' ''*'' w
                | Some os \<Rightarrow> if origin \<in> os
                    then Header_Set ''Vary'' ''Origin'' (Header_Set ''Access-Control-Allow-Origin'' origin w) else w);
          w2 = Header_Set ''Access-Control-Allow-Headers'' ''Content-Type''
                 (Header_Set ''Access-Control-Allow-Methods'' ''GET, POST, DELETE, OPTIONS'' w1)
      in if rq_Method r = ''OPTIONS'' then Done (WriteHeader 204 w2) s else next r w2 s)"

section \<open>Panics\<close>

definition panicRecovery ::
  "(request \<Rightarrow> body writer \<Rightarrow> 's \<Rightarrow> (body, 's) outcome) \<Rightarrow> request \<Rightarrow> body writer \<Rightarrow> 's \<Rightarrow> body writer \<times> 's" where
  "panicRecovery next r w s =
     (case next r w s of
        Done w1 s1 \<Rightarrow> (w1, s1)
      | Panic w1 s1 \<Rightarrow>
          (WriteBody (BError ''internal server error'')
             (WriteHeader 500 (Header_Set ''Content-Type'' ''application/json'' w1)), s1))"

definition envOr :: "(string \<Rightarrow> string) \<Rightarrow> string \<Rightarrow> string \<Rightarrow> string" where
  "envOr getenv k def = (let v = getenv k in if v \<noteq> '''' then v else def)"

end
