(* ===== verification/JudgeApi.thy ===== *)
theory JudgeApi
  imports Http
begin

text \<open>
  cmd/judge_api/main.go: the handlers of the judge service and its worker. A handler takes the
  decoded request, the writer and the state of Redis; \<open>dec\<close> is the JSON decoder of its body.
  The handlers do not panic. The queue between \<open>createSubmission\<close> and \<open>judgeWorker\<close>, its two
  counters and the interleavings of their updates are in the second half. Routing is in
  \<open>JudgeService\<close>; shutdown of the server is left out.
\<close>

section \<open>Contestants\<close>

definition id_char :: "char \<Rightarrow> bool" where
  "id_char c \<longleftrightarrow> (CHR ''a'' \<le> c \<and> c \<le> CHR ''z'') \<or> (CHR ''A'' \<le> c \<and> c \<le> CHR ''Z'') \<or>
     (CHR ''0'' \<le> c \<and> c \<le> CHR ''9'') \<or> c = CHR ''-'' \<or> c = CHR ''_''"

text \<open>
  The loop is over runes, but a byte above 127 is never part of a rune that passes, so looking
  at the bytes is the same.
\<close>

definition isValidID :: "string \<Rightarrow> bool" where
  "isValidID i = (if length i = 0 \<or> length i > 64 then False else list_all id_char i)"

definition registerContestant ::
  "contestant codec \<Rightarrow> (string \<Rightarrow> string + string \<times> string) \<Rightarrow> 's server \<Rightarrow> int \<Rightarrow> string \<Rightarrow> body writer \<Rightarrow> 's \<Rightarrow> body writer \<times> 's" where
  "registerContestant C dec srv now reqBody w s =
     (case dec reqBody of
        Inl e \<Rightarrow> (httpErr 400 (''invalid JSON: '' @ e) w, s)
      | Inr (i, name) \<Rightarrow>
          if i = '''' \<or> name = '''' then (httpErr 400 ''id and display_name are required'' w, s)
          else if \<not> isValidID i then (httpErr 400 ''id must be alphanumeric with hyphens/underscores, max 64 chars'' w, s)
          else let c = \<lparr>co_ID = i, co_DisplayName = name, co_RegisteredAt = now\<rparr>
               in (case RegisterContestant C srv c s of
                     (Some (ErrAlreadyExists k x), s1) \<Rightarrow> (httpErr 409 (error_text (ErrAlreadyExists k x)) w, s1)
                   | (Some e, s1) \<Rightarrow> (httpErr 500 (error_text e) w, s1)
                   | (None, s1) \<Rightarrow> (jsonResp 201 (BContestant c) w, s1)))"

text \<open>The two shapes of the reading handlers: a record by id, and a list.\<close>

definition respond_found :: "('a \<Rightarrow> body) \<Rightarrow> (regError + 'a) \<times> 's \<Rightarrow> body writer \<Rightarrow> body writer \<times> 's" where
  "respond_found mk r w =
     (case r of
        (Inl (ErrNotFound k i), s1) \<Rightarrow> (httpErr 404 (error_text (ErrNotFound k i)) w, s1)
      | (Inl e, s1) \<Rightarrow> (httpErr 500 (error_text e) w, s1)
      | (Inr x, s1) \<Rightarrow> (jsonResp 200 (mk x) w, s1))"

definition respond_list :: "('a \<Rightarrow> body) \<Rightarrow> (regError + 'a) \<times> 's \<Rightarrow> body writer \<Rightarrow> body writer \<times> 's" where
  "respond_list mk r w =
     (case r of (Inl e, s1) \<Rightarrow> (httpErr 500 (error_text e) w, s1) | (Inr x, s1) \<Rightarrow> (jsonResp 200 (mk x) w, s1))"

definition listContestants :: "contestant codec \<Rightarrow> 's server \<Rightarrow> body writer \<Rightarrow> 's \<Rightarrow> body writer \<times> 's" where
  "listContestants C srv w s = respond_list BContestants (ListContestants C srv s) w"

definition getContestant :: "contestant codec \<Rightarrow> 's server \<Rightarrow> string \<Rightarrow> body writer \<Rightarrow> 's \<Rightarrow> body writer \<times> 's" where
  "getContestant C srv i w s = respond_found BContestant (GetContestant C srv i s) w"

section \<open>Submissions and runs\<close>

definition maxQueue :: nat where
  "maxQueue = 20"

text \<open>Sending on the buffered channel without waiting: \<open>None\<close> when it is full.\<close>

definition try_send :: "submission \<Rightarrow> submission list \<Rightarrow> submission list option" where
  "try_send x q = (if length q < maxQueue then Some (q @ [x]) else None)"

definition new_submission :: "string \<Rightarrow> string \<Rightarrow> int \<Rightarrow> int \<Rightarrow> submission" where
  "new_submission cid tag nano now =
     \<lparr>sub_ID = cid @ ''-'' @ show_int nano, sub_ContestantID = cid, sub_ImageTag = tag, sub_SubmittedAt = now\<rparr>"

text \<open>
  \<open>createSubmission\<close> without interference of the worker: the state is that of Redis, the queue and
  the pending counter. \<open>hasEngine\<close> is whether the engine could be constructed.
\<close>

definition createSubmission ::
  "contestant codec \<Rightarrow> submission codec \<Rightarrow> (string \<Rightarrow> string + string \<times> string) \<Rightarrow> 's server \<Rightarrow> bool \<Rightarrow> int \<Rightarrow> int \<Rightarrow>
     string \<Rightarrow> body writer \<Rightarrow> 's \<times> submission list \<times> int \<Rightarrow> body writer \<times> 's \<times> submission list \<times> int" where
  "createSubmission C S dec srv hasEngine nano now reqBody w st =
     (case st of (s, queue, pending) \<Rightarrow>
      case dec reqBody of
        Inl e \<Rightarrow> (httpErr 400 (''invalid JSON: '' @ e) w, s, queue, pending)
      | Inr (cid, tag) \<Rightarrow>
          if cid = '''' \<or> tag = '''' then (httpErr 400 ''contestant_id and image_tag are required'' w, s, queue, pending)
          else (case GetContestant C srv cid s of
              (Inl (ErrNotFound k i), s1) \<Rightarrow> (httpErr 404 (''contestant not found: '' @ cid) w, s1, queue, pending)
            | (Inl e, s1) \<Rightarrow> (httpErr 500 (error_text e) w, s1, queue, pending)
            | (Inr c, s1) \<Rightarrow>
                let sub = new_submission cid tag nano now
                in (case SaveSubmission S srv sub s1 of
                      (Some e, s2) \<Rightarrow> (httpErr 500 (error_text e) w, s2, queue, pending)
                    | (None, s2) \<Rightarrow>
                        if hasEngine
                        then (case try_send sub queue of
                                Some queue' \<Rightarrow> (jsonResp 202 (BSubmission sub) w, s2, queue', pending + 1)
                              | None \<Rightarrow> (httpErr 503 ''judge queue full, try again later'' w, s2, queue, pending))
                        else (jsonResp 202 (BSubmission sub) w, s2, queue, pending))))"

definition getSubmission :: "submission codec \<Rightarrow> 's server \<Rightarrow> string \<Rightarrow> body writer \<Rightarrow> 's \<Rightarrow> body writer \<times> 's" where
  "getSubmission S srv i w s = respond_found BSubmission (GetSubmission S srv i s) w"

definition listSubmissions :: "submission codec \<Rightarrow> 's server \<Rightarrow> string \<Rightarrow> body writer \<Rightarrow> 's \<Rightarrow> body writer \<times> 's" where
  "listSubmissions S srv i w s = respond_list BSubmissions (ListSubmissions S srv i s) w"

definition getRun :: "runResult codec \<Rightarrow> 's server \<Rightarrow> string \<Rightarrow> body writer \<Rightarrow> 's \<Rightarrow> body writer \<times> 's" where
  "getRun R srv i w s = respond_found BRun (GetRunResult R srv i s) w"

definition listRuns :: "runResult codec \<Rightarrow> 's server \<Rightarrow> string \<Rightarrow> body writer \<Rightarrow> 's \<Rightarrow> body writer \<times> 's" where
  "listRuns R srv i w s = respond_list BRuns (ListRunsForContestant R srv i 20 s) w"

section \<open>Administration\<close>

text \<open>The scan loop of \<open>resetLeaderboard\<close> and \<open>clearRuns\<close>: delete each page of keys until the cursor is 0.\<close>

partial_function (option) scan_delete :: "'s server \<Rightarrow> string \<Rightarrow> nat \<Rightarrow> 's \<Rightarrow> (string option \<times> 's) option" where
  "scan_delete srv pat cursor s =
     (case srv (CScan cursor pat 100) s of (rep, s1) \<Rightarrow>
        (case as_scan rep of
           Inl e \<Rightarrow> Some (Some e, s1)
         | Inr (keys, next) \<Rightarrow>
             (case (if length keys > 0 then (case srv (CDel keys) s1 of (r, s2) \<Rightarrow> (as_done r, s2)) else (None, s1)) of
                (Some e, s2) \<Rightarrow> Some (Some e, s2)
              | (None, s2) \<Rightarrow> if next = 0 then Some (None, s2) else scan_delete srv pat next s2)))"

definition resetLeaderboard :: "'s server \<Rightarrow> body writer \<Rightarrow> 's \<Rightarrow> (body writer \<times> 's) option" where
  "resetLeaderboard srv w s =
     (case srv (CDel [''leaderboard'']) s of
        (Inl e, s1) \<Rightarrow> Some (httpErr 500 e w, s1)
      | (Inr _, s1) \<Rightarrow>
          (case scan_delete srv ''leaderboard:*'' 0 s1 of
             None \<Rightarrow> None
           | Some (Some e, s2) \<Rightarrow> Some (httpErr 500 e w, s2)
           | Some (None, s2) \<Rightarrow> Some (jsonResp 200 (BStatus ''leaderboard reset'') w, s2)))"

fun scan_delete_all :: "'s server \<Rightarrow> string list \<Rightarrow> 's \<Rightarrow> (string option \<times> 's) option" where
  "scan_delete_all srv [] s = Some (None, s)"
| "scan_delete_all srv (p # ps) s =
     (case scan_delete srv p 0 s of
        None \<Rightarrow> None
      | Some (Some e, s1) \<Rightarrow> Some (Some e, s1)
      | Some (None, s1) \<Rightarrow> scan_delete_all srv ps s1)"

definition clearRuns :: "'s server \<Rightarrow> body writer \<Rightarrow> 's \<Rightarrow> (body writer \<times> 's) option" where
  "clearRuns srv w s =
     (case scan_delete_all srv [''run:*'', ''runs:*''] s of
        None \<Rightarrow> None
      | Some (Some e, s1) \<Rightarrow> Some (httpErr 500 e w, s1)
      | Some (None, s1) \<Rightarrow> Some (jsonResp 200 (BStatus ''runs cleared'') w, s1))"

definition getQueueStatus :: "int \<Rightarrow> int \<Rightarrow> body writer \<Rightarrow> body writer" where
  "getQueueStatus pending running w = jsonResp 200 (BQueue pending running) w"

definition em_dash :: string where
  "em_dash = [char_of (226 :: nat), char_of (128 :: nat), char_of (148 :: nat)]"

definition deepHealth ::
  "'d docker_ops option \<Rightarrow> 's server \<Rightarrow> body writer \<Rightarrow> 'd \<times> 's \<Rightarrow> body writer \<times> 'd \<times> 's" where
  "deepHealth eng srv w ds =
     (case ds of (d, s) \<Rightarrow>
      case srv CPing s of (rep, s1) \<Rightarrow>
        let redis = (case rep of Inl e \<Rightarrow> ''error: '' @ e | Inr _ \<Rightarrow> ''ok'');
            (docker, d1) = (case eng of
                 Some D \<Rightarrow> (case PingDocker D d of (Some e, d') \<Rightarrow> (''error: '' @ e, d') | (None, d') \<Rightarrow> (''ok'', d'))
               | None \<Rightarrow> (''unavailable (cloud mode '' @ em_dash @ '' AKS containerd, no docker socket)'', d));
            status = (if redis = ''ok'' then ''ok'' else ''degraded'')
        in (jsonResp 200 (BHealth [(''docker'', docker), (''redis'', redis), (''status'', status)]) w, d1, s1))"

section \<open>The queue and the worker\<close>

text \<open>
  The worker's loop body in the order of its statements: receive, \<open>pending.Add(-1)\<close>,
  \<open>running.Add(1)\<close>, \<open>eng.Run\<close>, \<open>running.Add(-1)\<close>. On the client side a request sends, then does
  \<open>pending.Add(1)\<close>; \<open>q_adding\<close> counts the requests between the two. \<open>q_world\<close> is what the
  engine works on (Docker and Redis), which requests change too; \<open>q_ctxDone\<close> is whether the
  service's context, which an interrupt ends, is done. Two history variables: \<open>q_accepted\<close>, all
  submissions sent, and \<open>q_done\<close>, those whose turn of the loop is over.
\<close>

datatype worker = WIdle | WTaken submission | WCounted submission | WRunning submission | WRan submission | WStopped

record 'w judge_queue =
  q_world :: 'w
  q_queue :: "submission list"
  q_pending :: int
  q_running :: int
  q_adding :: nat
  q_worker :: worker
  q_ctxDone :: bool
  q_accepted :: "submission list"
  q_done :: "submission list"

definition judge_start :: "'w \<Rightarrow> 'w judge_queue" where
  "judge_start w = \<lparr>q_world = w, q_queue = [], q_pending = 0, q_running = 0, q_adding = 0, q_worker = WIdle,
     q_ctxDone = False, q_accepted = [], q_done = []\<rparr>"

text \<open>
  One statement of the worker; \<open>None\<close> when it waits for a submission, has stopped, or is in a
  call of \<open>eng.Run\<close> that does not return.
\<close>

definition judgeWorker :: "(submission \<Rightarrow> 'w \<Rightarrow> 'w option) \<Rightarrow> 'w judge_queue \<Rightarrow> 'w judge_queue option" where
  "judgeWorker run q =
     (case q_worker q of
        WIdle \<Rightarrow> (case q_queue q of [] \<Rightarrow> None | x # xs \<Rightarrow> Some (q\<lparr>q_queue := xs, q_worker := WTaken x\<rparr>))
      | WTaken x \<Rightarrow> Some (q\<lparr>q_pending := q_pending q - 1, q_worker := WCounted x\<rparr>)
      | WCounted x \<Rightarrow> Some (q\<lparr>q_running := q_running q + 1, q_worker := WRunning x\<rparr>)
      | WRunning x \<Rightarrow>
          (case run x (q_world q) of None \<Rightarrow> None | Some w \<Rightarrow> Some (q\<lparr>q_world := w, q_worker := WRan x\<rparr>))
      | WRan x \<Rightarrow> Some (q\<lparr>q_running := q_running q - 1, q_worker := WIdle, q_done := q_done q @ [x]\<rparr>)
      | WStopped \<Rightarrow> None)"

inductive judge_step ::
  "(submission \<Rightarrow> 'w \<Rightarrow> 'w option) \<Rightarrow> ('w \<Rightarrow> 'w \<Rightarrow> bool) \<Rightarrow> bool \<Rightarrow> 'w judge_queue \<Rightarrow> 'w judge_queue \<Rightarrow> bool"
  for run :: "submission \<Rightarrow> 'w \<Rightarrow> 'w option" and request_writes :: "'w \<Rightarrow> 'w \<Rightarrow> bool" where
  request: "request_writes (q_world q) w \<Longrightarrow> judge_step run request_writes False q (q\<lparr>q_world := w\<rparr>)"
| send: "try_send x (q_queue q) = Some xs \<Longrightarrow>
    judge_step run request_writes False q
      (q\<lparr>q_queue := xs, q_adding := q_adding q + 1, q_accepted := q_accepted q @ [x]\<rparr>)"
| add: "0 < q_adding q \<Longrightarrow>
    judge_step run request_writes False q (q\<lparr>q_pending := q_pending q + 1, q_adding := q_adding q - 1\<rparr>)"
| worker: "judgeWorker run q = Some q' \<Longrightarrow> judge_step run request_writes True q q'"
| interrupt: "judge_step run request_writes False q (q\<lparr>q_ctxDone := True\<rparr>)"
| stop: "q_worker q = WIdle \<Longrightarrow> q_ctxDone q \<Longrightarrow>
    judge_step run request_writes False q (q\<lparr>q_worker := WStopped\<rparr>)"

text \<open>A step is the worker's exactly when it is a statement of its loop, and that is determined.\<close>

inductive_simps judge_step_worker [simp]: "judge_step run request_writes True q q'"

text \<open>Any interleaving from one state to another, with the number of statements the worker ran in it.\<close>

inductive judge_trace ::
  "(submission \<Rightarrow> 'w \<Rightarrow> 'w option) \<Rightarrow> ('w \<Rightarrow> 'w \<Rightarrow> bool) \<Rightarrow> nat \<Rightarrow> 'w judge_queue \<Rightarrow> 'w judge_queue \<Rightarrow> bool"
  for run :: "submission \<Rightarrow> 'w \<Rightarrow> 'w option" and request_writes :: "'w \<Rightarrow> 'w \<Rightarrow> bool" where
  none: "judge_trace run request_writes 0 q q"
| step: "judge_trace run request_writes n q q1 \<Longrightarrow> judge_step run request_writes b q1 q2 \<Longrightarrow>
    judge_trace run request_writes (if b then n + 1 else n) q q2"

section \<open>Invariants of the queue\<close>

fun in_hand :: "worker \<Rightarrow> submission list" where
  "in_hand (WTaken x) = [x]"
| "in_hand (WCounted x) = [x]"
| "in_hand (WRunning x) = [x]"
| "in_hand (WRan x) = [x]"
| "in_hand w = []"

fun phase :: "worker \<Rightarrow> nat" where
  "phase (WTaken x) = 1"
| "phase (WCounted x) = 2"
| "phase (WRunning x) = 3"
| "phase (WRan x) = 4"
| "phase w = 0"

definition taken_uncounted :: "worker \<Rightarrow> int" where
  "taken_uncounted w = (if phase w = 1 then 1 else 0)"

definition queue_ok :: "'w judge_queue \<Rightarrow> bool" where
  "queue_ok q \<longleftrightarrow> length (q_queue q) \<le> maxQueue \<and>
     q_accepted q = q_done q @ in_hand (q_worker q) @ q_queue q \<and>
     q_running q = (if phase (q_worker q) \<ge> 3 then 1 else 0) \<and>
     q_pending q = int (length (q_queue q)) + taken_uncounted (q_worker q) - int (q_adding q) \<and>
     (q_worker q = WStopped \<longrightarrow> q_ctxDone q)"

lemma judge_start_ok: "queue_ok (judge_start w)"
  by (simp add: queue_ok_def judge_start_def taken_uncounted_def)

lemma judgeWorker_ok [keeps]: "judgeWorker run q = Some q' \<Longrightarrow> queue_ok q \<Longrightarrow> queue_ok q'"
  by (cases "q_worker q"; cases "q_queue q")
    (auto simp: judgeWorker_def queue_ok_def taken_uncounted_def split: option.splits)

lemma judge_step_ok [keeps]: "judge_step run rw b q q' \<Longrightarrow> queue_ok q \<Longrightarrow> queue_ok q'"
proof (induction rule: judge_step.induct)
  case (stop q)
  then show ?case by (simp add: queue_ok_def taken_uncounted_def)
qed (auto simp: keeps, auto simp: queue_ok_def try_send_def maxQueue_def split: if_splits)

lemma judge_trace_ok [keeps]: "judge_trace run rw n q q' \<Longrightarrow> queue_ok q \<Longrightarrow> queue_ok q'"
  by (induction rule: judge_trace.induct) (auto intro: keeps)

text \<open>Every statement of the worker moves it on by one of the five of a turn; nothing else does.\<close>

definition progress :: "'w judge_queue \<Rightarrow> nat" where
  "progress q = 5 * length (q_done q) + phase (q_worker q)"

lemma judge_step_progress: "judge_step run rw b q q' \<Longrightarrow> progress q' = (if b then progress q + 1 else progress q)"
  by (induction rule: judge_step.induct)
    (auto simp: progress_def judgeWorker_def split: worker.splits list.splits option.splits)

lemma judge_trace_progress: "judge_trace run rw n q q' \<Longrightarrow> progress q' = progress q + n"
  by (induction rule: judge_trace.induct) (auto dest: judge_step_progress)

lemma judge_step_accepted: "judge_step run rw b q q' \<Longrightarrow> \<exists>xs. q_accepted q' = q_accepted q @ xs"
  by (induction rule: judge_step.induct) (auto simp: judgeWorker_def split: worker.splits list.splits option.splits)

lemma judge_trace_accepted: "judge_trace run rw n q q' \<Longrightarrow> \<exists>xs. q_accepted q' = q_accepted q @ xs"
  by (induction rule: judge_trace.induct) (auto dest!: judge_step_accepted)

lemma trace_worker: "judge_trace run rw n q q1 \<Longrightarrow> judgeWorker run q1 = Some q2 \<Longrightarrow> judge_trace run rw (n + 1) q q2"
  using judge_trace.step [of run rw n q q1 True q2] by simp

lemma judge_trace_append:
  "judge_trace run rw m q q1 \<Longrightarrow> judge_trace run rw n q1 q2 \<Longrightarrow> judge_trace run rw (m + n) q q2"
proof (rotate_tac, induction rule: judge_trace.induct)
  case (step n q q1 b q2)
  from judge_trace.step [OF step.IH [OF step.prems] step.hyps(2)] show ?case by (simp split: if_splits)
qed simp

text \<open>
  The worker can move as long as something accepted is not done: it is then not stopped, since
  only the end of the context stops it, and it does not wait on an empty queue.
\<close>

lemma judgeWorker_enabled:
  assumes "queue_ok q" "\<not> q_ctxDone q" "q_done q \<noteq> q_accepted q" "\<forall>x w. run x w \<noteq> None"
  shows "\<exists>q'. judgeWorker run q = Some q' \<and> \<not> q_ctxDone q'"
  using assms
  by (cases "q_worker q"; cases "q_queue q") (auto simp: judgeWorker_def queue_ok_def split: option.split)

lemma behind_enabled:
  assumes "queue_ok q" "\<not> q_ctxDone q" "\<forall>x w. run x w \<noteq> None"
    and "take k (q_done q) \<noteq> take k (q_accepted q)"
  shows "\<exists>q'. judgeWorker run q = Some q' \<and> \<not> q_ctxDone q'"
  using judgeWorker_enabled [OF assms(1,2) _ assms(3)] assms(4) by metis

lemma done_prefix:
  assumes "queue_ok q" "k \<le> length (q_done q)"
  shows "take k (q_done q) = take k (q_accepted q)"
  using assms by (auto simp: queue_ok_def)

text \<open>So left to itself it catches up with the first \<open>k\<close> accepted, five statements for each.\<close>

lemma judgeWorker_catches_up:
  assumes "queue_ok q" "\<not> q_ctxDone q" "\<forall>x w. run x w \<noteq> None" "k \<le> length (q_accepted q)"
  shows "\<exists>n q'. judge_trace run rw n q q' \<and> n \<le> 5 * k - progress q \<and> take k (q_done q') = take k (q_accepted q)"
  using assms
proof (induction "5 * k - progress q" arbitrary: q rule: less_induct)
  case less
  show ?case
  proof (cases "take k (q_done q) = take k (q_accepted q)")
    case True
    then show ?thesis using judge_trace.none [of run rw q] by auto
  next
    case False
    from behind_enabled [OF less.prems(1-3) False] obtain q1 where
      q1: "judgeWorker run q = Some q1" "\<not> q_ctxDone q1" by blast
    have st: "judge_step run rw True q q1" using q1(1) by simp
    note ok = judgeWorker_ok [OF q1(1) less.prems(1)]
    obtain xs where xs: "q_accepted q1 = q_accepted q @ xs" using judge_step_accepted [OF st] by blast
    have p: "progress q1 = progress q + 1" using judge_step_progress [OF st] by simp
    have "length (q_done q) < k" using False done_prefix [OF less.prems(1), of k] by fastforce
    then have lt: "progress q < 5 * k"
      by (cases "q_worker q") (simp_all add: progress_def)
    then have "5 * k - progress q1 < 5 * k - progress q" using p by simp
    from less.hyps [OF this ok q1(2) less.prems(3)] less.prems(4) xs obtain n q' where
      q': "judge_trace run rw n q1 q'" "n \<le> 5 * k - progress q1" "take k (q_done q') = take k (q_accepted q1)"
      by auto
    have "judge_trace run rw (0 + 1 + n) q q'"
      by (rule judge_trace_append [OF trace_worker [OF judge_trace.none q1(1)] q'(1)])
    moreover have "0 + 1 + n \<le> 5 * k - progress q" using q'(2) p lt by simp
    moreover have "take k (q_done q') = take k (q_accepted q)" using q'(3) xs less.prems(4) by simp
    ultimately show ?thesis by blast
  qed
qed

section \<open>Properties of the queue\<close>

text \<open>
  C15: in every reachable state the queue is within its capacity, what was accepted is what is done,
  then what the worker has in hand, then what waits, in the order of acceptance (nothing is lost
  or judged twice), at most one run is under way, and the pending counter is the number waiting,
  give or take the updates under way.
\<close>

theorem judge_queue_is_fifo:
  assumes "judge_trace run rw n (judge_start w) q"
  shows "length (q_queue q) \<le> 20 \<and> q_accepted q = q_done q @ in_hand (q_worker q) @ q_queue q \<and>
    length (in_hand (q_worker q)) \<le> 1 \<and> q_running q \<in> {0, 1} \<and>
    (q_adding q = 0 \<and> phase (q_worker q) \<noteq> 1 \<longrightarrow> q_pending q = int (length (q_queue q)))"
proof -
  have "queue_ok q" using judge_trace_ok [OF assms judge_start_ok] .
  moreover have "length (in_hand (q_worker q)) \<le> 1" by (cases "q_worker q") simp_all
  ultimately show ?thesis by (auto simp: queue_ok_def maxQueue_def taken_uncounted_def)
qed

text \<open>
  For the witnesses: one submission sent and not yet counted, the worker before its run, and the
  end of its turn.
\<close>

definition demo_sent :: "'w \<Rightarrow> 'w judge_queue" where
  "demo_sent w = (judge_start w)\<lparr>q_queue := [demo_sub], q_adding := 1, q_accepted := [demo_sub]\<rparr>"

definition demo_taken :: "'w \<Rightarrow> 'w judge_queue" where
  "demo_taken w = (demo_sent w)\<lparr>q_queue := [], q_pending := - 1, q_worker := WCounted demo_sub\<rparr>"

definition demo_served :: "'w \<Rightarrow> 'w judge_queue" where
  "demo_served w = (demo_sent w)\<lparr>q_queue := [], q_pending := - 1, q_done := [demo_sub]\<rparr>"

lemma demo_sent_trace: "judge_trace run rw 0 (judge_start w) (demo_sent w)"
proof -
  have "judge_step run rw False (judge_start w) (demo_sent w)"
    using judge_step.send [of demo_sub "judge_start w" "[demo_sub]" run rw]
    by (simp add: judge_start_def demo_sent_def try_send_def maxQueue_def)
  from judge_trace.step [OF judge_trace.none this] show ?thesis by simp
qed

lemmas demo_queue_defs = judgeWorker_def judge_start_def demo_sent_def demo_taken_def demo_served_def

lemma demo_taken_trace: "judge_trace run rw 2 (demo_sent w) (demo_taken w)"
proof -
  have "judge_trace run rw (0 + 1) (demo_sent w) ((demo_sent w)\<lparr>q_queue := [], q_worker := WTaken demo_sub\<rparr>)"
    by (rule trace_worker [OF judge_trace.none]) (simp add: demo_queue_defs)
  then have "judge_trace run rw (0 + 1 + 1) (demo_sent w) (demo_taken w)"
    by (rule trace_worker) (simp add: demo_queue_defs)
  then show ?thesis by (simp add: numeral_2_eq_2)
qed

lemma demo_served_trace:
  assumes "run demo_sub w = Some w'"
  shows "judge_trace run rw 5 (demo_sent w) (demo_served w')"
proof -
  have "judge_trace run rw (2 + 1) (demo_sent w) ((demo_taken w)\<lparr>q_running := 1, q_worker := WRunning demo_sub\<rparr>)"
    by (rule trace_worker [OF demo_taken_trace]) (simp add: demo_queue_defs)
  then have "judge_trace run rw (2 + 1 + 1) (demo_sent w) ((demo_taken w')\<lparr>q_running := 1, q_worker := WRan demo_sub\<rparr>)"
    by (rule trace_worker) (simp add: demo_queue_defs assms)
  then have "judge_trace run rw (2 + 1 + 1 + 1) (demo_sent w) (demo_served w')"
    by (rule trace_worker) (simp add: demo_queue_defs)
  then show ?thesis by simp
qed

lemma judge_queue_is_fifo_witness:
  "length (q_queue (demo_sent ())) \<le> 20 \<and>
   q_accepted (demo_sent ()) = q_done (demo_sent ()) @ in_hand (q_worker (demo_sent ())) @ q_queue (demo_sent ())"
  using judge_queue_is_fifo [OF demo_sent_trace [where run = "\<lambda>x w. Some w" and rw = "(=)" and w = "()"]] by blast

text \<open>
  C20: no accepted submission waits for ever, as long as runs return and no interrupt has ended
  the service's context. In every state reached later, by any interleaving with requests: while
  one of the submissions accepted up to now is not done, the worker's next statement is enabled,
  whatever else happens; once it has run five statements for each that was not done, all of them
  are done, in order, and later ones cannot delay them; and it can always run them.
\<close>

theorem accepted_submissions_are_judged:
  assumes "judge_trace run rw m (judge_start w) q" "judge_trace run rw n q q'"
    and "\<not> q_ctxDone q'" "\<forall>x w. run x w \<noteq> None"
  shows "(take (length (q_accepted q)) (q_done q') \<noteq> q_accepted q \<longrightarrow>
      n < 5 * (length (q_accepted q) - length (q_done q)) \<and>
      (\<exists>q2. judge_step run rw True q' q2 \<and> \<not> q_ctxDone q2)) \<and>
    (\<exists>k q''. judge_trace run rw k q' q'' \<and> k \<le> 5 * (length (q_accepted q) - length (q_done q)) - n \<and>
      take (length (q_accepted q)) (q_done q'') = q_accepted q)"
proof -
  let ?k = "length (q_accepted q)"
  define bound where "bound = 5 * (length (q_accepted q) - length (q_done q))"
  have ok: "queue_ok q" "queue_ok q'"
    using judge_trace_ok [OF assms(1) judge_start_ok] judge_trace_ok [OF assms(2)] by auto
  obtain xs where xs: "q_accepted q' = q_accepted q @ xs" using judge_trace_accepted [OF assms(2)] by blast
  have acc: "take ?k (q_accepted q') = q_accepted q" "?k \<le> length (q_accepted q')" by (simp_all add: xs)
  have p: "progress q' = progress q + n" by (rule judge_trace_progress [OF assms(2)])
  have "5 * length (q_done q) \<le> progress q" "length (q_done q) \<le> ?k"
    using ok(1) by (simp_all add: progress_def queue_ok_def)
  then have b: "5 * ?k - progress q' \<le> bound - n" using p by (simp add: bound_def)
  have "n < bound \<and> (\<exists>q2. judge_step run rw True q' q2 \<and> \<not> q_ctxDone q2)"
    if h: "take ?k (q_done q') \<noteq> q_accepted q"
  proof
    have "length (q_done q') < ?k" using h done_prefix [OF ok(2), of ?k] acc(1) by fastforce
    then have "progress q' < 5 * ?k" by (cases "q_worker q'") (simp_all add: progress_def)
    then show "n < bound" using p \<open>5 * length (q_done q) \<le> progress q\<close> by (simp add: bound_def)
    show "\<exists>q2. judge_step run rw True q' q2 \<and> \<not> q_ctxDone q2"
      using behind_enabled [OF ok(2) assms(3,4)] h acc(1) by simp metis
  qed
  moreover from judgeWorker_catches_up [OF ok(2) assms(3,4) acc(2), of rw] b acc(1)
  have "\<exists>k q''. judge_trace run rw k q' q'' \<and> k \<le> bound - n \<and> take ?k (q_done q'') = q_accepted q"
    by (metis order_trans)
  ultimately show ?thesis unfolding bound_def by blast
qed

lemma accepted_submissions_are_judged_witness:
  "(\<exists>q2. judge_step (\<lambda>x w. Some w) (=) True (demo_sent ()) q2) \<and>
   (\<exists>k q''. judge_trace (\<lambda>x w. Some w) (=) k (demo_sent ()) q'' \<and> k \<le> 5 \<and> take 1 (q_done q'') = [demo_sub])"
proof -
  have "q_accepted (demo_sent ()) = [demo_sub]" "q_done (demo_sent ()) = []" "\<not> q_ctxDone (demo_sent ())"
    by (simp_all add: demo_queue_defs)
  with accepted_submissions_are_judged [OF demo_sent_trace judge_trace.none,
      where run = "\<lambda>x w. Some w" and rw = "(=)" and w = "()"]
  show ?thesis by auto
qed

text \<open>
  The pending count shown to administrators can be negative: the worker can receive a
  submission and count it down before the request that sent it has counted it up.
\<close>

theorem pending_count_can_be_negative:
  "\<exists>n q. judge_trace run rw n (judge_start w) q \<and> q_pending q = - 1"
proof -
  have "judge_trace run rw (0 + 2) (judge_start w) (demo_taken w)"
    by (rule judge_trace_append [OF demo_sent_trace demo_taken_trace])
  then show ?thesis by (intro exI conjI) (assumption, simp add: demo_taken_def)
qed

text \<open>
  What a run of the engine does to Docker and Redis, \<open>None\<close> if it does not return; \<open>env\<close> gives
  each run its inputs.
\<close>

definition engine_world ::
  "'d docker_ops \<Rightarrow> runResult codec \<Rightarrow> 's server \<Rightarrow> judgeConfig \<Rightarrow> (submission \<Rightarrow> run_env) \<Rightarrow> submission \<Rightarrow> 'd \<times> 's \<Rightarrow> ('d \<times> 's) option" where
  "engine_world D J srv cfg env x w = map_option snd (judge_Run D J srv cfg (env x) x (fst w) (snd w))"

lemma engine_world_returns:
  assumes "\<And>x. clock_advances (re_waitStart (env x)) (re_attempts (env x)) \<and> fleet_can_end cfg (env x) \<and>
    length (re_pushed (env x)) < 2 ^ 64"
  shows "engine_world D J srv cfg env x w \<noteq> None"
  using judge_Run_Some [of "env x" cfg D J srv x "fst w" "snd w"] assms [of x] by (auto simp: engine_world_def)

lemma judge_step_world:
  assumes "judge_step run rw b q q'" "\<And>x w w'. run x w = Some w' \<Longrightarrow> R w w'" "\<And>w w'. rw w w' \<Longrightarrow> R w w'" "\<And>w. R w w"
  shows "R (q_world q) (q_world q')"
  using assms(1)
proof cases
  case (request w)
  then show ?thesis using assms(3) by simp
next
  case worker
  then have "q_world q' = q_world q \<or> (\<exists>x. run x (q_world q) = Some (q_world q'))"
    by (auto simp: judgeWorker_def split: worker.splits list.splits option.splits)
  then show ?thesis using assms(2,4) by metis
qed (simp_all add: assms(4))

lemma judge_trace_world:
  assumes "judge_trace run rw n q q'" "\<And>x w w'. run x w = Some w' \<Longrightarrow> R w w'" "\<And>w w'. rw w w' \<Longrightarrow> R w w'"
    and "\<And>w. R w w" "\<And>u v w. R u v \<Longrightarrow> R v w \<Longrightarrow> R u w"
  shows "R (q_world q) (q_world q')"
  using assms(1)
proof induction
  case (step n q q1 b q2)
  have "R (q_world q1) (q_world q2)"
    by (rule judge_step_world [where R = R, OF step.hyps(2)]) (fact assms(2-4))+
  with step.IH show ?case by (rule assms(5))
qed (rule assms(4))

text \<open>
  C21: the service does not accumulate containers. Whatever is submitted, however the runs end and
  whatever requests do meanwhile (they create no container), between any two statements of the
  worker, a run of the engine being one, every container that was not there when the service
  started is one whose create or forced remove Docker has answered with an error since.
\<close>

theorem judge_service_leaves_no_container:
  assumes "docker_law D alive errored"
    and "\<And>w w'. rw w w' \<Longrightarrow> makes_no_container alive errored (fst w) (fst w')"
    and "judge_trace (engine_world D J srv cfg env) rw n (judge_start (d, s)) q"
  shows "alive (fst (q_world q)) - alive d \<subseteq> errored (fst (q_world q)) - errored d"
proof -
  have r: "leaks_only_errored alive errored (fst w) (fst w')" if "engine_world D J srv cfg env x w = Some w'" for x w w'
    using that judge_Run_alive [OF assms(1)] by (auto simp: engine_world_def)
  have "leaks_only_errored alive errored (fst (q_world (judge_start (d, s)))) (fst (q_world q))"
  proof (rule judge_trace_world [where R = "\<lambda>w w'. leaks_only_errored alive errored (fst w) (fst w')", OF assms(3) r])
    show "leaks_only_errored alive errored (fst w) (fst w')" if "rw w w'" for w w'
      using assms(2) [OF that] by (rule makes_no_container_leaks)
  qed (auto intro: leaks_only_errored_trans)
  then show ?thesis by (simp add: judge_start_def leaks_only_errored_def)
qed

lemma judge_service_leaves_no_container_witness:
  "\<exists>q. judge_trace (engine_world toy_docker demo_codec (ref_server []) DefaultConfig (\<lambda>x. demo_env)) (=) 5
      (judge_start ([], empty_store)) q \<and> q_done q = [demo_sub] \<and> set (fst (q_world q)) = {}"
proof -
  let ?run = "engine_world toy_docker demo_codec (ref_server []) DefaultConfig (\<lambda>x. demo_env)"
  obtain w' where w': "?run demo_sub ([], empty_store) = Some w'"
    using engine_world_returns [of "\<lambda>x. demo_env" DefaultConfig] demo_env_ok demo_can_end by blast
  from judge_trace_append [OF demo_sent_trace demo_served_trace [where run = ?run and rw = "(=)", OF w']]
  have t: "judge_trace ?run (=) 5 (judge_start ([], empty_store)) (demo_served w')" by simp
  have "set (fst (q_world (demo_served w'))) - set [] \<subseteq> {} - {}"
    by (rule judge_service_leaves_no_container [OF toy_docker_law _ t]) (simp add: makes_no_container_def)
  with t show ?thesis by (intro exI [of _ "demo_served w'"]) (simp add: demo_served_def)
qed

section \<open>Properties of the handlers\<close>

text \<open>The characters of an id, written out.\<close>

lemma char_ranges:
  "map char_of [97..<123 :: nat] = ''abcdefghijklmnopqrstuvwxyz''"
  "map char_of [65..<91 :: nat] = ''ABCDEFGHIJKLMNOPQRSTUVWXYZ''"
  "map char_of [48..<58 :: nat] = ''0123456789''"
  by code_simp+

lemma char_between:
  fixes m n :: nat
  assumes "m \<le> of_char c" "of_char c < n"
  shows "c \<in> set (map char_of [m ..< n])"
  using assms by (auto intro!: image_eqI [of _ _ "of_char c"])

lemma id_char_between:
  "id_char c \<longleftrightarrow> (97 \<le> (of_char c :: nat) \<and> of_char c < (123 :: nat)) \<or> (65 \<le> (of_char c :: nat) \<and> of_char c < (91 :: nat)) \<or>
     (48 \<le> (of_char c :: nat) \<and> of_char c < (58 :: nat)) \<or> c = CHR ''-'' \<or> c = CHR ''_''"
  by (auto simp: id_char_def less_eq_char_def)

lemma id_char_cases:
  "id_char c \<Longrightarrow> c \<in> set (''abcdefghijklmnopqrstuvwxyz'' @ ''ABCDEFGHIJKLMNOPQRSTUVWXYZ'' @ ''0123456789'' @ ''-_'')"
  unfolding char_ranges [symmetric] set_append Un_iff id_char_between
  using char_between [of 97 c 123] char_between [of 65 c 91] char_between [of 48 c 58]
  by (elim disjE conjE) (blast, blast, blast, simp_all)

text \<open>The four answers, and that only the keys of submissions change.\<close>

lemma createSubmission_up:
  fixes nano now :: int and cid tag :: string
  defines "sub \<equiv> new_submission cid tag nano now"
  assumes "redis_up srv view" "holds_log S (view s) subs" "dec reqBody = Inr (cid, tag)" "cid \<noteq> ''''" "tag \<noteq> ''''"
    and "decodes C c"
    and key: "st_keys (view s) (''contestant:'' @ cid) = (if known then Some (VStr (marshal C c)) else None)"
    and fresh: "sub_ID sub \<notin> sub_ID ` set subs"
  shows "\<exists>s1 s2. view s1 = view s \<and> holds_log S (view s2) (sub # subs) \<and>
    (\<forall>k. k \<noteq> ''submission:'' @ sub_ID sub \<longrightarrow> k \<noteq> ''submissions:contestant:'' @ cid \<longrightarrow>
      st_keys (view s2) k = st_keys (view s) k) \<and>
    createSubmission C S dec srv hasEngine nano now reqBody w (s, queue, pending) =
    (if \<not> known then (httpErr 404 (''contestant not found: '' @ cid) w, s1, queue, pending)
     else if hasEngine
       then (case try_send sub queue of
               Some queue' \<Rightarrow> (jsonResp 202 (BSubmission sub) w, s2, queue', pending + 1)
             | None \<Rightarrow> (httpErr 503 ''judge queue full, try again later'' w, s2, queue, pending))
       else (jsonResp 202 (BSubmission sub) w, s2, queue, pending))"
proof -
  have "read_str (st_keys (view s) (''contestant:'' @ cid)) = Some (if known then Some (marshal C c) else None)"
    using key by simp
  from get_json_up [OF assms(2) this, of C "''contestant''"] obtain s1 where s1:
    "GetContestant C srv cid s = (if known then Inr c else Inl (ErrNotFound ''contestant'' cid), s1)" "view s1 = view s"
    using assms(7) by (auto simp: GetContestant_def decodes_def split: if_splits)
  have "sub_ContestantID sub = cid" by (simp add: sub_def new_submission_def)
  then obtain s2 where s2: "SaveSubmission S srv sub s1 = (None, s2)" "holds_log S (view s2) (sub # subs)"
    "\<forall>k. k \<noteq> ''submission:'' @ sub_ID sub \<longrightarrow> k \<noteq> ''submissions:contestant:'' @ cid \<longrightarrow> st_keys (view s2) k = st_keys (view s) k"
    using holds_log_save [OF assms(2), of S s1 subs sub] assms(3) s1(2) fresh by auto
  show ?thesis
    by (rule exI [of _ s1], rule exI [of _ s2], intro conjI s1(2) s2(2,3))
      (use assms(4-6) s1(1) s2(1) in \<open>simp add: createSubmission_def Let_def flip: sub_def\<close>)
qed

text \<open>
  C33: a submission for an unknown contestant is refused with 404 and changes nothing. For a known
  one it is stored in every case; with an engine it is queued and counted, unless 20 are
  waiting: then the answer is 503, try again later, although the submission has been stored.
\<close>

theorem createSubmission_stores_first:
  fixes nano now :: int and cid tag :: string
  defines "sub \<equiv> new_submission cid tag nano now"
  assumes "redis_up srv view" "holds_log S (view s) subs" "dec reqBody = Inr (cid, tag)" "cid \<noteq> ''''" "tag \<noteq> ''''"
    and "decodes C c" "wr_sent w = None"
    and key: "st_keys (view s) (''contestant:'' @ cid) = (if known then Some (VStr (marshal C c)) else None)"
    and fresh: "sub_ID sub \<notin> sub_ID ` set subs"
  shows "\<exists>w' s' queue' pending'. createSubmission C S dec srv hasEngine nano now reqBody w (s, queue, pending) = (w', s', queue', pending') \<and>
    (if \<not> known then status_of w' = Some 404 \<and> view s' = view s \<and> queue' = queue \<and> pending' = pending
     else holds_log S (view s') (sub # subs) \<and>
       (if \<not> hasEngine then status_of w' = Some 202 \<and> queue' = queue \<and> pending' = pending
        else if length queue < 20 then status_of w' = Some 202 \<and> queue' = queue @ [sub] \<and> pending' = pending + 1
        else status_of w' = Some 503 \<and> queue' = queue \<and> pending' = pending))"
  using createSubmission_up [where dec = dec and reqBody = reqBody and cid = cid and tag = tag and view = view and s = s
      and hasEngine = hasEngine and w = w and queue = queue and pending = pending,
      OF assms(2-7) key fresh [unfolded sub_def], folded sub_def] assms(8)
  by (elim exE conjE) (simp add: try_send_def maxQueue_def)

definition demo_store :: store where
  "demo_store = put ''contestant:alice'' (VStr ''json'') empty_store"

lemma createSubmission_stores_first_witness:
  "\<exists>w' s' q p. createSubmission (one_codec demo_contestant) demo_codec (\<lambda>b. Inr (''alice'', ''img'')) (ref_server []) True 7 8 ''body''
      fresh_writer (demo_store, replicate 20 demo_sub, 20) = (w', s', q, p) \<and> status_of w' = Some 503 \<and>
    holds_log demo_codec s' [new_submission ''alice'' ''img'' 7 8]"
proof -
  let ?dec = "\<lambda>b. Inr (''alice'', ''img'') :: string + string \<times> string"
  have f: "holds_log demo_codec (id demo_store) []" "?dec ''body'' = Inr (''alice'', ''img'')" "''alice'' \<noteq> ''''" "''img'' \<noteq> ''''"
    "wr_sent fresh_writer = None"
    "st_keys (id demo_store) (''contestant:'' @ ''alice'') =
      (if True then Some (VStr (marshal (one_codec demo_contestant) demo_contestant)) else None)"
    "sub_ID (new_submission ''alice'' ''img'' 7 8) \<notin> sub_ID ` set []"
    by (simp_all add: holds_log_def of_contestant_def demo_store_def empty_store_def one_codec_def fresh_writer_def)
  from createSubmission_stores_first [where dec = ?dec and reqBody = "''body''" and hasEngine = True
      and queue = "replicate 20 demo_sub" and pending = 20,
      OF ref_server_up [of "[]"] f(1-4) one_codec_decodes f(5-7)]
  obtain w' s' q p where "createSubmission (one_codec demo_contestant) demo_codec ?dec (ref_server []) True 7 8 ''body''
      fresh_writer (demo_store, replicate 20 demo_sub, 20) = (w', s', q, p)"
    "holds_log demo_codec (id s') [new_submission ''alice'' ''img'' 7 8]" "status_of w' = Some 503"
    by (elim exE conjE) simp
  then show ?thesis by (intro exI conjI) simp_all
qed

text \<open>What a registration answered with 201 did.\<close>

lemma registerContestant_created:
  assumes "redis_up srv view" "registerContestant C dec srv now reqBody w s = (w', s')" "wr_sent w = None"
    and "status_of w' = Some 201"
    and "read_set (st_keys (view s) ''contestants'') = Some xs"
  shows "\<exists>i name. dec reqBody = Inr (i, name) \<and> isValidID i \<and> name \<noteq> '''' \<and> 1 \<le> length i \<and> length i \<le> 64 \<and>
    set i \<subseteq> set (''abcdefghijklmnopqrstuvwxyz'' @ ''ABCDEFGHIJKLMNOPQRSTUVWXYZ'' @ ''0123456789'' @ ''-_'') \<and>
    st_keys (view s) (''contestant:'' @ i) = None \<and>
    st_keys (view s') (''contestant:'' @ i) = Some (VStr (marshal C \<lparr>co_ID = i, co_DisplayName = name, co_RegisteredAt = now\<rparr>))"
proof -
  obtain i name where d: "dec reqBody = Inr (i, name)" "i \<noteq> ''''" "name \<noteq> ''''" "isValidID i"
    using assms(2-4) by (auto simp: registerContestant_def split: sum.splits if_splits)
  let ?c = "\<lparr>co_ID = i, co_DisplayName = name, co_RegisteredAt = now\<rparr>"
  obtain s0 where s0: "register_check srv ?c s =
      (if st_keys (view s) (''contestant:'' @ i) = None then None else Some (ErrAlreadyExists ''contestant'' i), s0)" "view s0 = view s"
    using register_check_up [OF assms(1), of ?c s] by auto
  have free: "st_keys (view s) (''contestant:'' @ i) = None"
  proof (rule ccontr)
    assume "st_keys (view s) (''contestant:'' @ i) \<noteq> None"
    then have "RegisterContestant C srv ?c s = (Some (ErrAlreadyExists ''contestant'' i), s0)"
      using s0(1) by (auto simp: RegisterContestant_def)
    then have "w' = httpErr 409 (error_text (ErrAlreadyExists ''contestant'' i)) w"
      using assms(2) d by (simp add: registerContestant_def Let_def)
    then have "status_of w' = Some 409" using assms(3) by simp
    then show False using assms(4) by simp
  qed
  obtain s1 where s1: "register_write C srv ?c s0 = (None, s1)" "view s1 = with_contestant C ?c xs (view s)"
    using register_write_up [OF assms(1), of s0 xs C ?c] assms(5) s0(2) by auto
  have "s' = s1" using assms(2) d s0(1) s1(1) free by (simp add: registerContestant_def RegisterContestant_def Let_def)
  then have "st_keys (view s') (''contestant:'' @ i) = Some (VStr (marshal C ?c))"
    using s1(2) with_contestant_keys(1) [of C ?c] by simp
  moreover have "1 \<le> length i" "length i \<le> 64" "list_all id_char i"
    using d(2,4) by (auto simp: isValidID_def Suc_le_eq split: if_splits)
  moreover have "set i \<subseteq> set (''abcdefghijklmnopqrstuvwxyz'' @ ''ABCDEFGHIJKLMNOPQRSTUVWXYZ'' @ ''0123456789'' @ ''-_'')"
    using calculation(4) id_char_cases unfolding list_all_iff by (intro subsetI) blast
  ultimately show ?thesis using d free by blast
qed

text \<open>
  An id that gets registered is safe inside a key, a file or container name: it has 1 to 64
  characters, only letters, digits, hyphens and underscores, so neither the colon that separates
  the parts of a key nor a slash, space or quote; and the record under its key is the new one.
\<close>

theorem registered_ids_are_safe:
  assumes "redis_up srv view" "registerContestant C dec srv now reqBody w s = (w', s')" "wr_sent w = None"
    and "status_of w' = Some 201"
    and "read_set (st_keys (view s) ''contestants'') = Some xs"
  shows "\<exists>i name. dec reqBody = Inr (i, name) \<and> name \<noteq> '''' \<and> 1 \<le> length i \<and> length i \<le> 64 \<and>
    set i \<subseteq> set (''abcdefghijklmnopqrstuvwxyz'' @ ''ABCDEFGHIJKLMNOPQRSTUVWXYZ'' @ ''0123456789'' @ ''-_'') \<and>
    st_keys (view s) (''contestant:'' @ i) = None \<and>
    st_keys (view s') (''contestant:'' @ i) = Some (VStr (marshal C \<lparr>co_ID = i, co_DisplayName = name, co_RegisteredAt = now\<rparr>))"
  using registerContestant_created [OF assms] by blast

lemma registered_ids_are_safe_witness:
  "\<exists>w' s'. registerContestant demo_codec (\<lambda>b. Inr (''bob'', ''Bob'')) (ref_server []) 9 ''body'' fresh_writer empty_store = (w', s') \<and>
    st_keys s' ''contestant:bob'' = Some (VStr ''json'')"
proof -
  obtain w' s' where r: "registerContestant demo_codec (\<lambda>b. Inr (''bob'', ''Bob'')) (ref_server []) 9 ''body'' fresh_writer empty_store = (w', s')"
    by fastforce
  have "isValidID ''bob''" by code_simp
  then have "status_of w' = Some 201" using r
    by (auto simp: registerContestant_def RegisterContestant_def register_check_def register_write_def ref_server_def
      empty_store_def fresh_writer_def Let_def)
  moreover have "wr_sent fresh_writer = None" "read_set (st_keys (id empty_store) ''contestants'') = Some []"
    by (simp_all add: fresh_writer_def empty_store_def)
  ultimately show ?thesis using registered_ids_are_safe [OF ref_server_up r] r by (auto simp: demo_codec_def)
qed

text \<open>The keys a scan returns match its pattern.\<close>

definition scan_law :: "'s server \<Rightarrow> bool" where
  "scan_law srv \<longleftrightarrow> (\<forall>cur pat n s keys next s'. srv (CScan cur pat n) s = (Inr (RScan keys next), s') \<longrightarrow>
     (\<forall>k \<in> set keys. glob_prefix pat k))"

lemma del_spares:
  assumes "redis_law srv view" "srv (CDel keys) s = (r, s')" "k \<notin> set keys"
  shows "st_keys (view s') k = st_keys (view s) k"
proof -
  have c: "redis_client srv view" using assms(1) by (rule redis_client.intro)
  have "view s' = view s \<or> (\<exists>x. redis_exec (CDel keys) (view s) = Some (x, view s'))"
    using redis_client.failed [OF c, of "CDel keys" s] redis_client.answered [OF c, of "CDel keys" s] assms(2)
    by (cases r) auto
  then have "view s' = view s \<or> view s' = (view s)\<lparr>st_keys := \<lambda>k. if k \<in> set keys then None else st_keys (view s) k\<rparr>"
    by auto
  then show ?thesis using assms(3) by (elim disjE) simp_all
qed

lemma scan_delete_spares:
  assumes "redis_law srv view" "scan_law srv" "\<not> glob_prefix pat k" "scan_delete srv pat cursor s = Some (r, s')"
  shows "st_keys (view s') k = st_keys (view s) k"
proof -
  have "srv = srv \<and> pat = pat \<longrightarrow> st_keys (view (snd (r, s'))) k = st_keys (view s) k"
    using assms(4)
  proof (rule scan_delete.raw_induct [where P = "\<lambda>srv' pat' cursor s y. srv' = srv \<and> pat' = pat \<longrightarrow>
      st_keys (view (snd y)) k = st_keys (view s) k", rotated], intro impI)
    fix scan and srv' :: "'a server" and pat' cursor s y
    assume IH: "\<And>srv' pat' cursor s y. scan srv' pat' cursor s = Some y \<Longrightarrow>
        srv' = srv \<and> pat' = pat \<longrightarrow> st_keys (view (snd y)) k = st_keys (view s) k"
      and body: "(case srv' (CScan cursor pat' 100) s of (rep, s1) \<Rightarrow>
        (case as_scan rep of
           Inl e \<Rightarrow> Some (Some e, s1)
         | Inr (keys, next) \<Rightarrow>
             (case (if length keys > 0 then (case srv' (CDel keys) s1 of (r, s2) \<Rightarrow> (as_done r, s2)) else (None, s1)) of
                (Some e, s2) \<Rightarrow> Some (Some e, s2)
              | (None, s2) \<Rightarrow> if next = 0 then Some (None, s2) else scan srv' pat' next s2))) = Some y"
      and eq: "srv' = srv \<and> pat' = pat"
    obtain rep s1 where sc: "srv (CScan cursor pat 100) s = (rep, s1)" by fastforce
    have v1: "view s1 = view s"
      by (rule redis_client.scan_reads [OF redis_client.intro [OF assms(1)] sc])
    show "st_keys (view (snd y)) k = st_keys (view s) k"
    proof (cases "as_scan rep")
      case (Inl e)
      then show ?thesis using body eq sc v1 by auto
    next
      case (Inr kn)
      then obtain keys n where kn: "kn = (keys, n)" "rep = Inr (RScan keys n)"
        by (cases kn) (cases rep rule: as_scan.cases, auto)
      have "\<forall>k \<in> set keys. glob_prefix pat k" using assms(2) sc kn(2) unfolding scan_law_def by blast
      then have nk: "k \<notin> set keys" using assms(3) by blast
      obtain e s2 where s2: "(if length keys > 0 then (case srv (CDel keys) s1 of (r, s2) \<Rightarrow> (as_done r, s2)) else (None, s1)) = (e, s2)"
        by fastforce
      have v2: "st_keys (view s2) k = st_keys (view s) k"
        using s2 v1 del_spares [OF assms(1) _ nk, of s1] by (auto split: if_splits prod.splits)
      have "y = (e, s2) \<or> (\<exists>c. scan srv pat c s2 = Some y)"
        using body eq sc Inr kn s2 by (auto split: option.splits if_splits)
      then show ?thesis
      proof (elim disjE exE)
        fix c assume "scan srv pat c s2 = Some y"
        from IH [OF this] v2 show ?thesis by simp
      qed (simp add: v2)
    qed
  qed
  then show ?thesis by simp
qed

lemma scan_delete_all_spares:
  assumes "redis_law srv view" "scan_law srv" "\<forall>p \<in> set ps. \<not> glob_prefix p k" "scan_delete_all srv ps s = Some (r, s')"
  shows "st_keys (view s') k = st_keys (view s) k"
  using assms(3,4)
proof (induction ps arbitrary: s)
  case (Cons p ps)
  then obtain e s1 where s1: "scan_delete srv p 0 s = Some (e, s1)"
    "s' = s1 \<or> scan_delete_all srv ps s1 = Some (r, s')"
    by (auto split: option.splits prod.splits)
  have "st_keys (view s1) k = st_keys (view s) k"
    using scan_delete_spares [OF assms(1,2) _ s1(1)] Cons.prems(1) by simp
  then show ?case using s1(2) Cons by auto
qed simp

text \<open>The documented server scans everything in one page.\<close>

lemma ref_scan_law: "scan_law (ref_server keys)"
  by (auto simp: scan_law_def ref_server_def)

lemma ref_scan_delete:
  assumes "\<forall>k. st_keys s k \<noteq> None \<longrightarrow> k \<in> set keys"
  shows "scan_delete (ref_server keys) pat c s =
    Some (None, s\<lparr>st_keys := \<lambda>k. if glob_prefix pat k then None else st_keys s k\<rparr>)"
proof -
  let ?ks = "filter (\<lambda>k. st_keys s k \<noteq> None \<and> glob_prefix pat k) keys"
  have "(\<lambda>k. if k \<in> set ?ks then None else st_keys s k) = (\<lambda>k. if glob_prefix pat k then None else st_keys s k)"
    using assms by (intro ext) auto
  then have e: "s\<lparr>st_keys := \<lambda>k. if k \<in> set ?ks then None else st_keys s k\<rparr> =
      s\<lparr>st_keys := \<lambda>k. if glob_prefix pat k then None else st_keys s k\<rparr>" by (simp only:)
  have d: "ref_server keys (CScan c pat 100) s = (Inr (RScan ?ks 0), s)" by (simp add: ref_server_def)
  show ?thesis
  proof (cases "?ks = []")
    case True
    then have "s\<lparr>st_keys := \<lambda>k. if k \<in> set ?ks then None else st_keys s k\<rparr> = s" by (simp only: list.set) simp
    with e have "s\<lparr>st_keys := \<lambda>k. if glob_prefix pat k then None else st_keys s k\<rparr> = s" by (simp only:)
    then show ?thesis using True by (subst scan_delete.simps) (simp only: d prod.case as_scan.simps sum.case list.size if_False option.case less_irrefl if_True simp_thms)
  next
    case False
    have "ref_server keys (CDel ?ks) s = (Inr (RInt (int (length (filter (\<lambda>k. st_keys s k \<noteq> None) (remdups ?ks))))),
        s\<lparr>st_keys := \<lambda>k. if k \<in> set ?ks then None else st_keys s k\<rparr>)"
      by (simp only: ref_server_answers is_scan.simps simp_thms) (simp only: redis_exec.simps option.case prod.case)
    with False e show ?thesis
      by (subst scan_delete.simps)
        (simp only: d prod.case as_scan.simps sum.case length_greater_0_conv if_True simp_thms as_done.simps option.case)
  qed
qed

text \<open>The groups of keys of the services.\<close>

definition run_key :: "string \<Rightarrow> bool" where
  "run_key k \<longleftrightarrow> has_prefix ''run:'' k \<or> has_prefix ''runs:'' k"

definition leaderboard_key :: "string \<Rightarrow> bool" where
  "leaderboard_key k \<longleftrightarrow> k = ''leaderboard'' \<or> has_prefix ''leaderboard:'' k"

lemma glob_keys:
  "glob_prefix ''run:*'' k \<or> glob_prefix ''runs:*'' k \<longleftrightarrow> run_key k"
  "glob_prefix ''leaderboard:*'' k \<longleftrightarrow> has_prefix ''leaderboard:'' k"
  by (simp_all add: glob_prefix_def run_key_def)

lemma clearRuns_spares:
  assumes "redis_law srv view" "scan_law srv" "clearRuns srv w s = Some (w', s')" "\<not> run_key k"
  shows "st_keys (view s') k = st_keys (view s) k"
proof -
  obtain r where "scan_delete_all srv [''run:*'', ''runs:*''] s = Some (r, s')"
    using assms(3) by (auto simp: clearRuns_def split: option.splits prod.splits)
  moreover have "\<forall>p \<in> set [''run:*'', ''runs:*'']. \<not> glob_prefix p k" using assms(4) glob_keys(1) [of k] by auto
  ultimately show ?thesis using scan_delete_all_spares [OF assms(1,2)] by blast
qed

lemma resetLeaderboard_spares:
  assumes "redis_law srv view" "scan_law srv" "resetLeaderboard srv w s = Some (w', s')" "\<not> leaderboard_key k"
  shows "st_keys (view s') k = st_keys (view s) k"
proof -
  obtain r s1 where d: "srv (CDel [''leaderboard'']) s = (r, s1)" by fastforce
  have "k \<notin> set [''leaderboard'']" "\<not> glob_prefix ''leaderboard:*'' k"
    using assms(4) glob_keys(2) [of k] by (auto simp: leaderboard_key_def)
  with del_spares [OF assms(1) d] have v: "st_keys (view s1) k = st_keys (view s) k" by blast
  have "s' = s1 \<or> (\<exists>e. scan_delete srv ''leaderboard:*'' 0 s1 = Some (e, s'))"
    using assms(3) d by (auto simp: resetLeaderboard_def split: sum.splits option.splits prod.splits)
  then show ?thesis using v scan_delete_spares [OF assms(1,2) \<open>\<not> glob_prefix ''leaderboard:*'' k\<close>] by fastforce
qed

text \<open>
  C34: the two destructive administration calls stay within their keys: whether they succeed or
  fail half-way, clearing the runs changes only keys that begin with run: or runs:, and
  resetting the leaderboard only leaderboard and keys that begin with leaderboard:, so the
  contestants and submissions survive both.
\<close>

theorem admin_deletes_only_its_keys:
  assumes "redis_law srv view" "scan_law srv"
    and "clearRuns srv w s = Some (w1, s1)" "resetLeaderboard srv w s = Some (w2, s2)"
  shows "(run_key k \<or> st_keys (view s1) k = st_keys (view s) k) \<and>
    (leaderboard_key k \<or> st_keys (view s2) k = st_keys (view s) k) \<and>
    st_keys (view s1) (''contestant:'' @ i) = st_keys (view s) (''contestant:'' @ i) \<and>
    st_keys (view s2) (''contestant:'' @ i) = st_keys (view s) (''contestant:'' @ i) \<and>
    st_keys (view s1) (''submission:'' @ i) = st_keys (view s) (''submission:'' @ i) \<and>
    st_keys (view s2) (''submission:'' @ i) = st_keys (view s) (''submission:'' @ i)"
proof -
  have "\<not> run_key (''contestant:'' @ i)" "\<not> run_key (''submission:'' @ i)"
    "\<not> leaderboard_key (''contestant:'' @ i)" "\<not> leaderboard_key (''submission:'' @ i)"
    by (simp_all add: run_key_def leaderboard_key_def has_prefix_def)
  then show ?thesis
    using clearRuns_spares [OF assms(1-3)] resetLeaderboard_spares [OF assms(1,2,4)] by blast
qed

lemma admin_deletes_only_its_keys_witness:
  "\<exists>w1 s1 w2 s2. clearRuns (ref_server [''contestant:alice'']) fresh_writer demo_store = Some (w1, s1) \<and>
    resetLeaderboard (ref_server [''contestant:alice'']) fresh_writer demo_store = Some (w2, s2) \<and>
    st_keys s1 ''contestant:alice'' = Some (VStr ''json'') \<and> st_keys s2 ''contestant:alice'' = Some (VStr ''json'')"
proof -
  let ?srv = "ref_server [''contestant:alice'']"
  have a: "\<forall>k. st_keys demo_store k \<noteq> None \<longrightarrow> k \<in> set [''contestant:alice'']"
    by (simp add: demo_store_def put_def empty_store_def)
  obtain w1 s1 where c: "clearRuns ?srv fresh_writer demo_store = Some (w1, s1)"
  proof -
    note r = ref_scan_delete [OF a, of "''run:*''" 0]
    let ?s1 = "demo_store\<lparr>st_keys := \<lambda>k. if glob_prefix ''run:*'' k then None else st_keys demo_store k\<rparr>"
    have "\<forall>k. st_keys ?s1 k \<noteq> None \<longrightarrow> k \<in> set [''contestant:alice'']" using a by simp
    from that ref_scan_delete [OF this, of "''runs:*''" 0] r show ?thesis by (simp add: clearRuns_def)
  qed
  obtain w2 s2 where l: "resetLeaderboard ?srv fresh_writer demo_store = Some (w2, s2)"
  proof -
    let ?s1 = "demo_store\<lparr>st_keys := \<lambda>k. if k \<in> set [''leaderboard''] then None else st_keys demo_store k\<rparr>"
    have "\<forall>k. st_keys ?s1 k \<noteq> None \<longrightarrow> k \<in> set [''contestant:alice'']" using a by simp
    from that ref_scan_delete [OF this, of "''leaderboard:*''" 0] show ?thesis
      by (simp add: resetLeaderboard_def ref_server_answers)
  qed
  have "redis_law ?srv id" by (rule ref_server_law)
  from admin_deletes_only_its_keys [OF this ref_scan_law c l, of _ "''alice''"] c l show ?thesis
    by (auto simp: demo_store_def)
qed

lemma buildOriginSet_eq:
  "buildOriginSet csv = (if TrimSpace csv = '''' then None else Some (set (BrokersFromCSV (TrimSpace csv))))"
proof -
  have "fold (\<lambda>p acc. let o' = TrimSpace p in if o' \<noteq> '''' then insert o' acc else acc) ps acc =
      set (filter (\<lambda>p. p \<noteq> '''') (map TrimSpace ps)) \<union> acc" for ps acc
    by (induction ps arbitrary: acc) (simp_all add: Let_def)
  then show ?thesis by (simp add: buildOriginSet_def BrokersFromCSV_eq Let_def)
qed

text \<open>
  Only configured origins get through the browser's check. Unless the setting is blank, the
  answer names an origin only when it is the request's own and one of the comma separated,
  trimmed entries of the setting; blank means every origin. A preflight request is answered
  with 204 and reaches no handler.
\<close>

theorem cors_allows_only_configured_origins:
  assumes "wr_header w ''Access-Control-Allow-Origin'' = None" "wr_sent w = None"
  shows "\<exists>h. corsMiddleware (buildOriginSet csv) next r w s =
      (if rq_Method r = ''OPTIONS'' then Done (w\<lparr>wr_header := h, wr_sent := Some (204, h)\<rparr>) s
       else next r (w\<lparr>wr_header := h\<rparr>) s) \<and>
    h ''Access-Control-Allow-Origin'' =
      (if TrimSpace csv = '''' then Some ''*''
       else if rq_Origin r \<noteq> '''' \<and> rq_Origin r \<in> TrimSpace ` set (split_on (CHR '','') (TrimSpace csv))
         then Some (rq_Origin r) else None)"
proof -
  let ?os = "set (BrokersFromCSV (TrimSpace csv))" and ?o = "rq_Origin r" and ?h = "wr_header w"
  let ?h0 = "if TrimSpace csv = '''' then ?h(''Access-Control-Allow-Origin'' \<mapsto> ''*'')
    else if ?o \<in> ?os then ?h(''Access-Control-Allow-Origin'' \<mapsto> ?o, ''Vary'' \<mapsto> ''Origin'') else ?h"
  let ?h1 = "?h0(''Access-Control-Allow-Methods'' \<mapsto> ''GET, POST, DELETE, OPTIONS'',
    ''Access-Control-Allow-Headers'' \<mapsto> ''Content-Type'')"
  have m: "?o \<in> ?os \<longleftrightarrow> ?o \<noteq> '''' \<and> ?o \<in> TrimSpace ` set (split_on (CHR '','') (TrimSpace csv))"
    by (auto simp: BrokersFromCSV_eq)
  have "corsMiddleware (buildOriginSet csv) next r w s =
      (if rq_Method r = ''OPTIONS'' then Done (w\<lparr>wr_header := ?h1, wr_sent := Some (204, ?h1)\<rparr>) s
       else next r (w\<lparr>wr_header := ?h1\<rparr>) s)"
    using assms(2) unfolding corsMiddleware_def buildOriginSet_eq Let_def Header_Set_def WriteHeader_def by simp
  moreover have "?h1 ''Access-Control-Allow-Origin'' =
      (if TrimSpace csv = '''' then Some ''*'' else if ?o \<in> ?os then Some ?o else None)"
    using assms(1) by simp
  ultimately show ?thesis unfolding m by blast
qed

lemma cors_allows_only_configured_origins_witness:
  "\<exists>w'. corsMiddleware (buildOriginSet ''a.org, b.org'') (\<lambda>r w s. Panic w s) \<lparr>rq_Method = ''OPTIONS'', rq_Origin = ''c.org''\<rparr>
       (fresh_writer :: body writer) () = Done w' () \<and>
     wr_header w' ''Access-Control-Allow-Origin'' = None"
proof -
  have "wr_header (fresh_writer :: body writer) ''Access-Control-Allow-Origin'' = None" "wr_sent (fresh_writer :: body writer) = None"
    by (simp_all add: fresh_writer_def)
  note c = cors_allows_only_configured_origins [OF this, of "''a.org, b.org''" "\<lambda>r w s. Panic w s"
      "\<lparr>rq_Method = ''OPTIONS'', rq_Origin = ''c.org''\<rparr>" "()"]
  have t: "TrimSpace ''a.org, b.org'' = ''a.org, b.org''" by code_simp
  have "map TrimSpace (split_on (CHR '','') ''a.org, b.org'') = [''a.org'', ''b.org'']" by code_simp
  then have "TrimSpace ` set (split_on (CHR '','') ''a.org, b.org'') = set [''a.org'', ''b.org'']"
    by (simp only: set_map [symmetric])
  then have n: "''c.org'' \<notin> TrimSpace ` set (split_on (CHR '','') ''a.org, b.org'')" by (simp only:) simp
  obtain h where "corsMiddleware (buildOriginSet ''a.org, b.org'') (\<lambda>r w s. Panic w s) \<lparr>rq_Method = ''OPTIONS'', rq_Origin = ''c.org''\<rparr>
      (fresh_writer :: body writer) () = Done (fresh_writer\<lparr>wr_header := h, wr_sent := Some (204, h)\<rparr>) ()"
    "h ''Access-Control-Allow-Origin'' = None"
    using c n unfolding t by (elim exE conjE) simp
  then show ?thesis by (intro exI conjI) (assumption, simp)
qed

end
