(* ===== verification/LeaderboardApi.thy ===== *)
theory LeaderboardApi
  imports JudgeApi Ingester
begin

text \<open>
  cmd/leaderboard_api/main.go: the leaderboard, the event stream, the history and run statistics,
  and the reverse proxy to the judge service. A JSON object is a map from field names to values
  of an arbitrary type, its parser an argument; the queries are those of \<open>Timescale\<close>. Each
  handler gets the method and origin of the request, the path or the query parameter it reads,
  the writer and what it works on.
\<close>

section \<open>Bodies and helpers\<close>

datatype 'v lbBody =
    LError string
  | LObjects "(string \<Rightarrow> 'v option) list"
  | LHistory "contestantStats list"
  | LStats contestantStats
  | LText string

definition lb_jsonErr :: "int \<Rightarrow> string \<Rightarrow> 'v lbBody writer \<Rightarrow> 'v lbBody writer" where
  "lb_jsonErr code msg w = WriteBody (LError msg) (WriteHeader code (Header_Set ''Content-Type'' ''application/json'' w))"

text \<open>Encoding without an explicit status.\<close>

definition lb_json :: "'v lbBody \<Rightarrow> 'v lbBody writer \<Rightarrow> 'v lbBody writer" where
  "lb_json b w = WriteBody b (Header_Set ''Content-Type'' ''application/json'' w)"

text \<open>\<open>http.Error\<close> and \<open>http.NotFound\<close> of the library: plain text with a line end.\<close>

definition newline :: char where
  "newline = char_of (10 :: nat)"

definition http_Error :: "int \<Rightarrow> string \<Rightarrow> 'v lbBody writer \<Rightarrow> 'v lbBody writer" where
  "http_Error code msg w = WriteBody (LText (msg @ [newline])) (WriteHeader code
     (Header_Set ''X-Content-Type-Options'' ''nosniff'' (Header_Set ''Content-Type'' ''text/plain; charset=utf-8'' w)))"

definition http_NotFound :: "'v lbBody writer \<Rightarrow> 'v lbBody writer" where
  "http_NotFound w = http_Error 404 ''404 page not found'' w"

definition lb_buildOriginSet :: "string \<Rightarrow> string set option" where
  "lb_buildOriginSet csv0 =
     (let csv = TrimSpace csv0 in
      if csv = '''' then None
      else Some (fold (\<lambda>p acc. let o' = TrimSpace p in if o' \<noteq> '''' then insert o' acc else acc)
             (split_on (CHR '','') csv) {}))"

definition setCORS :: "request \<Rightarrow> string set option \<Rightarrow> 'b writer \<Rightarrow> 'b writer" where
  "setCORS r originSet w =
     (let origin = rq_Origin r;
          w1 = (case originSet of
                  None \<Rightarrow> Header_Set ''Access-Control-Allow-Origin'' ''*'' w
                | Some os \<Rightarrow> if origin \<in> os
                    then Header_Set ''Vary'' ''Origin'' (Header_Set ''Access-Control-Allow-Origin'' origin w) else w)
      in Header_Set ''Access-Control-Allow-Headers'' ''Content-Type''
           (Header_Set ''Access-Control-Allow-Methods'' ''GET, OPTIONS'' w1))"

definition lb_panicRecovery ::
  "(request \<Rightarrow> 'v lbBody writer \<Rightarrow> 's \<Rightarrow> ('v lbBody, 't) outcome) \<Rightarrow> request \<Rightarrow> 'v lbBody writer \<Rightarrow> 's \<Rightarrow> 'v lbBody writer \<times> 't" where
  "lb_panicRecovery next r w s =
     (case next r w s of
        Done w1 s1 \<Rightarrow> (w1, s1)
      | Panic w1 s1 \<Rightarrow>
          (WriteBody (LError ''internal server error'')
             (WriteHeader 500 (Header_Set ''Content-Type'' ''application/json'' w1)), s1))"

definition lb_envOr :: "(string \<Rightarrow> string) \<Rightarrow> string \<Rightarrow> string \<Rightarrow> string" where
  "lb_envOr getenv k def = (let v = getenv k in if v \<noteq> '''' then v else def)"

section \<open>The leaderboard\<close>

definition leaderboard_limit :: "string \<Rightarrow> int" where
  "leaderboard_limit q =
     (let limit = 50 in
      if q \<noteq> '''' then (case ParseInt q of Some v \<Rightarrow> if v > 0 \<and> v \<le> 1000 then v else limit | None \<Rightarrow> limit) else limit)"

text \<open>
  The loop over the values of \<open>MGET\<close>. A missing value or one that does not parse is skipped; JSON
  null leaves the map nil, and writing to it panics (\<open>None\<close>).
\<close>

fun build_payload ::
  "(string \<Rightarrow> string + (string \<Rightarrow> 'v option) option) \<Rightarrow> (string \<Rightarrow> 'v) \<Rightarrow> string list \<Rightarrow> string option list \<Rightarrow> (string \<Rightarrow> 'v option) list option" where
  "build_payload parse jstr (cid # cids) (None # vals) = build_payload parse jstr cids vals"
| "build_payload parse jstr (cid # cids) (Some v # vals) =
     (case parse v of
        Inl e \<Rightarrow> build_payload parse jstr cids vals
      | Inr None \<Rightarrow> None
      | Inr (Some obj) \<Rightarrow> map_option (\<lambda>rest. obj(''contestant_id'' \<mapsto> jstr cid) # rest) (build_payload parse jstr cids vals))"
| "build_payload parse jstr _ _ = Some []"

definition lb_leaderboard ::
  "(string \<Rightarrow> string + (string \<Rightarrow> 'v option) option) \<Rightarrow> (string \<Rightarrow> 'v) \<Rightarrow> 's server \<Rightarrow> string set option \<Rightarrow> string \<Rightarrow>
     request \<Rightarrow> 'v lbBody writer \<Rightarrow> 's \<Rightarrow> ('v lbBody, 's) outcome" where
  "lb_leaderboard parse jstr srv originSet limitParam r w0 s =
     (let w = setCORS r originSet w0 in
      if rq_Method r = ''OPTIONS'' then Done (WriteHeader 204 w) s
      else let limit = leaderboard_limit limitParam; (rep, s1) = srv (CZRevRange ''leaderboard'' 0 (limit - 1)) s in
        case as_keys rep of
          Inl e \<Rightarrow> Done (lb_jsonErr 500 e w) s1
        | Inr cids \<Rightarrow>
            let keys = map (\<lambda>cid. ''leaderboard:'' @ cid) cids in
            if length keys > 0
            then (case srv (CMGet keys) s1 of (rep2, s2) \<Rightarrow>
                    (case as_vals rep2 of
                       Inl e \<Rightarrow> Done (lb_jsonErr 500 e w) s2
                     | Inr vals \<Rightarrow>
                         (case build_payload parse jstr cids vals of
                            None \<Rightarrow> Panic w s2
                          | Some payload \<Rightarrow> Done (lb_json (LObjects payload) w) s2)))
            else Done (lb_json (LObjects []) w) s1)"

section \<open>The event stream\<close>

text \<open>
  What the loop's \<open>select\<close> picks, until one of the contexts ends: a heartbeat, a message, or the nil
  that a closed subscription yields, which is skipped.
\<close>

datatype stream_event = Heartbeat | Update string | NilMessage | ContextDone

definition stream_frame :: "stream_event \<Rightarrow> string list" where
  "stream_frame e =
     (case e of
        Heartbeat \<Rightarrow> [''event: ping'' @ newline # ''data: {}'' @ [newline, newline]]
      | Update payload \<Rightarrow> [''event: update'' @ newline # ''data: '' @ go_quote payload @ [newline, newline]]
      | _ \<Rightarrow> [])"

fun stream_loop :: "stream_event list \<Rightarrow> 'v lbBody writer \<Rightarrow> 'v lbBody writer" where
  "stream_loop [] w = w"
| "stream_loop (ContextDone # es) w = w"
| "stream_loop (e # es) w = stream_loop es (fold (\<lambda>f. WriteBody (LText f)) (stream_frame e) w)"

definition lb_stream ::
  "bool \<Rightarrow> stream_event list \<Rightarrow> string set option \<Rightarrow> request \<Rightarrow> 'v lbBody writer \<Rightarrow> 'v lbBody writer" where
  "lb_stream canFlush es originSet r w0 =
     (let w = setCORS r originSet w0 in
      if rq_Method r = ''OPTIONS'' then WriteHeader 204 w
      else if \<not> canFlush
      then http_Error 500 ''streaming unsupported'' w
      else let w1 = Header_Set ''Connection'' ''keep-alive'' (Header_Set ''Cache-Control'' ''no-cache''
                      (Header_Set ''Content-Type'' ''text/event-stream'' w));
               w2 = WriteBody (LText ('': connected'' @ [newline, newline])) w1
           in stream_loop es w2)"

section \<open>History and run statistics\<close>

text \<open>\<open>strings.Index\<close> and \<open>strings.LastIndex\<close> of a slash, as the two parts around it.\<close>

definition cut_first :: "string \<Rightarrow> (string \<times> string) option" where
  "cut_first s = (if CHR ''/'' \<in> set s
     then Some (takeWhile (\<lambda>c. c \<noteq> CHR ''/'') s, tl (dropWhile (\<lambda>c. c \<noteq> CHR ''/'') s)) else None)"

definition cut_last :: "string \<Rightarrow> (string \<times> string) option" where
  "cut_last s = (case cut_first (rev s) of None \<Rightarrow> None | Some (b, a) \<Rightarrow> Some (rev a, rev b))"

definition history_param :: "string \<Rightarrow> int" where
  "history_param q =
     (let hours = 1 in
      if q \<noteq> '''' then (case ParseInt q of Some v \<Rightarrow> if v > 0 then v else hours | None \<Rightarrow> hours) else hours)"

definition lb_history ::
  "(string \<Rightarrow> int \<Rightarrow> string + (string + contestantStats) list \<times> string option) option \<Rightarrow> string set option \<Rightarrow>
     string \<Rightarrow> string \<Rightarrow> request \<Rightarrow> 'v lbBody writer \<Rightarrow> 'v lbBody writer" where
  "lb_history ts originSet path hoursParam r w0 =
     (let w = setCORS r originSet w0 in
      if rq_Method r = ''OPTIONS'' then WriteHeader 204 w
      else case ts of
        None \<Rightarrow> lb_jsonErr 503 ''timescaledb not configured'' w
      | Some query \<Rightarrow>
          let rest = drop (length ''/contestants/'') path in
          (case cut_first rest of
             None \<Rightarrow> http_NotFound w
           | Some (contestantID, endpoint) \<Rightarrow>
               if endpoint = ''history''
               then (case QueryHistory query contestantID (history_param hoursParam) of
                       (data, Some e) \<Rightarrow> lb_jsonErr 500 e w
                     | (data, None) \<Rightarrow> lb_json (LHistory data) w)
               else http_NotFound w))"

definition lb_runs ::
  "(string \<Rightarrow> string + contestantStats) option \<Rightarrow> string set option \<Rightarrow> string \<Rightarrow> request \<Rightarrow> 'v lbBody writer \<Rightarrow> 'v lbBody writer" where
  "lb_runs ts originSet path r w0 =
     (let w = setCORS r originSet w0 in
      if rq_Method r = ''OPTIONS'' then WriteHeader 204 w
      else case ts of
        None \<Rightarrow> lb_jsonErr 503 ''timescaledb not configured'' w
      | Some queryRow \<Rightarrow>
          let rest = drop (length ''/runs/'') path in
          (case cut_last rest of
             None \<Rightarrow> http_NotFound w
           | Some (runID, final) \<Rightarrow>
               if final \<noteq> ''stats'' then http_NotFound w
               else (case QueryRunStats queryRow runID of
                       Inl e \<Rightarrow> lb_jsonErr 500 e w
                     | Inr data \<Rightarrow> lb_json (LStats data) w)))"

section \<open>The reverse proxy\<close>

text \<open>
  The backend answers a request and a path with an error or a status, headers and body, and
  changes the state it shares with this service; \<open>None\<close> if it never answers. The path is that of
  the target's URL with the request's joined to it. \<open>ModifyResponse\<close> deletes the CORS headers of
  the answer; the proxy of the library then adds the others to the writer's, so that a header both
  have is sent twice, which is the same as once with both values and a comma (RFC 9110, 5.3).
\<close>

type_synonym ('v, 'w) lb_backend =
  "request \<Rightarrow> string \<Rightarrow> 'w \<Rightarrow> ((string + int \<times> (string \<Rightarrow> string option) \<times> 'v lbBody) \<times> 'w) option"

definition singleJoiningSlash :: "string \<Rightarrow> string \<Rightarrow> string" where
  "singleJoiningSlash a b =
     (let aslash = (a \<noteq> '''' \<and> last a = CHR ''/''); bslash = has_prefix ''/'' b
      in if aslash \<and> bslash then a @ tl b else if \<not> aslash \<and> \<not> bslash then a @ CHR ''/'' # b else a @ b)"

definition add_headers :: "(string \<Rightarrow> string option) \<Rightarrow> (string \<Rightarrow> string option) \<Rightarrow> string \<Rightarrow> string option" where
  "add_headers h h' k =
     (case h k of None \<Rightarrow> h' k
      | Some x \<Rightarrow> (case h' k of None \<Rightarrow> Some x | Some y \<Rightarrow> Some (x @ '', '' @ y)))"

definition proxy_ModifyResponse :: "(string \<Rightarrow> string option) \<Rightarrow> string \<Rightarrow> string option" where
  "proxy_ModifyResponse h = h(''Access-Control-Allow-Origin'' := None, ''Access-Control-Allow-Methods'' := None,
     ''Access-Control-Allow-Headers'' := None, ''Access-Control-Allow-Credentials'' := None)"

definition lb_proxy ::
  "string \<Rightarrow> ('v, 'w) lb_backend \<Rightarrow> string set option \<Rightarrow> string \<Rightarrow> request \<Rightarrow> 'v lbBody writer \<Rightarrow> 'w \<Rightarrow>
     'v lbBody writer \<times> 'w option" where
  "lb_proxy target backend originSet path r w0 st =
     (if \<not> has_prefix ''/proxy/judge'' path then (http_NotFound w0, Some st)
      else let stripped = drop (length ''/proxy/judge'') path; w = setCORS r originSet w0 in
        if rq_Method r = ''OPTIONS'' then (WriteHeader 204 w, Some st)
        else case backend r (singleJoiningSlash target stripped) st of
          None \<Rightarrow> (w, None)
        | Some (Inl e, st1) \<Rightarrow> (lb_jsonErr 502 (''judge-api unreachable: '' @ e) w, Some st1)
        | Some (Inr (code, h, b), st1) \<Rightarrow>
            (WriteBody b (WriteHeader code (w\<lparr>wr_header := add_headers (wr_header w) (proxy_ModifyResponse h)\<rparr>)), Some st1))"

section \<open>Lemmas\<close>

lemma build_payload_stored:
  "\<forall>cid \<in> set cids. parse (js cid) = Inr (Some (obj cid)) \<Longrightarrow>
   build_payload parse jstr cids (map (\<lambda>cid. Some (js cid)) cids) =
     Some (map (\<lambda>cid. (obj cid)(''contestant_id'' \<mapsto> jstr cid)) cids)"
  by (induction cids) simp_all

lemma leaderboard_limit_range: "1 \<le> leaderboard_limit q \<and> leaderboard_limit q \<le> 1000"
  by (auto simp: leaderboard_limit_def Let_def split: option.split)

lemma lb_leaderboard_up:
  assumes "redis_up srv view" "read_zset (st_keys (view s) ''leaderboard'') = Some zs" "rq_Method r \<noteq> ''OPTIONS''"
    and "\<forall>cid \<in> snd ` set zs. st_keys (view s) (''leaderboard:'' @ cid) = Some (VStr (js cid)) \<and> parse (js cid) = Inr (Some (obj cid))"
  shows "\<exists>s'. lb_leaderboard parse jstr srv originSet q r w s =
      Done (lb_json (LObjects (map (\<lambda>z. (obj (snd z))(''contestant_id'' \<mapsto> jstr (snd z)))
        (take (nat (leaderboard_limit q)) (rev zs)))) (setCORS r originSet w)) s' \<and> view s' = view s"
proof -
  note runs = redis_running.runs [OF redis_running_up [OF assms(1)]]
  let ?n = "nat (leaderboard_limit q)"
  let ?cids = "map snd (take ?n (rev zs))"
  have "0 \<le> leaderboard_limit q - 1" "nat (leaderboard_limit q - 1 + 1) = ?n" using leaderboard_limit_range [of q] by auto
  then have "redis_exec (CZRevRange ''leaderboard'' 0 (leaderboard_limit q - 1)) (view s) = Some (RKeys ?cids, view s)"
    using assms(2) range_of_head [of "leaderboard_limit q - 1" "rev zs"] by simp
  from runs [OF this] obtain s1 where s1:
    "srv (CZRevRange ''leaderboard'' 0 (leaderboard_limit q - 1)) s = (Inr (RKeys ?cids), s1)" "view s1 = view s" by auto
  have j: "\<forall>cid \<in> set ?cids. st_keys (view s) (''leaderboard:'' @ cid) = Some (VStr (js cid)) \<and> parse (js cid) = Inr (Some (obj cid))"
    using assms(4) by (auto dest!: in_set_takeD)
  let ?keys = "map (\<lambda>cid. ''leaderboard:'' @ cid) ?cids"
  have "map (\<lambda>k. mget_one (st_keys (view s1) k)) ?keys = map (\<lambda>cid. Some (js cid)) ?cids"
    using j s1(2) by (auto simp: mget_one_def)
  then have "redis_exec (CMGet ?keys) (view s1) = Some (RVals (map (\<lambda>cid. Some (js cid)) ?cids), view s1)"
    by (simp only: redis_exec.simps)
  from runs [OF this] obtain s2 where s2:
    "srv (CMGet ?keys) s1 = (Inr (RVals (map (\<lambda>cid. Some (js cid)) ?cids)), s2)" "view s2 = view s" using s1(2) by auto
  have b: "build_payload parse jstr ?cids (map (\<lambda>cid. Some (js cid)) ?cids) =
      Some (map (\<lambda>cid. (obj cid)(''contestant_id'' \<mapsto> jstr cid)) ?cids)"
    using j by (intro build_payload_stored) blast
  show ?thesis
  proof (cases "?cids = []")
    case True
    then have "zs = []" using leaderboard_limit_range [of q] by auto
    then show ?thesis using s1 assms(3) unfolding lb_leaderboard_def Let_def by simp
  next
    case False
    then have "lb_leaderboard parse jstr srv originSet q r w s =
        Done (lb_json (LObjects (map (\<lambda>cid. (obj cid)(''contestant_id'' \<mapsto> jstr cid)) ?cids)) (setCORS r originSet w)) s2"
      using s1(1) s2(1) b assms(3) unfolding lb_leaderboard_def Let_def
      by (simp only: prod.case as_keys.simps as_vals.simps sum.case option.case if_False if_True length_map length_greater_0_conv map_is_Nil_conv simp_thms)
    then show ?thesis using s2(2) by (auto simp: o_def)
  qed
qed

text \<open>The entry of a window in the sorted set.\<close>

definition rank_key :: "contestantWindow \<Rightarrow> f64 \<times> string" where
  "rank_key w = (w_Score w, w_ContestantID w)"

lemma add_windows_set:
  "distinct (map w_ContestantID ws) \<Longrightarrow>
   set (add_windows ws zs) = rank_key ` set ws \<union> {z \<in> set zs. snd z \<notin> w_ContestantID ` set ws}"
proof (induction ws arbitrary: zs)
  case (Cons w ws)
  have "add_windows (w # ws) zs = add_windows ws (z_add (w_Score w) (w_ContestantID w) zs)" by (simp add: add_windows_def)
  moreover have "w_ContestantID w \<notin> w_ContestantID ` set ws" using Cons.prems by simp
  ultimately show ?case using Cons by (auto simp: set_z_add rank_key_def)
qed (simp add: add_windows_def)

lemma top_of_sorted:
  assumes "sorted_wrt P xs"
  shows "set (take n (rev (drop k xs))) \<subseteq> set xs"
    and "sorted_wrt (\<lambda>x y. P y x) (take n (rev (drop k xs)))"
    and "\<forall>x \<in> set xs - set (take n (rev (drop k xs))). \<forall>y \<in> set (take n (rev (drop k xs))). P x y"
proof -
  define m where "m = length (drop k xs) - n"
  define rest where "rest = take k xs @ take m (drop k xs)"
  define top where "top = drop m (drop k xs)"
  have s: "take n (rev (drop k xs)) = rev top" by (simp only: take_rev top_def m_def)
  have xs: "xs = rest @ top" by (simp only: rest_def top_def append.assoc append_take_drop_id)
  then have "sorted_wrt P (rest @ top)" using assms by simp
  then have sorted: "sorted_wrt P top" "\<forall>x \<in> set rest. \<forall>y \<in> set top. P x y" by (simp_all add: sorted_wrt_append)
  have set_xs: "set xs = set rest \<union> set top" by (subst xs) simp
  show "set (take n (rev (drop k xs))) \<subseteq> set xs" unfolding s set_xs by simp
  show "sorted_wrt (\<lambda>x y. P y x) (take n (rev (drop k xs)))"
    unfolding s using sorted(1) by (simp add: sorted_wrt_rev)
  show "\<forall>x \<in> set xs - set (take n (rev (drop k xs))). \<forall>y \<in> set (take n (rev (drop k xs))). P x y"
    unfolding s set_xs using sorted(2) by auto
qed

section \<open>Properties\<close>

text \<open>
  C19: from the windows to the web page, whatever was on the leaderboard before. After the ingester
  has flushed a batch of windows, the leaderboard handler serves a prefix, best score first, of
  the flushed windows and the entries of other contestants that were there before, as many as
  were asked for and kept (at most \<open>topN\<close>): a flushed contestant with its new score and the record
  stored for its window, the others with the record they had. Each contestant is shown once, and
  nobody who is left out ranks above someone shown.
\<close>

theorem flushed_windows_are_served:
  assumes "redis_up srv view" "read_zset (st_keys (view s) ''leaderboard'') = Some zs" "z_ok zs"
    and "\<forall>w \<in> set ws. w_Score w \<noteq> NaN" "distinct (map w_ContestantID ws)" "0 < topN" "ws \<noteq> []"
    and "\<forall>w \<in> set ws. parse (json w) = Inr (Some (new (w_ContestantID w)))" "rq_Method r \<noteq> ''OPTIONS''"
    and "\<forall>z \<in> set zs. snd z \<notin> w_ContestantID ` set ws \<longrightarrow>
      (\<exists>v. st_keys (view s) (''leaderboard:'' @ snd z) = Some (VStr v) \<and> parse v = Inr (Some (old (snd z))))"
  shows "\<exists>shown s' all. all = rank_key ` set ws \<union> {z \<in> set zs. snd z \<notin> w_ContestantID ` set ws} \<and>
    lb_leaderboard parse jstr srv originSet q r w0 (flush_redis srv json topN ws s) =
      Done (lb_json (LObjects (map (\<lambda>z. (if snd z \<in> w_ContestantID ` set ws then new (snd z) else old (snd z))
        (''contestant_id'' \<mapsto> jstr (snd z))) shown)) (setCORS r originSet w0)) s' \<and>
    length shown = min (nat (leaderboard_limit q)) (min (nat topN) (card all)) \<and> set shown \<subseteq> all \<and>
    distinct (map snd shown) \<and> sorted_wrt (\<lambda>x y. z_less y x) shown \<and>
    (\<forall>x \<in> all - set shown. \<forall>y \<in> set shown. z_less x y)"
proof -
  let ?ids = "w_ContestantID ` set ws" and ?all = "add_windows ws zs" and ?t = "view (flush_redis srv json topN ws s)"
  let ?k = "length ?all - nat topN" and ?n = "nat (leaderboard_limit q)"
  let ?obj = "\<lambda>cid. if cid \<in> ?ids then new cid else old cid"
  let ?shown = "take ?n (rev (drop ?k ?all))"
  note f = flush_redis_up [OF assms(1,2,4-7), of json]
  note set_all = add_windows_set [OF assms(5), of zs]
  have ok: "z_ok ?all" by (rule add_windows_ok [OF assms(3,4)])
  have stored: "\<exists>v. st_keys ?t (''leaderboard:'' @ cid) = Some (VStr v) \<and> parse v = Inr (Some (?obj cid))"
    if cid: "cid \<in> snd ` set ?all" for cid
  proof (cases "cid \<in> ?ids")
    case True
    then obtain w where w: "w \<in> set ws" "cid = w_ContestantID w" by auto
    then show ?thesis using f assms(8) True by auto
  next
    case False
    then obtain z where z: "z \<in> set zs" "cid = snd z" using cid set_all by (auto simp: rank_key_def)
    have "''leaderboard:'' @ cid \<noteq> ''leaderboard''" "''leaderboard:'' @ cid \<notin> (\<lambda>w. ''leaderboard:'' @ w_ContestantID w) ` set ws"
      using False by auto
    then have "st_keys ?t (''leaderboard:'' @ cid) = st_keys (view s) (''leaderboard:'' @ cid)" using f by blast
    then show ?thesis using assms(10) z False by auto
  qed
  define js where "js = (\<lambda>cid. case st_keys ?t (''leaderboard:'' @ cid) of Some (VStr v) \<Rightarrow> v | _ \<Rightarrow> '''')"
  have keys: "\<forall>cid \<in> snd ` set (drop ?k ?all). st_keys ?t (''leaderboard:'' @ cid) = Some (VStr (js cid)) \<and>
      parse (js cid) = Inr (Some (?obj cid))"
  proof
    fix cid assume "cid \<in> snd ` set (drop ?k ?all)"
    then have "cid \<in> snd ` set ?all" using set_drop_subset [of ?k ?all] by blast
    from stored [OF this] show "st_keys ?t (''leaderboard:'' @ cid) = Some (VStr (js cid)) \<and>
      parse (js cid) = Inr (Some (?obj cid))" by (auto simp: js_def)
  qed
  from lb_leaderboard_up [where q = q and jstr = jstr and originSet = originSet and w = w0, OF assms(1) f [THEN conjunct1] assms(9) keys]
  obtain s' where
    served: "lb_leaderboard parse jstr srv originSet q r w0 (flush_redis srv json topN ws s) =
      Done (lb_json (LObjects (map (\<lambda>z. (?obj (snd z))(''contestant_id'' \<mapsto> jstr (snd z))) ?shown)) (setCORS r originSet w0)) s'"
    by blast
  have sorted: "sorted_wrt z_less ?all" and d: "distinct (map snd ?all)" using ok by (simp_all add: z_ok_def)
  note top = top_of_sorted [OF sorted, of ?n ?k, unfolded set_all]
  have "card (set ?all) = length ?all" using d by (metis distinct_card distinct_map)
  then have "length ?shown = min ?n (min (nat topN) (card (rank_key ` set ws \<union> {z \<in> set zs. snd z \<notin> ?ids})))"
    unfolding set_all by (simp add: min_def)
  moreover have "distinct (map snd ?shown)"
    using d by (simp add: take_map [symmetric] drop_map [symmetric] rev_map [symmetric] distinct_drop)
  ultimately show ?thesis using served top
    by (intro exI [of _ ?shown] exI [of _ s'] exI [of _ "rank_key ` set ws \<union> {z \<in> set zs. snd z \<notin> ?ids}"] conjI)
      (rule refl | assumption)+
qed

lemma writer_headers [simp]:
  "wr_header (WriteHeader c w) = wr_header w" "wr_header (WriteBody b w) = wr_header w"
  by (simp_all add: WriteHeader_def WriteBody_def Let_def)

lemma setCORS_methods [simp]: "wr_header (setCORS r originSet w) ''Access-Control-Allow-Methods'' = Some ''GET, OPTIONS''"
  by (simp add: setCORS_def Header_Set_def Let_def)

text \<open>One contestant was there, two windows are flushed, one of them that contestant's new one.\<close>

definition demo_board :: store where
  "demo_board = empty_store\<lparr>st_keys := [''leaderboard'' \<mapsto> VZset [(Fin 3, ''a''), (Fin 5, ''z'')],
     ''leaderboard:a'' \<mapsto> VStr ''old a'', ''leaderboard:z'' \<mapsto> VStr ''old z'']\<rparr>"

lemma flushed_windows_are_served_witness:
  "\<exists>shown s'. lb_leaderboard (\<lambda>v. Inr (Some [''record'' \<mapsto> v])) (\<lambda>x. x) (ref_server []) None ''''
      \<lparr>rq_Method = ''GET'', rq_Origin = ''''\<rparr> fresh_writer
      (flush_redis (ref_server []) (\<lambda>w. ''new'') 50 [demo_window ''a'' (Fin 2)] demo_board) =
    Done (lb_json (LObjects (map (\<lambda>z. (if snd z \<in> {''a''} then [''record'' \<mapsto> ''new''] else [''record'' \<mapsto> ''old z''])
        (''contestant_id'' \<mapsto> snd z)) shown))
      (setCORS \<lparr>rq_Method = ''GET'', rq_Origin = ''''\<rparr> None fresh_writer)) s' \<and>
    length shown = 2 \<and> set shown \<subseteq> {(Fin 2, ''a''), (Fin 5, ''z'')}"
proof -
  let ?ws = "[demo_window ''a'' (Fin 2)]" and ?r = "\<lparr>rq_Method = ''GET'', rq_Origin = ''''\<rparr>"
  let ?parse = "\<lambda>v. Inr (Some [''record'' \<mapsto> v]) :: string + (string \<Rightarrow> string option) option"
  let ?zs = "[(Fin 3, ''a''), (Fin 5, ''z'')]"
  have h: "read_zset (st_keys (id demo_board) ''leaderboard'') = Some ?zs" "z_ok ?zs" "\<forall>w \<in> set ?ws. w_Score w \<noteq> NaN"
    "distinct (map w_ContestantID ?ws)" "(0 :: int) < 50" "?ws \<noteq> []"
    "\<forall>w \<in> set ?ws. ?parse ((\<lambda>w. ''new'') w) = Inr (Some ((\<lambda>cid. [''record'' \<mapsto> ''new'']) (w_ContestantID w)))"
    "rq_Method ?r \<noteq> ''OPTIONS''"
    "\<forall>z \<in> set ?zs. snd z \<notin> w_ContestantID ` set ?ws \<longrightarrow>
      (\<exists>v. st_keys (id demo_board) (''leaderboard:'' @ snd z) = Some (VStr v) \<and>
        ?parse v = Inr (Some ((\<lambda>cid. [''record'' \<mapsto> ''old z'']) (snd z))))"
    by (simp_all add: demo_board_def empty_store_def demo_window_def z_ok_def z_less_def)
  have n: "nat (leaderboard_limit '''') = 50" by (simp add: leaderboard_limit_def)
  have all: "rank_key ` set ?ws \<union> {z \<in> set ?zs. snd z \<notin> {''a''}} = {(Fin 2, ''a''), (Fin 5, ''z'')}"
    by (auto simp: rank_key_def demo_window_def)
  have ids: "w_ContestantID ` set ?ws = {''a''}" by (simp add: demo_window_def)
  from flushed_windows_are_served [where jstr = "\<lambda>x. x" and q = "''''" and originSet = None and ?w0.0 = fresh_writer
      and json = "\<lambda>w. ''new''" and parse = ?parse, OF ref_server_up [of "[]"] h]
  obtain shown s' where "lb_leaderboard ?parse (\<lambda>x. x) (ref_server []) None '''' ?r fresh_writer
      (flush_redis (ref_server []) (\<lambda>w. ''new'') 50 ?ws demo_board) =
    Done (lb_json (LObjects (map (\<lambda>z. (if snd z \<in> {''a''} then [''record'' \<mapsto> ''new''] else [''record'' \<mapsto> ''old z''])
        (''contestant_id'' \<mapsto> snd z)) shown)) (setCORS ?r None fresh_writer)) s'"
    "length shown = min 50 (min (nat 50) (card {(Fin 2, ''a''), (Fin 5, ''z'')}))" "set shown \<subseteq> {(Fin 2, ''a''), (Fin 5, ''z'')}"
    unfolding n ids all by blast
  then show ?thesis by (intro exI [of _ shown] exI [of _ s'] conjI) simp_all
qed

text \<open>
  The stream sends one frame per event, in order, until a context ends, and no payload can
  break a frame: between \<open>data: \<close> and the empty line that ends the frame there is no line end,
  whatever was published.
\<close>

theorem stream_frames_are_safe:
  "wr_body (stream_loop es w) =
     wr_body w @ map LText (concat (map stream_frame (takeWhile (\<lambda>e. e \<noteq> ContextDone) es))) \<and>
   (\<exists>data. newline \<notin> set data \<and>
      stream_frame (Update payload) = [''event: update'' @ newline # ''data: '' @ data @ [newline, newline]])"
proof
  have body: "wr_body (WriteBody b w) = wr_body w @ [b]" for b :: "'a lbBody" and w
    by (simp add: WriteBody_def WriteHeader_def Let_def)
  have frames: "wr_body (fold (\<lambda>f. WriteBody (LText f)) fs w) = wr_body w @ map LText fs" for fs and w :: "'a lbBody writer"
    by (induction fs arbitrary: w) (simp_all add: body)
  show "wr_body (stream_loop es w) =
     wr_body w @ map LText (concat (map stream_frame (takeWhile (\<lambda>e. e \<noteq> ContextDone) es)))"
    by (induction es w rule: stream_loop.induct) (simp_all add: frames del: fold.simps)
  have "newline \<notin> set (go_quote payload)" unfolding newline_def by (rule go_quote_no_newline)
  then show "\<exists>data. newline \<notin> set data \<and>
      stream_frame (Update payload) = [''event: update'' @ newline # ''data: '' @ data @ [newline, newline]]"
    by (auto simp: stream_frame_def)
qed

lemma proxy_headers:
  assumes "has_prefix ''/proxy/judge'' path"
    and "k = ''Access-Control-Allow-Origin'' \<or> k = ''Access-Control-Allow-Methods''"
  shows "wr_header (fst (lb_proxy target backend originSet path r w st)) k = wr_header (setCORS r originSet w) k"
proof (cases "rq_Method r = ''OPTIONS''")
  case True
  then show ?thesis unfolding lb_proxy_def Let_def using assms(1) by simp
next
  case False
  have m: "proxy_ModifyResponse h k = None" for h using assms(2) by (auto simp: proxy_ModifyResponse_def)
  have c: "k \<noteq> ''Content-Type''" using assms(2) by auto
  then show ?thesis unfolding lb_proxy_def Let_def using assms(1) False m
    by (simp add: lb_jsonErr_def Header_Set_def add_headers_def split: option.split prod.split sum.split)
qed

text \<open>
  What the proxy lets a page on another origin see is its own decision: whatever CORS headers
  the judge service sends, the answer carries those of this service, and a preflight is answered
  here. It allows GET and OPTIONS only, so the judge's DELETE calls, which the judge service
  itself allows, cannot be made by a page through the proxy.
\<close>

theorem proxy_decides_cors_itself:
  assumes "has_prefix ''/proxy/judge'' path"
  shows "let w = fst (lb_proxy target backend originSet path r w0 st); own = setCORS r originSet w0 in
    wr_header w ''Access-Control-Allow-Origin'' = wr_header own ''Access-Control-Allow-Origin'' \<and>
    wr_header w ''Access-Control-Allow-Methods'' = Some ''GET, OPTIONS'' \<and>
    (rq_Method r = ''OPTIONS'' \<longrightarrow> w = WriteHeader 204 own) \<and>
    (\<exists>w'. corsMiddleware originSet next (r\<lparr>rq_Method := ''OPTIONS''\<rparr>) w0 s = Done w' s \<and>
      wr_header w' ''Access-Control-Allow-Methods'' = Some ''GET, POST, DELETE, OPTIONS'')"
proof -
  have "rq_Method r = ''OPTIONS'' \<Longrightarrow> lb_proxy target backend originSet path r w0 st = (WriteHeader 204 (setCORS r originSet w0), Some st)"
    unfolding lb_proxy_def Let_def using assms by simp
  moreover have "\<exists>w'. corsMiddleware originSet next (r\<lparr>rq_Method := ''OPTIONS''\<rparr>) w0 s = Done w' s \<and>
      wr_header w' ''Access-Control-Allow-Methods'' = Some ''GET, POST, DELETE, OPTIONS''"
    by (simp add: corsMiddleware_def Header_Set_def Let_def)
  ultimately show ?thesis using proxy_headers [OF assms, of _ target backend originSet r w0 st] by (simp add: Let_def)
qed

lemma proxy_decides_cors_itself_witness:
  "wr_header (fst (lb_proxy '''' (\<lambda>r p st. Some (Inr (200, [''Access-Control-Allow-Origin'' \<mapsto> ''*''], LText ''''), st)) (Some {''https://a''})
      ''/proxy/judge/runs'' \<lparr>rq_Method = ''GET'', rq_Origin = ''https://b''\<rparr> (fresh_writer :: nat lbBody writer) ()))
    ''Access-Control-Allow-Origin'' = None"
proof -
  have "has_prefix ''/proxy/judge'' ''/proxy/judge/runs''" by (simp add: has_prefix_def)
  from proxy_decides_cors_itself [OF this, of "''''" "\<lambda>r p st. Some (Inr (200, [''Access-Control-Allow-Origin'' \<mapsto> ''*''], LText ''''), st)"
      "Some {''https://a''}" "\<lparr>rq_Method = ''GET'', rq_Origin = ''https://b''\<rparr>" "fresh_writer :: nat lbBody writer" "()"
      "\<lambda>r w s. Panic w s" "()"]
  show ?thesis by (simp only: Let_def) (simp add: setCORS_def Header_Set_def fresh_writer_def Let_def)
qed

text \<open>
  The database is never asked for more than a week: whatever the query parameter says, the
  history handler gives the query a number of hours from 1 to 168, so the answer does not depend
  on what the database would do with another.
\<close>

theorem history_asks_for_a_week_at_most:
  assumes "\<And>cid h. 1 \<le> h \<Longrightarrow> h \<le> 168 \<Longrightarrow> query cid h = query' cid h"
  shows "lb_history (Some query) originSet path hoursParam r w = lb_history (Some query') originSet path hoursParam r w"
proof -
  have "QueryHistory query cid h = QueryHistory query' cid h" for cid h
    using assms history_hours_range [of h] by (simp add: QueryHistory_def)
  then show ?thesis unfolding lb_history_def Let_def option.case by (simp only:)
qed

lemma history_asks_for_a_week_at_most_witness:
  "lb_history (Some (\<lambda>cid h. Inr ([], None))) None ''/contestants/c/history'' ''9999'' \<lparr>rq_Method = ''GET'', rq_Origin = ''''\<rparr>
      (fresh_writer :: nat lbBody writer) =
   lb_history (Some (\<lambda>cid h. if h > 168 then Inl ''too long'' else Inr ([], None))) None ''/contestants/c/history'' ''9999''
      \<lparr>rq_Method = ''GET'', rq_Origin = ''''\<rparr> fresh_writer"
  by (rule history_asks_for_a_week_at_most) simp

text \<open>
  The two services' copies of the shared helpers are the same functions: the allow-list of
  origins, and the origin a response names; the environment default of the third as well.
\<close>

theorem service_helpers_agree:
  "lb_buildOriginSet csv = buildOriginSet csv \<and> lb_envOr getenv k def = envOr getenv k def \<and>
   (\<exists>w'. corsMiddleware originSet (\<lambda>r w s. Done w s) r w s = Done w' s \<and>
     wr_header w' ''Access-Control-Allow-Origin'' = wr_header (setCORS r originSet w) ''Access-Control-Allow-Origin'' \<and>
     wr_header w' ''Vary'' = wr_header (setCORS r originSet w) ''Vary'')"
  by (simp add: lb_buildOriginSet_def buildOriginSet_def lb_envOr_def envOr_def corsMiddleware_def setCORS_def
    Header_Set_def Let_def split: option.split)

end
