(* ===== verification/JudgeService.thy ===== *)
theory JudgeService
  imports JudgeApi
begin

text \<open>
  cmd/judge_api/main.go: the table of routes and the service as a whole, panic recovery around the
  CORS middleware around the multiplexer. \<open>http.ServeMux\<close> is the standard library's: a pattern is a
  method and segments, a wildcard takes one non-empty segment, \<open>GET\<close> takes \<open>HEAD\<close> too, a path
  without a pattern is answered with 404 and one with patterns for other methods with 405. Paths
  come cleaned and split at the slashes; that the body of a \<open>HEAD\<close> answer is not sent is left out.
\<close>

section \<open>Routes\<close>

datatype segment = Lit string | Wild

datatype judge_route =
    RHealthz
  | RRegisterContestant
  | RListContestants
  | RGetContestant string
  | RListSubmissions string
  | RListRuns string
  | RCreateSubmission
  | RGetSubmission string
  | RGetRun string
  | RResetLeaderboard
  | RGetQueueStatus
  | RClearRuns
  | RDeepHealth

definition judge_routes :: "(string \<times> segment list \<times> (string \<Rightarrow> judge_route)) list" where
  "judge_routes =
     [(''GET'', [Lit ''healthz''], \<lambda>_. RHealthz),
      (''POST'', [Lit ''contestants''], \<lambda>_. RRegisterContestant),
      (''GET'', [Lit ''contestants''], \<lambda>_. RListContestants),
      (''GET'', [Lit ''contestants'', Wild], RGetContestant),
      (''GET'', [Lit ''contestants'', Wild, Lit ''submissions''], RListSubmissions),
      (''GET'', [Lit ''contestants'', Wild, Lit ''runs''], RListRuns),
      (''POST'', [Lit ''submissions''], \<lambda>_. RCreateSubmission),
      (''GET'', [Lit ''submissions'', Wild], RGetSubmission),
      (''GET'', [Lit ''runs'', Wild], RGetRun),
      (''DELETE'', [Lit ''leaderboard''], \<lambda>_. RResetLeaderboard),
      (''GET'', [Lit ''admin'', Lit ''queue''], \<lambda>_. RGetQueueStatus),
      (''DELETE'', [Lit ''admin'', Lit ''runs''], \<lambda>_. RClearRuns),
      (''GET'', [Lit ''admin'', Lit ''health''], \<lambda>_. RDeepHealth)]"

text \<open>The value of the wildcard, if the segments match; a pattern of the table has at most one.\<close>

fun match_segs :: "segment list \<Rightarrow> string list \<Rightarrow> string option" where
  "match_segs [] [] = Some ''''"
| "match_segs (Lit l # ps) (s # ss) = (if s = l then match_segs ps ss else None)"
| "match_segs (Wild # ps) (s # ss) =
     (if s = '''' then None else case match_segs ps ss of None \<Rightarrow> None | Some _ \<Rightarrow> Some s)"
| "match_segs _ _ = None"

definition method_ok :: "string \<Rightarrow> string \<Rightarrow> bool" where
  "method_ok pm m \<longleftrightarrow> m = pm \<or> pm = ''GET'' \<and> m = ''HEAD''"

definition mux_matches :: "string list \<Rightarrow> (string \<times> judge_route) list" where
  "mux_matches segs =
     concat (map (\<lambda>(pm, ps, mk). case match_segs ps segs of None \<Rightarrow> [] | Some i \<Rightarrow> [(pm, mk i)]) judge_routes)"

text \<open>The route of a request, or the methods the path allows (none: the path is unknown).\<close>

definition judge_mux :: "string \<Rightarrow> string list \<Rightarrow> string list + judge_route" where
  "judge_mux m segs =
     (let ms = mux_matches segs in
      case find (\<lambda>x. method_ok (fst x) m) ms of
        Some x \<Rightarrow> Inr (snd x)
      | None \<Rightarrow> Inl (filter (\<lambda>a. \<exists>x \<in> set ms. method_ok (fst x) a) [''DELETE'', ''GET'', ''HEAD'', ''POST'']))"

fun go_Join :: "string \<Rightarrow> string list \<Rightarrow> string" where
  "go_Join sep [] = ''''"
| "go_Join sep [x] = x"
| "go_Join sep (x # xs) = x @ sep @ go_Join sep xs"

definition mux_error :: "string list \<Rightarrow> body writer \<Rightarrow> body writer" where
  "mux_error allowed w =
     (let text = (\<lambda>code t w. WriteBody (BText (t @ [char_of (10 :: nat)])) (WriteHeader code
            (Header_Set ''X-Content-Type-Options'' ''nosniff'' (Header_Set ''Content-Type'' ''text/plain; charset=utf-8'' w))))
      in if allowed = [] then text 404 ''404 page not found'' w
         else text 405 ''Method Not Allowed'' (Header_Set ''Allow'' (go_Join '', '' allowed) w))"

section \<open>The service\<close>

text \<open>What the handlers share, and what one request brings: its body and two readings of the clock.\<close>

record ('d, 's) judge_service =
  js_C :: "contestant codec"
  js_S :: "submission codec"
  js_R :: "runResult codec"
  js_decC :: "string \<Rightarrow> string + string \<times> string"
  js_decS :: "string \<Rightarrow> string + string \<times> string"
  js_srv :: "'s server"
  js_eng :: "'d docker_ops option"

record request_input =
  ri_body :: string
  ri_nano :: int
  ri_now :: int

record ('d, 's) service_state =
  ss_docker :: 'd
  ss_redis :: 's
  ss_queue :: "submission list"
  ss_pending :: int
  ss_running :: int

definition with_redis :: "('d, 's) service_state \<Rightarrow> body writer \<times> 's \<Rightarrow> (body writer \<times> ('d, 's) service_state) option" where
  "with_redis st out = Some (fst out, st\<lparr>ss_redis := snd out\<rparr>)"

definition judge_handle ::
  "('d, 's) judge_service \<Rightarrow> request_input \<Rightarrow> judge_route \<Rightarrow> body writer \<Rightarrow> ('d, 's) service_state \<Rightarrow>
     (body writer \<times> ('d, 's) service_state) option" where
  "judge_handle J ri route w st =
     (let srv = js_srv J; s = ss_redis st in
      case route of
        RHealthz \<Rightarrow> Some (WriteHeader 200 w, st)
      | RRegisterContestant \<Rightarrow> with_redis st (registerContestant (js_C J) (js_decC J) srv (ri_now ri) (ri_body ri) w s)
      | RListContestants \<Rightarrow> with_redis st (listContestants (js_C J) srv w s)
      | RGetContestant i \<Rightarrow> with_redis st (getContestant (js_C J) srv i w s)
      | RListSubmissions i \<Rightarrow> with_redis st (listSubmissions (js_S J) srv i w s)
      | RListRuns i \<Rightarrow> with_redis st (listRuns (js_R J) srv i w s)
      | RCreateSubmission \<Rightarrow>
          (case createSubmission (js_C J) (js_S J) (js_decS J) srv (js_eng J \<noteq> None) (ri_nano ri) (ri_now ri) (ri_body ri) w
              (s, ss_queue st, ss_pending st) of
             (w1, s1, queue, pending) \<Rightarrow> Some (w1, st\<lparr>ss_redis := s1, ss_queue := queue, ss_pending := pending\<rparr>))
      | RGetSubmission i \<Rightarrow> with_redis st (getSubmission (js_S J) srv i w s)
      | RGetRun i \<Rightarrow> with_redis st (getRun (js_R J) srv i w s)
      | RResetLeaderboard \<Rightarrow> Option.bind (resetLeaderboard srv w s) (with_redis st)
      | RGetQueueStatus \<Rightarrow> Some (getQueueStatus (ss_pending st) (ss_running st) w, st)
      | RClearRuns \<Rightarrow> Option.bind (clearRuns srv w s) (with_redis st)
      | RDeepHealth \<Rightarrow>
          (case deepHealth (js_eng J) srv w (ss_docker st, s) of
             (w1, d1, s1) \<Rightarrow> Some (w1, st\<lparr>ss_docker := d1, ss_redis := s1\<rparr>)))"

text \<open>The state becomes \<open>None\<close> when a handler does not return.\<close>

definition judge_ServeMux ::
  "('d, 's) judge_service \<Rightarrow> request_input \<Rightarrow> string list \<Rightarrow> request \<Rightarrow> body writer \<Rightarrow> ('d, 's) service_state option \<Rightarrow>
     (body, ('d, 's) service_state option) outcome" where
  "judge_ServeMux J ri segs r w st =
     (case judge_mux (rq_Method r) segs of
        Inl allowed \<Rightarrow> Done (mux_error allowed w) st
      | Inr route \<Rightarrow>
          (case Option.bind st (judge_handle J ri route w) of
             None \<Rightarrow> Done w None
           | Some (w1, st1) \<Rightarrow> Done w1 (Some st1)))"

definition judge_serve ::
  "('d, 's) judge_service \<Rightarrow> string set option \<Rightarrow> request_input \<Rightarrow> string list \<Rightarrow> request \<Rightarrow> ('d, 's) service_state \<Rightarrow>
     body writer \<times> ('d, 's) service_state option" where
  "judge_serve J originSet ri segs r st =
     panicRecovery (corsMiddleware originSet (judge_ServeMux J ri segs)) r fresh_writer (Some st)"

text \<open>
  The start: the engine's configuration is that of the flags, whose defaults come from the
  environment; without a reachable Docker daemon the service starts with no engine.
\<close>

record judge_flags =
  jf_redis :: string
  jf_kafka :: string
  jf_kafkaTopic :: string
  jf_bots :: int
  jf_ops :: int
  jf_duration :: int
  jf_sandboxMem :: string
  jf_sandboxCPUs :: int
  jf_sandboxPIDs :: int

definition judge_flag_defaults :: "(string \<Rightarrow> string) \<Rightarrow> judge_flags" where
  "judge_flag_defaults getenv =
     \<lparr>jf_redis = envOr getenv ''REDIS_ADDR'' ''localhost:6379'', jf_kafka = envOr getenv ''KAFKA_BROKERS'' '''',
      jf_kafkaTopic = envOr getenv ''KAFKA_TOPIC'' ''metrics'', jf_bots = 50, jf_ops = 200, jf_duration = 60,
      jf_sandboxMem = ''512m'', jf_sandboxCPUs = 1, jf_sandboxPIDs = 50\<rparr>"

definition main_judgeConfig :: "judge_flags \<Rightarrow> judgeConfig" where
  "main_judgeConfig f =
     \<lparr>jc_SandboxMemory = jf_sandboxMem f, jc_SandboxCPUs = jf_sandboxCPUs f, jc_SandboxCPUSet = '''',
      jc_SandboxPIDs = jf_sandboxPIDs f, jc_SandboxPort = 50052, jc_BotCount = jf_bots f, jc_OrdersPerSec = jf_ops f,
      jc_Duration = int64_wrap (jf_duration f * 1000000000), jc_Symbol = ''AAPL'',
      jc_KafkaBrokers = BrokersFromCSV (jf_kafka f), jc_KafkaTopic = jf_kafkaTopic f, jc_RedisAddr = jf_redis f\<rparr>"

definition main_engine :: "'d docker_ops \<Rightarrow> 'd \<Rightarrow> 'd docker_ops option \<times> 'd" where
  "main_engine D d = (case judge_New D d of (Some e, d1) \<Rightarrow> (None, d1) | (None, d1) \<Rightarrow> (Some D, d1))"

text \<open>The two places that hold the default configuration agree.\<close>

lemma main_defaults: "main_judgeConfig (judge_flag_defaults (\<lambda>_. '''')) = DefaultConfig"
proof -
  have "BrokersFromCSV '''' = []" by code_simp
  then show ?thesis
    by (simp add: main_judgeConfig_def judge_flag_defaults_def DefaultConfig_def envOr_def int64_wrap_def)
qed

section \<open>Lemmas\<close>

text \<open>No two patterns of the table match one request, so the order of the table does not matter.\<close>

lemma mux_matches_cases:
  "mux_matches [] = []"
  "mux_matches [a] =
     (if a = ''healthz'' then [(''GET'', RHealthz)]
      else if a = ''contestants'' then [(''POST'', RRegisterContestant), (''GET'', RListContestants)]
      else if a = ''submissions'' then [(''POST'', RCreateSubmission)]
      else if a = ''leaderboard'' then [(''DELETE'', RResetLeaderboard)] else [])"
  "mux_matches [a, b] =
     (if a = ''admin'' then (if b = ''queue'' then [(''GET'', RGetQueueStatus)]
        else if b = ''runs'' then [(''DELETE'', RClearRuns)]
        else if b = ''health'' then [(''GET'', RDeepHealth)] else [])
      else if b = '''' then []
      else if a = ''contestants'' then [(''GET'', RGetContestant b)]
      else if a = ''submissions'' then [(''GET'', RGetSubmission b)]
      else if a = ''runs'' then [(''GET'', RGetRun b)] else [])"
  "mux_matches [a, b, c] =
     (if a = ''contestants'' \<and> b \<noteq> ''''
      then (if c = ''submissions'' then [(''GET'', RListSubmissions b)]
            else if c = ''runs'' then [(''GET'', RListRuns b)] else [])
      else [])"
  "mux_matches (a # b # c # d # es) = []"
  by (simp_all add: mux_matches_def judge_routes_def)

lemma segs_cases [case_names 0 1 2 3 more]:
  obtains "segs = []" | a where "segs = [a]" | a b where "segs = [a, b]" | a b c where "segs = [a, b, c]"
    | a b c d es where "segs = a # b # c # d # es"
  by (metis list.exhaust)

lemma mux_unambiguous: "length (filter (\<lambda>x. method_ok (fst x) m) (mux_matches segs)) \<le> 1"
  by (cases segs rule: segs_cases) (simp_all add: mux_matches_cases method_ok_def)

text \<open>The routes behind \<open>GET\<close>.\<close>

fun reads :: "judge_route \<Rightarrow> bool" where
  "reads RRegisterContestant = False"
| "reads RCreateSubmission = False"
| "reads RResetLeaderboard = False"
| "reads RClearRuns = False"
| "reads _ = True"

lemma mux_methods:
  "(pm, route) \<in> set (mux_matches segs) \<Longrightarrow>
     (pm = ''GET'' \<and> reads route) \<or> (pm = ''POST'' \<and> route \<in> {RRegisterContestant, RCreateSubmission}) \<or>
     (pm = ''DELETE'' \<and> route \<in> {RResetLeaderboard, RClearRuns})"
  by (cases segs rule: segs_cases) (simp_all add: mux_matches_cases split: if_splits, auto)

lemma judge_mux_found:
  assumes "judge_mux m segs = Inr route"
  shows "\<exists>pm. (pm, route) \<in> set (mux_matches segs) \<and> method_ok pm m"
proof -
  obtain x where x: "find (\<lambda>x. method_ok (fst x) m) (mux_matches segs) = Some x" "snd x = route"
    using assms by (auto simp: judge_mux_def Let_def split: option.splits)
  then have "x \<in> set (mux_matches segs)" "method_ok (fst x) m" by (metis find_Some_iff nth_mem)+
  then show ?thesis using x(2) by (metis prod.collapse)
qed

lemma mux_reads: "judge_mux m segs = Inr route \<Longrightarrow> m = ''GET'' \<or> m = ''HEAD'' \<Longrightarrow> reads route"
  using judge_mux_found [of m segs route] mux_methods [of _ route segs] by (fastforce simp: method_ok_def)

text \<open>Commands that only read leave the store as it is, whether they succeed or fail.\<close>

fun read_cmd :: "cmd \<Rightarrow> bool" where
  "read_cmd CPing = True"
| "read_cmd (CExists k) = True"
| "read_cmd (CGet k) = True"
| "read_cmd (CMGet ks) = True"
| "read_cmd (CSMembers k) = True"
| "read_cmd (CLRange k a b) = True"
| "read_cmd (CZRevRange k a b) = True"
| "read_cmd _ = False"

fun_cases read_cmdE: "read_cmd c"

lemma read_cmd_reads:
  assumes "redis_law srv view" "read_cmd c"
  shows "view (snd (srv c s)) = view s"
proof -
  obtain r s' where c: "srv c s = (r, s')" by fastforce
  have n: "\<not> is_scan c" "redis_exec c t = Some (x, t') \<Longrightarrow> t' = t" for t x t'
    using assms(2) by (auto elim!: read_cmdE)
  have "view s' = view s"
  proof (cases r)
    case (Inl e)
    then show ?thesis using redis_client.failed [OF redis_client.intro [OF assms(1)], of c s e s'] c n(2) by blast
  next
    case (Inr x)
    then show ?thesis using redis_client.answered [OF redis_client.intro [OF assms(1)], of c s x s'] c n by blast
  qed
  then show ?thesis by (simp add: c)
qed

lemma get_json_reads [simp]: "redis_law srv view \<Longrightarrow> view (snd (get_json C srv prefix kind i s)) = view s"
  using read_cmd_reads [of srv view "CGet (prefix @ i)" s] by (cases "srv (CGet (prefix @ i)) s") (simp add: get_json_def)

lemma list_json_reads [simp]:
  assumes "redis_law srv view" "read_cmd c"
  shows "view (snd (list_json C srv c prefix s)) = view s"
proof -
  obtain r s1 where c: "srv c s = (r, s1)" by fastforce
  have "view s1 = view s" using read_cmd_reads [OF assms, of s] by (simp add: c)
  moreover have "view (snd (srv (CMGet ks) s1)) = view s1" for ks using read_cmd_reads [OF assms(1)] by simp
  ultimately show ?thesis by (simp add: list_json_def c Let_def split: sum.split prod.split) (metis snd_conv)
qed

lemma respond_state [simp]:
  "snd (respond_found mk out w) = snd out" "snd (respond_list mk out' w) = snd out'"
  by (auto simp: respond_found_def respond_list_def split: prod.split sum.split regError.split)

lemma judge_handle_reads:
  assumes "redis_law (js_srv J) view" "reads route"
  shows "\<exists>w' st'. judge_handle J ri route w st = Some (w', st') \<and> view (ss_redis st') = view (ss_redis st) \<and>
    ss_queue st' = ss_queue st \<and> ss_pending st' = ss_pending st \<and> ss_running st' = ss_running st"
proof (cases route)
  case RDeepHealth
  have "view (snd (js_srv J CPing (ss_redis st))) = view (ss_redis st)" using read_cmd_reads [OF assms(1)] by simp
  then show ?thesis using RDeepHealth
    by (cases "js_srv J CPing (ss_redis st)") (simp add: judge_handle_def deepHealth_def Let_def split: prod.split)
qed (use assms in \<open>auto simp: judge_handle_def with_redis_def listContestants_def getContestant_def listSubmissions_def
  listRuns_def getSubmission_def getRun_def ListContestants_def GetContestant_def ListSubmissions_def
  ListRunsForContestant_def GetSubmission_def GetRunResult_def Let_def\<close>)

text \<open>
  A handler answers: it sends a status, and of the headers set before only those of the content
  change.
\<close>

definition answers :: "'b writer \<Rightarrow> 'b writer \<Rightarrow> bool" where
  "answers w w' \<longleftrightarrow> (\<exists>code h. wr_sent w' = Some (code, h) \<and>
     (\<forall>k. k \<notin> {''Content-Type'', ''X-Content-Type-Options'', ''Allow''} \<longrightarrow> h k = wr_header w k))"

lemma answers_jsonResp [simp]: "wr_sent w = None \<Longrightarrow> answers w (jsonResp code v w)"
  by (simp add: answers_def writer_defs Let_def)

lemma answers_httpErr [simp]: "wr_sent w = None \<Longrightarrow> answers w (httpErr code msg w)"
  by (simp add: answers_def writer_defs Let_def)

lemma answers_WriteHeader [simp]: "wr_sent w = None \<Longrightarrow> answers w (WriteHeader code w)"
  by (simp add: answers_def writer_defs Let_def)

lemma answers_mux_error [simp]: "wr_sent w = None \<Longrightarrow> answers w (mux_error allowed w)"
  by (simp add: answers_def mux_error_def writer_defs Let_def)

lemma answers_respond [simp]:
  assumes "wr_sent w = None"
  shows "answers w (fst (respond_found mk out w))" "answers w (fst (respond_list mk out' w))"
  using assms by (auto simp: respond_found_def respond_list_def split: prod.split sum.split regError.split)

lemma answers_register [simp]: "wr_sent w = None \<Longrightarrow> answers w (fst (registerContestant C dec srv now b w s))"
  by (auto simp: registerContestant_def Let_def split: prod.split sum.split option.split regError.split)

lemma answers_create [simp]: "wr_sent w = None \<Longrightarrow> answers w (fst (createSubmission C S dec srv e nano now b w st))"
  by (auto simp: createSubmission_def Let_def split: prod.split sum.split option.split regError.split)

lemma answers_deletions:
  "wr_sent w = None \<Longrightarrow> resetLeaderboard srv w s = Some out \<Longrightarrow> answers w (fst out)"
  "wr_sent w = None \<Longrightarrow> clearRuns srv w s = Some out \<Longrightarrow> answers w (fst out)"
  by (auto simp: resetLeaderboard_def clearRuns_def split: prod.splits sum.splits option.splits)

lemma answers_health [simp]: "wr_sent w = None \<Longrightarrow> answers w (fst (deepHealth eng srv w ds))"
  by (auto simp: deepHealth_def Let_def split: prod.split)

lemmas reading_handlers = listContestants_def getContestant_def listSubmissions_def listRuns_def getSubmission_def
  getRun_def getQueueStatus_def

lemma judge_handle_answers:
  assumes w: "wr_sent w = None" and h: "judge_handle J ri route w st = Some (w', st')"
  shows "answers w w'"
proof (cases route)
  case RCreateSubmission
  let ?out = "createSubmission (js_C J) (js_S J) (js_decS J) (js_srv J) (js_eng J \<noteq> None) (ri_nano ri) (ri_now ri) (ri_body ri) w
    (ss_redis st, ss_queue st, ss_pending st)"
  have "w' = fst ?out" using h RCreateSubmission by (cases ?out) (simp add: judge_handle_def)
  then show ?thesis using answers_create [OF w] by simp
next
  case RDeepHealth
  let ?out = "deepHealth (js_eng J) (js_srv J) w (ss_docker st, ss_redis st)"
  have "w' = fst ?out" using h RDeepHealth by (cases ?out) (simp add: judge_handle_def)
  then show ?thesis using answers_health [OF w] by simp
next
  case RResetLeaderboard
  then show ?thesis using h answers_deletions(1) [OF w] by (auto simp: judge_handle_def with_redis_def bind_eq_Some_conv)
next
  case RClearRuns
  then show ?thesis using h answers_deletions(2) [OF w] by (auto simp: judge_handle_def with_redis_def bind_eq_Some_conv)
qed (use w h in \<open>auto simp: judge_handle_def with_redis_def reading_handlers Let_def\<close>)

lemma judge_handle_returns:
  "route \<notin> {RResetLeaderboard, RClearRuns} \<Longrightarrow> judge_handle J ri route w st \<noteq> None"
  by (cases route) (auto simp: judge_handle_def with_redis_def Let_def split: prod.splits)

lemma mux_deletes: "judge_mux m segs = Inr route \<Longrightarrow> m \<noteq> ''DELETE'' \<Longrightarrow> route \<notin> {RResetLeaderboard, RClearRuns}"
  using judge_mux_found [of m segs route] mux_methods [of _ route segs] by (fastforce simp: method_ok_def)

text \<open>The middleware's headers, as a function of the origin.\<close>

definition cors_writer :: "string set option \<Rightarrow> request \<Rightarrow> body writer" where
  "cors_writer originSet r = fresh_writer\<lparr>wr_header :=
     (case originSet of
        None \<Rightarrow> [''Access-Control-Allow-Origin'' \<mapsto> ''*'']
      | Some os \<Rightarrow> if rq_Origin r \<in> os then [''Access-Control-Allow-Origin'' \<mapsto> rq_Origin r, ''Vary'' \<mapsto> ''Origin''] else Map.empty)
     (''Access-Control-Allow-Methods'' \<mapsto> ''GET, POST, DELETE, OPTIONS'', ''Access-Control-Allow-Headers'' \<mapsto> ''Content-Type'')\<rparr>"

lemma judge_serve_steps:
  "judge_serve J originSet ri segs r st =
     (let w = cors_writer originSet r in
      if rq_Method r = ''OPTIONS'' then (WriteHeader 204 w, Some st)
      else case judge_mux (rq_Method r) segs of
        Inl allowed \<Rightarrow> (mux_error allowed w, Some st)
      | Inr route \<Rightarrow> (case judge_handle J ri route w st of None \<Rightarrow> (w, None) | Some (w1, st1) \<Rightarrow> (w1, Some st1)))"
proof -
  have c: "corsMiddleware originSet next r fresh_writer s =
      (if rq_Method r = ''OPTIONS'' then Done (WriteHeader 204 (cors_writer originSet r)) s else next r (cors_writer originSet r) s)"
    for "next" :: "request \<Rightarrow> body writer \<Rightarrow> 'x \<Rightarrow> (body, 'x) outcome" and s
    by (simp add: corsMiddleware_def cors_writer_def Header_Set_def fresh_writer_def Let_def split: option.split)
  show ?thesis unfolding judge_serve_def panicRecovery_def c
    by (auto simp: judge_ServeMux_def Let_def split: sum.split option.split prod.split)
qed

lemma cors_writer_header:
  "wr_header (cors_writer originSet r) ''Access-Control-Allow-Methods'' = Some ''GET, POST, DELETE, OPTIONS''"
  "wr_header (cors_writer originSet r) ''Access-Control-Allow-Origin'' =
     (case originSet of None \<Rightarrow> Some ''*'' | Some os \<Rightarrow> if rq_Origin r \<in> os then Some (rq_Origin r) else None)"
  by (simp_all add: cors_writer_def split: option.split)

lemma cors_writer_sent [simp]: "wr_sent (cors_writer originSet r) = None"
  by (simp add: cors_writer_def fresh_writer_def)

lemma judge_serve_answers:
  assumes "judge_serve J originSet ri segs r st = (w, st')"
  shows "(rq_Method r \<noteq> ''DELETE'' \<longrightarrow> st' \<noteq> None) \<and> (st' \<noteq> None \<longrightarrow> answers (cors_writer originSet r) w)"
proof (cases "rq_Method r = ''OPTIONS'' \<or> (\<exists>allowed. judge_mux (rq_Method r) segs = Inl allowed)")
  case True
  then show ?thesis using assms by (auto simp: judge_serve_steps Let_def split: if_splits)
next
  case False
  then obtain route where m: "judge_mux (rq_Method r) segs = Inr route" "rq_Method r \<noteq> ''OPTIONS''"
    by (cases "judge_mux (rq_Method r) segs") auto
  show ?thesis
  proof (cases "judge_handle J ri route (cors_writer originSet r) st")
    case None
    then have "rq_Method r = ''DELETE''" using mux_deletes [OF m(1)] judge_handle_returns by metis
    then show ?thesis using assms m None by (simp add: judge_serve_steps Let_def)
  next
    case (Some out)
    then show ?thesis using assms m judge_handle_answers [OF cors_writer_sent, of J ri route originSet r st]
      by (cases out) (auto simp: judge_serve_steps Let_def)
  qed
qed

section \<open>Properties\<close>

text \<open>
  C32: every request is answered, under the origin policy: unless it is a deletion whose scan the
  server never ends, a status is sent, and with it, on errors and unknown paths too, the methods
  allowed across origins and the requesting origin only if it is allowed.
\<close>

theorem service_answers_every_request:
  assumes "judge_serve J originSet ri segs r st = (w, st')"
  shows "(rq_Method r \<noteq> ''DELETE'' \<longrightarrow> st' \<noteq> None) \<and>
    (st' \<noteq> None \<longrightarrow> (\<exists>code h. wr_sent w = Some (code, h) \<and>
       h ''Access-Control-Allow-Methods'' = Some ''GET, POST, DELETE, OPTIONS'' \<and>
       h ''Access-Control-Allow-Origin'' =
         (case originSet of None \<Rightarrow> Some ''*'' | Some os \<Rightarrow> if rq_Origin r \<in> os then Some (rq_Origin r) else None)))"
proof -
  note a = judge_serve_answers [OF assms]
  have "\<exists>code h. wr_sent w = Some (code, h) \<and>
      h ''Access-Control-Allow-Methods'' = wr_header (cors_writer originSet r) ''Access-Control-Allow-Methods'' \<and>
      h ''Access-Control-Allow-Origin'' = wr_header (cors_writer originSet r) ''Access-Control-Allow-Origin''"
    if "answers (cors_writer originSet r) w"
    using that by (simp add: answers_def) (elim exE conjE, simp)
  then show ?thesis using a unfolding cors_writer_header by blast
qed

text \<open>
  C29: requests that should only read do: after a \<open>GET\<close>, \<open>HEAD\<close> or preflight request, to whatever
  path and whether Redis answers or fails, the store, the queue and the two counters are what
  they were.
\<close>

theorem safe_requests_change_nothing:
  assumes "redis_law (js_srv J) view" "rq_Method r \<in> {''GET'', ''HEAD'', ''OPTIONS''}"
  shows "\<exists>w st'. judge_serve J originSet ri segs r st = (w, Some st') \<and> view (ss_redis st') = view (ss_redis st) \<and>
    ss_queue st' = ss_queue st \<and> ss_pending st' = ss_pending st \<and> ss_running st' = ss_running st"
proof (cases "rq_Method r = ''OPTIONS'' \<or> (\<exists>allowed. judge_mux (rq_Method r) segs = Inl allowed)")
  case True
  then show ?thesis by (auto simp: judge_serve_steps Let_def)
next
  case False
  then obtain route where m: "judge_mux (rq_Method r) segs = Inr route" "rq_Method r \<noteq> ''OPTIONS''"
    by (cases "judge_mux (rq_Method r) segs") auto
  then have "reads route" using mux_reads assms(2) by blast
  from judge_handle_reads [OF assms(1) this, of ri "cors_writer originSet r" st] m show ?thesis
    by (auto simp: judge_serve_steps Let_def)
qed

text \<open>
  C28: what the service registers it serves: after a POST to the contestants that was answered with
  201, a GET of the contestant's path, through recovery, origin check and routing, is answered
  with 200 and the record registered.
\<close>

theorem registered_contestant_is_served:
  assumes "redis_up (js_srv J) view" "js_decC J (ri_body ri) = Inr (i, name)"
    and "decodes (js_C J) \<lparr>co_ID = i, co_DisplayName = name, co_RegisteredAt = ri_now ri\<rparr>"
    and "read_set (st_keys (view (ss_redis st)) ''contestants'') = Some xs"
    and "rq_Method r = ''POST''" "judge_serve J originSet ri [''contestants''] r st = (w1, Some st1)" "status_of w1 = Some 201"
    and "rq_Method r2 = ''GET''"
  shows "\<exists>w2 st2. judge_serve J originSet ri2 [''contestants'', i] r2 st1 = (w2, Some st2) \<and> status_of w2 = Some 200 \<and>
    wr_body w2 = [BContestant \<lparr>co_ID = i, co_DisplayName = name, co_RegisteredAt = ri_now ri\<rparr>]"
proof -
  let ?c = "\<lparr>co_ID = i, co_DisplayName = name, co_RegisteredAt = ri_now ri\<rparr>"
  have post: "judge_mux ''POST'' [''contestants''] = Inr RRegisterContestant"
    by (simp add: judge_mux_def mux_matches_cases method_ok_def)
  obtain s1 where reg: "registerContestant (js_C J) (js_decC J) (js_srv J) (ri_now ri) (ri_body ri) (cors_writer originSet r)
      (ss_redis st) = (w1, s1)" "st1 = st\<lparr>ss_redis := s1\<rparr>"
    using assms(5,6) post
    by (cases "registerContestant (js_C J) (js_decC J) (js_srv J) (ri_now ri) (ri_body ri) (cors_writer originSet r) (ss_redis st)")
      (auto simp: judge_serve_steps judge_handle_def with_redis_def Let_def)
  have id: "isValidID i" and key: "st_keys (view s1) (''contestant:'' @ i) = Some (VStr (marshal (js_C J) ?c))"
    using registerContestant_created [OF assms(1) reg(1) cors_writer_sent assms(7,4)] assms(2) by auto
  have "read_str (st_keys (view (ss_redis st1)) (''contestant:'' @ i)) = Some (Some (marshal (js_C J) ?c))"
    using key reg(2) by simp
  from get_json_up [OF assms(1) this, of "js_C J" "''contestant''"] obtain s2 where
    get: "GetContestant (js_C J) (js_srv J) i (ss_redis st1) = (Inr ?c, s2)"
    using assms(3) by (auto simp: GetContestant_def decodes_def)
  have "i \<noteq> ''''" using id by (auto simp: isValidID_def)
  then have "judge_mux ''GET'' [''contestants'', i] = Inr (RGetContestant i)"
    by (simp add: judge_mux_def mux_matches_cases method_ok_def)
  then have "judge_serve J originSet ri2 [''contestants'', i] r2 st1 =
      (jsonResp 200 (BContestant ?c) (cors_writer originSet r2), Some (st1\<lparr>ss_redis := s2\<rparr>))"
    using get assms(8) by (simp add: judge_serve_steps judge_handle_def with_redis_def getContestant_def respond_found_def Let_def)
  moreover have "wr_body (cors_writer originSet r2) = []" by (simp add: cors_writer_def fresh_writer_def)
  ultimately show ?thesis by simp
qed

text \<open>A service on an empty store, without an engine, for the witnesses.\<close>

definition demo_bob :: contestant where
  "demo_bob = \<lparr>co_ID = ''bob'', co_DisplayName = ''Bob'', co_RegisteredAt = 9\<rparr>"

definition demo_service :: "(unit, store) judge_service" where
  "demo_service = \<lparr>js_C = one_codec demo_bob, js_S = demo_codec, js_R = demo_codec, js_decC = (\<lambda>b. Inr (''bob'', ''Bob'')),
     js_decS = (\<lambda>b. Inl ''unused''), js_srv = ref_server [], js_eng = None\<rparr>"

definition demo_state :: "(unit, store) service_state" where
  "demo_state = \<lparr>ss_docker = (), ss_redis = empty_store, ss_queue = [], ss_pending = 0, ss_running = 0\<rparr>"

definition demo_input :: request_input where
  "demo_input = \<lparr>ri_body = '''', ri_nano = 0, ri_now = 9\<rparr>"

lemma demo_service_fields [simp]:
  "js_C demo_service = one_codec demo_bob" "js_srv demo_service = ref_server []"
  "js_decC demo_service b = Inr (''bob'', ''Bob'')" "ri_now demo_input = 9" "ss_redis demo_state = empty_store"
  by (simp_all add: demo_service_def demo_input_def demo_state_def)

lemma service_answers_every_request_witness:
  "\<exists>w st' code h. judge_serve demo_service None demo_input [''nowhere''] \<lparr>rq_Method = ''GET'', rq_Origin = ''''\<rparr> demo_state = (w, Some st') \<and>
     wr_sent w = Some (code, h) \<and> h ''Access-Control-Allow-Origin'' = Some ''*''"
proof -
  let ?r = "\<lparr>rq_Method = ''GET'', rq_Origin = ''''\<rparr>"
  obtain w st' where j: "judge_serve demo_service None demo_input [''nowhere''] ?r demo_state = (w, st')" by fastforce
  from service_answers_every_request [OF this] obtain st1 code h where
    "st' = Some st1" "wr_sent w = Some (code, h)" "h ''Access-Control-Allow-Origin'' = Some ''*''" by auto
  then show ?thesis using j by auto
qed

lemma safe_requests_change_nothing_witness:
  "\<exists>w st'. judge_serve demo_service None demo_input [''contestants''] \<lparr>rq_Method = ''GET'', rq_Origin = ''''\<rparr> demo_state = (w, Some st') \<and>
     ss_redis st' = empty_store"
proof -
  have "redis_law (js_srv demo_service) id" "rq_Method \<lparr>rq_Method = ''GET'', rq_Origin = ''''\<rparr> \<in> {''GET'', ''HEAD'', ''OPTIONS''}"
    by (simp_all add: ref_server_law)
  from safe_requests_change_nothing [OF this, of None demo_input "[''contestants'']" demo_state] show ?thesis by auto
qed

lemma registered_contestant_is_served_witness:
  "\<exists>w1 st1 w2 st2. judge_serve demo_service None demo_input [''contestants''] \<lparr>rq_Method = ''POST'', rq_Origin = ''''\<rparr> demo_state = (w1, Some st1) \<and>
     judge_serve demo_service None demo_input [''contestants'', ''bob''] \<lparr>rq_Method = ''GET'', rq_Origin = ''''\<rparr> st1 = (w2, Some st2) \<and>
     wr_body w2 = [BContestant demo_bob]"
proof -
  let ?p = "\<lparr>rq_Method = ''POST'', rq_Origin = ''''\<rparr>" and ?g = "\<lparr>rq_Method = ''GET'', rq_Origin = ''''\<rparr>"
  have m: "judge_mux ''POST'' [''contestants''] = Inr RRegisterContestant"
    by (simp add: judge_mux_def mux_matches_cases method_ok_def)
  have "isValidID ''bob''" by code_simp
  then have "\<exists>s1. registerContestant (one_codec demo_bob) (js_decC demo_service) (ref_server []) 9 (ri_body demo_input) (cors_writer None ?p) empty_store
      = (jsonResp 201 (BContestant demo_bob) (cors_writer None ?p), s1)"
    by (simp add: registerContestant_def RegisterContestant_def register_check_def register_write_def ref_server_def
      empty_store_def demo_bob_def Let_def)
  then obtain w1 st1 where j: "judge_serve demo_service None demo_input [''contestants''] ?p demo_state = (w1, Some st1)" "status_of w1 = Some 201"
    using m by (auto simp: judge_serve_steps judge_handle_def with_redis_def Let_def)
  have h: "redis_up (js_srv demo_service) id" "js_decC demo_service (ri_body demo_input) = Inr (''bob'', ''Bob'')"
    "decodes (js_C demo_service) \<lparr>co_ID = ''bob'', co_DisplayName = ''Bob'', co_RegisteredAt = ri_now demo_input\<rparr>"
    "read_set (st_keys (id (ss_redis demo_state)) ''contestants'') = Some []" "rq_Method ?p = ''POST''" "rq_Method ?g = ''GET''"
    using ref_server_up one_codec_decodes [of demo_bob] by (simp_all add: demo_bob_def empty_store_def)
  from registered_contestant_is_served [OF h(1-5) j h(6), of demo_input] j show ?thesis by (auto simp: demo_bob_def)
qed

end
