(* ===== verification/LeaderboardService.thy ===== *)
theory LeaderboardService
  imports LeaderboardApi JudgeService
begin

text \<open>
  cmd/leaderboard_api/main.go: the table of routes, the service as a whole and how it starts, and
  the judge service behind its reverse proxy. \<open>http.ServeMux\<close> is the standard library's: a pattern
  that ends in a slash takes every path below it, the path without the slash is redirected to it,
  and one that fits no pattern is answered with 404. Paths come cleaned; the query of a redirect is
  ASCII. The two services share their Redis, as deployed, so there is one state, which requests to
  either of them change.
\<close>

section \<open>Routes\<close>

datatype lb_route = LHealthz | LLeaderboard | LStream | LContestants | LRuns | LProxy | LRedirect string | LNotFound

text \<open>
  The patterns registered, each as what it makes of a path; the last is there only when the address
  of the judge service is configured. No path fits two of them.
\<close>

definition exact_pattern :: "string \<Rightarrow> lb_route \<Rightarrow> string \<Rightarrow> lb_route option" where
  "exact_pattern pat k path = (if path = pat then Some k else None)"

definition subtree_pattern :: "string \<Rightarrow> lb_route \<Rightarrow> string \<Rightarrow> lb_route option" where
  "subtree_pattern base k path =
     (if has_prefix base path then Some k else if path @ ''/'' = base then Some (LRedirect base) else None)"

definition pat_healthz :: "string \<Rightarrow> lb_route option" where
  "pat_healthz = exact_pattern ''/healthz'' LHealthz"

definition pat_leaderboard :: "string \<Rightarrow> lb_route option" where
  "pat_leaderboard = exact_pattern ''/leaderboard'' LLeaderboard"

definition pat_stream :: "string \<Rightarrow> lb_route option" where
  "pat_stream = exact_pattern ''/stream'' LStream"

definition pat_contestants :: "string \<Rightarrow> lb_route option" where
  "pat_contestants = subtree_pattern ''/contestants/'' LContestants"

definition pat_runs :: "string \<Rightarrow> lb_route option" where
  "pat_runs = subtree_pattern ''/runs/'' LRuns"

definition pat_proxy :: "bool \<Rightarrow> string \<Rightarrow> lb_route option" where
  "pat_proxy proxied path = (if proxied then subtree_pattern ''/proxy/judge/'' LProxy path else None)"

fun first_match :: "lb_route option list \<Rightarrow> lb_route" where
  "first_match [] = LNotFound"
| "first_match (Some k # ks) = k"
| "first_match (None # ks) = first_match ks"

definition lb_mux :: "bool \<Rightarrow> string \<Rightarrow> lb_route" where
  "lb_mux proxied path =
     first_match [pat_healthz path, pat_leaderboard path, pat_stream path, pat_contestants path, pat_runs path,
       pat_proxy proxied path]"

lemmas pattern_defs = exact_pattern_def subtree_pattern_def pat_healthz_def pat_leaderboard_def pat_stream_def
  pat_contestants_def pat_runs_def pat_proxy_def

definition html_char :: "char \<Rightarrow> string" where
  "html_char c = (if c = CHR ''&'' then ''&amp;'' else if c = CHR ''<'' then ''&lt;'' else if c = CHR ''>'' then ''&gt;''
     else if c = CHR 0x22 then ''&#34;'' else if c = CHR 0x27 then ''&#39;'' else [c])"

text \<open>\<open>http.Redirect\<close> with status 301.\<close>

definition lb_redirect :: "string \<Rightarrow> string \<Rightarrow> request \<Rightarrow> 'v lbBody writer \<Rightarrow> 'v lbBody writer" where
  "lb_redirect path query r w =
     (let url = path @ (if query = '''' then '''' else CHR ''?'' # query);
          w1 = Header_Set ''Location'' url w;
          w2 = (if rq_Method r = ''GET'' \<or> rq_Method r = ''HEAD''
                then Header_Set ''Content-Type'' ''text/html; charset=utf-8'' w1 else w1);
          w3 = WriteHeader 301 w2
      in if rq_Method r = ''GET''
         then WriteBody (LText (''<a href='' @ CHR 0x22 # concat (map html_char url) @ CHR 0x22 # ''>Moved Permanently</a>.'' @ [newline, newline])) w3
         else w3)"

section \<open>The service\<close>

text \<open>
  What the handlers share: the parser and encoder of JSON, the server, the allowed origins, the two
  queries of the database if one is configured, and, if one is configured, the path of the judge
  service's URL and that service. \<open>'w\<close> is the one state behind Redis and the judge service.
\<close>

record ('v, 'w) lb_service =
  lv_parse :: "string \<Rightarrow> string + (string \<Rightarrow> 'v option) option"
  lv_jstr :: "string \<Rightarrow> 'v"
  lv_srv :: "'w server"
  lv_originSet :: "string set option"
  lv_ts :: "((string \<Rightarrow> int \<Rightarrow> string + (string + contestantStats) list \<times> string option) \<times> (string \<Rightarrow> string + contestantStats)) option"
  lv_judge :: "(string \<times> ('v, 'w) lb_backend) option"

definition lb_healthz :: "'b writer \<Rightarrow> 'b writer" where
  "lb_healthz w = WriteHeader 200 w"

text \<open>
  One request: its path and query, whether its writer can flush, and what its event stream gets to
  see until a context ends.
\<close>

record lb_input =
  li_Path :: string
  li_RawQuery :: string
  li_limit :: string
  li_hours :: string
  li_canFlush :: bool
  li_events :: "stream_event list"

text \<open>The state after a request is \<open>None\<close> when the judge service never answers a proxied one.\<close>

definition lb_ServeMux ::
  "('v, 'w) lb_service \<Rightarrow> lb_input \<Rightarrow> request \<Rightarrow> 'v lbBody writer \<Rightarrow> 'w \<Rightarrow> ('v lbBody, 'w option) outcome" where
  "lb_ServeMux V li r w st =
     (case lb_mux (lv_judge V \<noteq> None) (li_Path li) of
        LHealthz \<Rightarrow> Done (lb_healthz w) (Some st)
      | LLeaderboard \<Rightarrow>
          (case lb_leaderboard (lv_parse V) (lv_jstr V) (lv_srv V) (lv_originSet V) (li_limit li) r w st of
             Done w1 s1 \<Rightarrow> Done w1 (Some s1) | Panic w1 s1 \<Rightarrow> Panic w1 (Some s1))
      | LStream \<Rightarrow> Done (lb_stream (li_canFlush li) (li_events li) (lv_originSet V) r w) (Some st)
      | LContestants \<Rightarrow> Done (lb_history (map_option fst (lv_ts V)) (lv_originSet V) (li_Path li) (li_hours li) r w) (Some st)
      | LRuns \<Rightarrow> Done (lb_runs (map_option snd (lv_ts V)) (lv_originSet V) (li_Path li) r w) (Some st)
      | LProxy \<Rightarrow>
          (case lv_judge V of
             None \<Rightarrow> Done (http_NotFound w) (Some st)
           | Some (target, backend) \<Rightarrow>
               (case lb_proxy target backend (lv_originSet V) (li_Path li) r w st of (w1, st1) \<Rightarrow> Done w1 st1))
      | LRedirect path \<Rightarrow> Done (lb_redirect path (li_RawQuery li) r w) (Some st)
      | LNotFound \<Rightarrow> Done (http_NotFound w) (Some st))"

definition lb_serve ::
  "('v, 'w) lb_service \<Rightarrow> lb_input \<Rightarrow> request \<Rightarrow> 'w \<Rightarrow> 'v lbBody writer \<times> 'w option" where
  "lb_serve V li r st = lb_panicRecovery (lb_ServeMux V li) r fresh_writer st"

text \<open>
  The start. A database address that is missing, does not parse or does not connect leaves the
  service without one; an address of the judge service that does not parse ends it.
\<close>

record lb_flags =
  lf_addr :: string
  lf_redis :: string
  lf_pg :: string
  lf_judge :: string
  lf_origins :: string

definition lb_flag_defaults :: "(string \<Rightarrow> string) \<Rightarrow> lb_flags" where
  "lb_flag_defaults getenv =
     \<lparr>lf_addr = '':8080'', lf_redis = lb_envOr getenv ''REDIS_ADDR'' ''localhost:6379'', lf_pg = lb_envOr getenv ''PG_URL'' '''',
      lf_judge = lb_envOr getenv ''JUDGE_INTERNAL_URL'' '''', lf_origins = lb_envOr getenv ''ALLOWED_ORIGINS'' ''''\<rparr>"

definition main_timescale :: "(string \<Rightarrow> string + 'c) \<Rightarrow> ('c \<Rightarrow> string + 't) \<Rightarrow> string \<Rightarrow> 't option" where
  "main_timescale parse connect pgURL =
     (if pgURL \<noteq> ''''
      then (case parse pgURL of
              Inl e \<Rightarrow> None
            | Inr cfg \<Rightarrow> (case connect cfg of Inl e \<Rightarrow> None | Inr ts \<Rightarrow> Some ts))
      else None)"

text \<open>\<open>Inl\<close> is the exit code of \<open>log.Fatalf\<close>.\<close>

definition main_lb_service ::
  "(string \<Rightarrow> string + (string \<Rightarrow> 'v option) option) \<Rightarrow> (string \<Rightarrow> 'v) \<Rightarrow> (string \<Rightarrow> 'w server) \<Rightarrow>
     (string \<Rightarrow> string + 'c) \<Rightarrow>
     ('c \<Rightarrow> string + (string \<Rightarrow> int \<Rightarrow> string + (string + contestantStats) list \<times> string option) \<times> (string \<Rightarrow> string + contestantStats)) \<Rightarrow>
     (string \<Rightarrow> string + string \<times> ('v, 'w) lb_backend) \<Rightarrow> lb_flags \<Rightarrow> int + ('v, 'w) lb_service" where
  "main_lb_service json_parse jstr client parse connect url_Parse f =
     (let V = \<lparr>lv_parse = json_parse, lv_jstr = jstr, lv_srv = client (lf_redis f), lv_originSet = lb_buildOriginSet (lf_origins f),
               lv_ts = main_timescale parse connect (lf_pg f), lv_judge = None\<rparr>
      in if lf_judge f \<noteq> ''''
         then (case url_Parse (lf_judge f) of Inl e \<Rightarrow> Inl 1 | Inr backend \<Rightarrow> Inr (V\<lparr>lv_judge := Some backend\<rparr>))
         else Inr V)"

section \<open>Every handler answers and only reads\<close>

text \<open>
  A handler answers under the origin policy \<open>w\<close>: a status is sent, and the headers across origins that
  are sent with it are those of \<open>w\<close>.
\<close>

definition cors_keys :: "string set" where
  "cors_keys = {''Access-Control-Allow-Origin'', ''Access-Control-Allow-Methods'', ''Access-Control-Allow-Headers''}"

definition lb_answers :: "'b writer \<Rightarrow> 'b writer \<Rightarrow> bool" where
  "lb_answers w w' \<longleftrightarrow> (\<exists>code h. wr_sent w' = Some (code, h) \<and> (\<forall>k \<in> cors_keys. h k = wr_header w k))"

lemma setCORS_sent [simp]: "wr_sent (setCORS r os w) = wr_sent w"
  by (simp add: setCORS_def Header_Set_def Let_def split: option.split)

lemma lb_answers_writes [simp]:
  assumes "wr_sent w = None"
  shows "lb_answers w (WriteHeader code w)" "lb_answers w (lb_jsonErr code msg w)" "lb_answers w (lb_json b w)"
    "lb_answers w (http_Error code msg w)" "lb_answers w (http_NotFound w)"
  using assms by (simp_all add: lb_answers_def cors_keys_def lb_jsonErr_def lb_json_def http_NotFound_def http_Error_def writer_defs Let_def)

lemma wr_sent_kept: "wr_sent w = Some x \<Longrightarrow> wr_sent (WriteBody b w) = Some x \<and> wr_header (WriteBody b w) = wr_header w"
  by (simp add: writer_defs Let_def)

lemma body_sends [simp]: "\<exists>code h. wr_sent (WriteBody b w) = Some (code, h)"
  by (auto simp: writer_defs Let_def)

lemma frames_sent: "wr_sent w = Some x \<Longrightarrow> wr_sent (fold (\<lambda>f. WriteBody (LText f)) fs w) = Some x"
  by (induction fs arbitrary: w) (simp_all add: wr_sent_kept)

lemma stream_sent: "wr_sent w = Some x \<Longrightarrow> wr_sent (stream_loop es w) = Some x"
  by (induction es w rule: stream_loop.induct) (simp_all add: frames_sent del: fold.simps)

lemma lb_stream_answers: "wr_sent w = None \<Longrightarrow> lb_answers (setCORS r os w) (lb_stream canFlush es os r w)"
proof -
  assume w: "wr_sent w = None"
  let ?w = "WriteBody (LText ('': connected'' @ [newline, newline])) (Header_Set ''Connection'' ''keep-alive''
    (Header_Set ''Cache-Control'' ''no-cache'' (Header_Set ''Content-Type'' ''text/event-stream'' (setCORS r os w))))"
  have "lb_answers (setCORS r os w) ?w" using w by (simp add: lb_answers_def cors_keys_def writer_defs Let_def)
  then have "lb_answers (setCORS r os w) (stream_loop es ?w)" by (auto simp: lb_answers_def dest: stream_sent)
  then show ?thesis using w by (simp add: lb_stream_def Let_def)
qed

lemma lb_history_answers: "wr_sent w = None \<Longrightarrow> lb_answers (setCORS r os w) (lb_history ts os path h r w)"
  by (simp add: lb_history_def Let_def split: option.split prod.split)

lemma lb_runs_answers: "wr_sent w = None \<Longrightarrow> lb_answers (setCORS r os w) (lb_runs ts os path r w)"
  by (simp add: lb_runs_def Let_def split: option.split prod.split sum.split)

lemma lb_proxy_answers:
  assumes "wr_sent w = None" "has_prefix ''/proxy/judge'' path"
  shows "snd (lb_proxy target backend os path r w st) = None \<or>
    lb_answers (setCORS r os w) (fst (lb_proxy target backend os path r w st))"
proof -
  have "lb_answers (setCORS r os w) (WriteBody b (WriteHeader code ((setCORS r os w)\<lparr>wr_header :=
      add_headers (wr_header (setCORS r os w)) (proxy_ModifyResponse h)\<rparr>)))" for b code h
    using assms(1) by (auto simp: lb_answers_def cors_keys_def writer_defs proxy_ModifyResponse_def add_headers_def Let_def
      split: option.split)
  then show ?thesis using assms by (simp add: lb_proxy_def Let_def split: option.split sum.split prod.split)
qed

text \<open>The leaderboard handler answers, or panics before it has written anything.\<close>

lemma lb_leaderboard_answers:
  assumes "wr_sent w = None"
  shows "(case lb_leaderboard parse jstr srv os q r w s of Done w' s' \<Rightarrow> lb_answers (setCORS r os w) w' | Panic w' s' \<Rightarrow> w' = setCORS r os w)"
  using assms by (simp add: lb_leaderboard_def Let_def split: prod.split sum.split option.split)

lemma lb_leaderboard_reads:
  assumes "redis_law srv view"
  shows "(case lb_leaderboard parse jstr srv os q r w s of Done w' s' \<Rightarrow> view s' = view s | Panic w' s' \<Rightarrow> view s' = view s)"
proof -
  obtain rep s1 where a: "srv (CZRevRange ''leaderboard'' 0 (leaderboard_limit q - 1)) s = (rep, s1)" by fastforce
  have b: "view s1 = view s" using read_cmd_reads [OF assms, of "CZRevRange ''leaderboard'' 0 (leaderboard_limit q - 1)" s] a by simp
  have c: "view s2 = view s" if "srv (CMGet ks) s1 = (x, s2)" for ks x s2
    using read_cmd_reads [OF assms, of "CMGet ks" s1] b that by simp
  show ?thesis
    by (auto simp: lb_leaderboard_def a b Let_def dest: c split: prod.split sum.split option.split)
qed

definition from_origin :: "string set option \<Rightarrow> request \<Rightarrow> string option" where
  "from_origin os r = (case os of None \<Rightarrow> Some ''*'' | Some xs \<Rightarrow> if rq_Origin r \<in> xs then Some (rq_Origin r) else None)"

lemma setCORS_fresh [simp]:
  "wr_header (setCORS r os fresh_writer) ''Access-Control-Allow-Origin'' = from_origin os r"
  "wr_header (setCORS r os fresh_writer) ''Access-Control-Allow-Methods'' = Some ''GET, OPTIONS''"
  by (simp_all add: setCORS_def from_origin_def Header_Set_def fresh_writer_def Let_def split: option.split)

lemma has_prefix_shorter: "has_prefix (p @ q) s \<Longrightarrow> has_prefix p s"
proof -
  assume "has_prefix (p @ q) s"
  then have "take (length p) (take (length (p @ q)) s) = take (length p) (p @ q)" by (simp add: has_prefix_def)
  then show ?thesis by (simp add: has_prefix_def min_def)
qed

lemma proxy_path: "lb_mux proxied path = LProxy \<Longrightarrow> proxied \<and> has_prefix ''/proxy/judge/'' path"
  by (simp add: lb_mux_def pattern_defs split: if_splits)

lemma proxied_prefix: "lb_mux proxied path = LProxy \<Longrightarrow> proxied \<and> has_prefix ''/proxy/judge'' path"
  using proxy_path [of proxied path] has_prefix_shorter [of "''/proxy/judge''" "''/''" path] by simp

lemma lb_serve_routes:
  fixes V :: "('v, 'w) lb_service" and li :: lb_input
  defines "k \<equiv> lb_mux (lv_judge V \<noteq> None) (li_Path li)"
  shows "k = LHealthz \<Longrightarrow> lb_serve V li r st = (WriteHeader 200 fresh_writer, Some st)"
    "k = LStream \<Longrightarrow> lb_serve V li r st = (lb_stream (li_canFlush li) (li_events li) (lv_originSet V) r fresh_writer, Some st)"
    "k = LContestants \<Longrightarrow> lb_serve V li r st =
       (lb_history (map_option fst (lv_ts V)) (lv_originSet V) (li_Path li) (li_hours li) r fresh_writer, Some st)"
    "k = LRuns \<Longrightarrow> lb_serve V li r st = (lb_runs (map_option snd (lv_ts V)) (lv_originSet V) (li_Path li) r fresh_writer, Some st)"
    "k = LRedirect p \<Longrightarrow> lb_serve V li r st = (lb_redirect p (li_RawQuery li) r fresh_writer, Some st)"
    "k = LNotFound \<Longrightarrow> lb_serve V li r st = (http_NotFound fresh_writer, Some st)"
    "k = LProxy \<Longrightarrow> lv_judge V = Some (target, backend) \<Longrightarrow>
       lb_serve V li r st = lb_proxy target backend (lv_originSet V) (li_Path li) r fresh_writer st"
  unfolding lb_serve_def lb_panicRecovery_def lb_ServeMux_def k_def lb_healthz_def by (simp_all split: prod.split)

text \<open>The other three answers carry no header about origins.\<close>

definition no_cors :: "'b writer \<Rightarrow> bool" where
  "no_cors w \<longleftrightarrow> (\<exists>code h. wr_sent w = Some (code, h) \<and> (\<forall>k \<in> cors_keys. h k = None))"

lemma no_cors_answers:
  "no_cors (WriteHeader 200 fresh_writer)" "no_cors (http_NotFound fresh_writer)" "no_cors (lb_redirect p q r fresh_writer)"
  by (simp_all add: no_cors_def cors_keys_def http_NotFound_def http_Error_def lb_redirect_def writer_defs fresh_writer_def Let_def)

text \<open>What a request comes to, whatever its path.\<close>

definition under_policy :: "lb_route set" where
  "under_policy = {LLeaderboard, LStream, LContestants, LRuns, LProxy}"

lemma lb_serve_answers:
  fixes V :: "('v, 'w) lb_service"
  assumes "lb_serve V li r st = (w, Some st')"
  defines "k \<equiv> lb_mux (lv_judge V \<noteq> None) (li_Path li)"
  shows "if k \<in> under_policy then lb_answers (setCORS r (lv_originSet V) fresh_writer) w else no_cors w"
proof -
  let ?w = "fresh_writer :: 'v lbBody writer"
  have w: "wr_sent ?w = None" by (simp add: fresh_writer_def)
  have e: "lb_answers w0 (WriteBody b (WriteHeader 500 (Header_Set ''Content-Type'' ''application/json'' w0)))"
    if "wr_sent w0 = None" for w0 :: "'v lbBody writer" and b
    using lb_answers_writes(2) [OF that, of 500] that by (simp add: lb_answers_def cors_keys_def writer_defs Let_def)
  note routes = lb_serve_routes [of V li, folded k_def]
  show ?thesis
  proof (cases k)
    case LLeaderboard
    then show ?thesis
      using assms(1) lb_leaderboard_answers [where r = r and os = "lv_originSet V" and parse = "lv_parse V" and jstr = "lv_jstr V"
          and srv = "lv_srv V" and q = "li_limit li" and s = st, OF w]
        e [of "setCORS r (lv_originSet V) ?w"] w
      by (auto simp: k_def under_policy_def lb_serve_def lb_panicRecovery_def lb_ServeMux_def split: outcome.splits)
  next
    case LProxy
    then obtain target backend where b: "lv_judge V = Some (target, backend)" "has_prefix ''/proxy/judge'' (li_Path li)"
      using proxied_prefix [of "lv_judge V \<noteq> None" "li_Path li"] by (auto simp: k_def)
    then show ?thesis
      using LProxy assms(1) routes(7) [OF LProxy b(1)] lb_proxy_answers [OF w b(2), of target backend "lv_originSet V" r st]
      by (auto simp: under_policy_def)
  qed (use assms(1) routes(1-6) no_cors_answers lb_stream_answers [OF w] lb_history_answers [OF w] lb_runs_answers [OF w]
    in \<open>auto simp: under_policy_def\<close>)
qed

text \<open>
  A request that is not passed on returns; it leaves Redis's store and everything that commands to
  Redis leave, and does not depend on the judge service.
\<close>

definition passed_on :: "('v, 'w) lb_service \<Rightarrow> lb_input \<Rightarrow> request \<Rightarrow> bool" where
  "passed_on V li r \<longleftrightarrow> lv_judge V \<noteq> None \<and> has_prefix ''/proxy/judge/'' (li_Path li) \<and> rq_Method r \<noteq> ''OPTIONS''"

lemma lb_leaderboard_frame:
  assumes "\<And>c s. frame (snd (srv c s)) = frame s"
  shows "(case lb_leaderboard parse jstr srv os q r w s of Done w' s' \<Rightarrow> frame s' = frame s | Panic w' s' \<Rightarrow> frame s' = frame s)"
proof -
  have "frame s2 = frame s1" if "srv c s1 = (x, s2)" for c s1 s2 x using assms [of c s1] that by simp
  then show ?thesis
    by (auto simp: lb_leaderboard_def Let_def split: prod.split sum.split option.split)
qed

lemma lb_serve_reads:
  assumes "redis_law (lv_srv V) view" "\<And>c s. frame (snd (lv_srv V c s)) = frame s" "\<not> passed_on V li r"
  shows "\<exists>w st'. lb_serve V li r st = (w, Some st') \<and> view st' = view st \<and> frame st' = frame st"
proof (cases "lb_mux (lv_judge V \<noteq> None) (li_Path li)")
  case LLeaderboard
  then show ?thesis
    using lb_leaderboard_reads [where r = r and os = "lv_originSet V" and parse = "lv_parse V" and jstr = "lv_jstr V"
        and q = "li_limit li" and s = st and w = fresh_writer, OF assms(1)]
      lb_leaderboard_frame [where r = r and os = "lv_originSet V" and parse = "lv_parse V" and jstr = "lv_jstr V"
        and q = "li_limit li" and s = st and w = fresh_writer and frame = frame and srv = "lv_srv V", OF assms(2)]
    by (auto simp: lb_serve_def lb_panicRecovery_def lb_ServeMux_def split: outcome.splits)
next
  case LProxy
  from proxied_prefix [OF this] proxy_path [OF this] obtain target backend where b: "lv_judge V = Some (target, backend)"
    "has_prefix ''/proxy/judge'' (li_Path li)" "rq_Method r = ''OPTIONS''" using assms(3) by (auto simp: passed_on_def)
  then show ?thesis using lb_serve_routes(7) [OF LProxy b(1)] by (simp add: lb_proxy_def Let_def)
qed (use lb_serve_routes(1-6) [of V li] in auto)

lemma lb_serve_alone:
  assumes "\<not> passed_on V li r" "lv_judge V \<noteq> None"
  shows "lb_serve (V\<lparr>lv_judge := Some other\<rparr>) li r st = lb_serve V li r st"
proof -
  obtain target backend where b: "lv_judge V = Some (target, backend)" using assms(2) by auto
  obtain target' backend' where o: "other = (target', backend')" by (cases other)
  have "lb_proxy target' backend' os (li_Path li) r w st = lb_proxy target backend os (li_Path li) r w st"
    if "lb_mux True (li_Path li) = LProxy" for os and w :: "'a lbBody writer"
  proof -
    have "rq_Method r = ''OPTIONS''" using proxy_path [OF that] assms by (simp add: passed_on_def)
    then show ?thesis by (simp add: lb_proxy_def Let_def)
  qed
  then show ?thesis
    by (simp add: lb_serve_def lb_panicRecovery_def lb_ServeMux_def b o split: lb_route.split)
qed

section \<open>The judge service behind the proxy\<close>

text \<open>
  The judge service as a backend: the path split at its slashes, and the answer as status, headers and
  the encoded bodies. A deletion that never ends gives no answer. Redis is part of its state; the
  leaderboard service's client works on the same Redis.
\<close>

definition judge_backend ::
  "(body \<Rightarrow> string) \<Rightarrow> ('d, 's) judge_service \<Rightarrow> string set option \<Rightarrow> request_input \<Rightarrow> ('v, ('d, 's) service_state) lb_backend" where
  "judge_backend enc J originSet ri r path st =
     (case judge_serve J originSet ri (tl (split_on (CHR ''/'') path)) r st of
        (w, None) \<Rightarrow> None
      | (w, Some st1) \<Rightarrow>
          Some (case wr_sent w of
                  None \<Rightarrow> Inl ''no answer''
                | Some (code, h) \<Rightarrow> Inr (code, h, LText (concat (map enc (wr_body w)))), st1))"

definition shared_redis :: "'s server \<Rightarrow> ('d, 's) service_state server" where
  "shared_redis srv c st = (case srv c (ss_redis st) of (rep, s') \<Rightarrow> (rep, st\<lparr>ss_redis := s'\<rparr>))"

lemma shared_redis_step:
  "shared_redis srv c st = (rep, st') \<Longrightarrow> \<exists>s'. srv c (ss_redis st) = (rep, s') \<and> ss_redis st' = s'"
  by (auto simp: shared_redis_def split: prod.splits)

lemma shared_redis_law:
  fixes srv :: "'s server"
  assumes "redis_law srv view"
  shows "redis_law (shared_redis srv) (\<lambda>st :: ('d, 's) service_state. view (ss_redis st))"
proof -
  have ok: "\<exists>r' t. redis_exec c (view (ss_redis s)) = Some (r', t) \<and> view (ss_redis s') = t \<and> (\<not> is_publish c \<longrightarrow> r = r')"
    if "shared_redis srv c s = (Inr r, s')" "\<not> is_scan c" for c r and s s' :: "('d, 's) service_state"
    using assms shared_redis_step [OF that(1)] that(2) unfolding redis_law_def by (elim conjE exE) simp
  have err: "view (ss_redis s') = view (ss_redis s) \<or> (\<exists>r t. redis_exec c (view (ss_redis s)) = Some (r, t) \<and> view (ss_redis s') = t)"
    if "shared_redis srv c s = (Inl e, s')" for c e and s s' :: "('d, 's) service_state"
    using assms shared_redis_step [OF that] unfolding redis_law_def by (elim conjE exE) blast
  have scan: "view (ss_redis s') = view (ss_redis s)"
    if "shared_redis srv (CScan cur pat n) s = (r, s')" for cur pat n r and s s' :: "('d, 's) service_state"
    using assms shared_redis_step [OF that] unfolding redis_law_def by (elim conjE exE) simp
  show ?thesis unfolding redis_law_def using ok err scan by (intro conjI allI impI) assumption+
qed

lemma shared_redis_frame: "snd (shared_redis srv c st) = st\<lparr>ss_redis := ss_redis (snd (shared_redis srv c st))\<rparr>"
  by (simp add: shared_redis_def split: prod.split)

section \<open>Properties\<close>

text \<open>
  C30: by itself the leaderboard service only reads, and it answers everything under its origin
  policy. A request that is not passed on to the judge service (every path not below
  \<open>/proxy/judge/\<close>, and every preflight) returns, whatever Redis and the database answer; the store in
  Redis is as before, everything that Redis commands do not touch too, and nothing depends on
  the judge service. Whenever a request returns, passed on or not, a status is sent: on the
  leaderboard, the stream, the histories, the runs and the proxy with GET and OPTIONS allowed to
  the configured origins only, also when the handler fails or panics; on the health check,
  redirects and 404s with no header about origins at all.
\<close>

theorem leaderboard_service_only_reads:
  fixes V :: "('v, 'w) lb_service"
  assumes "redis_law (lv_srv V) view" "\<And>c s. frame (snd (lv_srv V c s)) = frame s" "lb_serve V li r st = (w, st')"
  shows "(\<not> (has_prefix ''/proxy/judge/'' (li_Path li) \<and> lv_judge V \<noteq> None \<and> rq_Method r \<noteq> ''OPTIONS'') \<longrightarrow>
      (\<exists>st1. st' = Some st1 \<and> view st1 = view st \<and> frame st1 = frame st) \<and>
      (\<forall>other. lv_judge V \<noteq> None \<longrightarrow> lb_serve (V\<lparr>lv_judge := Some other\<rparr>) li r st = (w, st'))) \<and>
    (st' \<noteq> None \<longrightarrow> (\<exists>code h. wr_sent w = Some (code, h) \<and>
      (if lb_mux (lv_judge V \<noteq> None) (li_Path li) \<in> {LLeaderboard, LStream, LContestants, LRuns, LProxy}
       then h ''Access-Control-Allow-Methods'' = Some ''GET, OPTIONS'' \<and>
         h ''Access-Control-Allow-Origin'' = from_origin (lv_originSet V) r
       else h ''Access-Control-Allow-Methods'' = None \<and> h ''Access-Control-Allow-Origin'' = None)))"
proof -
  have "(\<exists>st1. st' = Some st1 \<and> view st1 = view st \<and> frame st1 = frame st) \<and>
      (\<forall>other. lv_judge V \<noteq> None \<longrightarrow> lb_serve (V\<lparr>lv_judge := Some other\<rparr>) li r st = (w, st'))" if "\<not> passed_on V li r"
    using lb_serve_reads [where view = view and frame = frame, OF assms(1,2) that, of st] lb_serve_alone [OF that] assms(3) by auto
  moreover have "passed_on V li r \<longleftrightarrow> has_prefix ''/proxy/judge/'' (li_Path li) \<and> lv_judge V \<noteq> None \<and> rq_Method r \<noteq> ''OPTIONS''"
    by (auto simp: passed_on_def)
  moreover have "\<exists>code h. wr_sent w = Some (code, h) \<and>
      (if lb_mux (lv_judge V \<noteq> None) (li_Path li) \<in> {LLeaderboard, LStream, LContestants, LRuns, LProxy}
       then h ''Access-Control-Allow-Methods'' = Some ''GET, OPTIONS'' \<and>
         h ''Access-Control-Allow-Origin'' = from_origin (lv_originSet V) r
       else h ''Access-Control-Allow-Methods'' = None \<and> h ''Access-Control-Allow-Origin'' = None)" if returns: "st' \<noteq> None"
  proof -
    obtain st1 where "st' = Some st1" using returns by auto
    with lb_serve_answers [of V li r st w st1] assms(3) show ?thesis
      unfolding under_policy_def [symmetric] by (auto simp: lb_answers_def no_cors_def cors_keys_def split: if_splits)
  qed
  ultimately show ?thesis by simp
qed

text \<open>
  C31: what a client gets from the judge service through the proxy is the judge service's answer: same
  status, same body, same change of the state the services share, and every header the answer
  carries except the ones about origins, which are this service's, and \<open>Vary\<close>, which has this
  service's value too when it sends one. The address of the judge service has no path of its own.
\<close>

theorem proxy_passes_the_judge:
  fixes V :: "('v, ('d, 's) service_state) lb_service"
  assumes "lv_judge V = Some (target, judge_backend enc J origins ri)" "target \<in> {'''', ''/''}"
    and "li_Path li = ''/proxy/judge/'' @ p" "rq_Method r \<noteq> ''OPTIONS''"
    and "judge_serve J origins ri (split_on (CHR ''/'') p) r st = (wj, Some st1)"
  shows "\<exists>w code h h'. lb_serve V li r st = (w, Some st1) \<and>
    wr_sent wj = Some (code, h) \<and> wr_sent w = Some (code, h') \<and> wr_body w = [LText (concat (map enc (wr_body wj)))] \<and>
    (\<forall>k. k \<notin> insert ''Access-Control-Allow-Credentials'' cors_keys \<longrightarrow> k \<noteq> ''Vary'' \<longrightarrow> h' k = h k) \<and>
    h' ''Vary'' = add_headers (wr_header (setCORS r (lv_originSet V) (fresh_writer :: 'v lbBody writer))) h ''Vary'' \<and>
    h' ''Access-Control-Allow-Origin'' = from_origin (lv_originSet V) r"
proof -
  obtain code h where a: "wr_sent wj = Some (code, h)"
    using judge_serve_answers [OF assms(5)] by (auto simp: answers_def)
  let ?own = "setCORS r (lv_originSet V) fresh_writer :: 'v lbBody writer"
  let ?b = "LText (concat (map enc (wr_body wj))) :: 'v lbBody"
  let ?h = "add_headers (wr_header ?own) (proxy_ModifyResponse h)"
  have m: "lb_mux (lv_judge V \<noteq> None) (li_Path li) = LProxy"
    by (simp add: assms(1,3) lb_mux_def pattern_defs has_prefix_def)
  have d: "drop (length ''/proxy/judge'') (''/proxy/judge/'' @ p) = CHR ''/'' # p" by simp
  have j: "singleJoiningSlash target (CHR ''/'' # p) = CHR ''/'' # p"
    using assms(2) by (auto simp: singleJoiningSlash_def has_prefix_def)
  have pre: "has_prefix ''/proxy/judge'' (''/proxy/judge/'' @ p)" by (simp add: has_prefix_def)
  have "judge_backend enc J origins ri r (CHR ''/'' # p) st = Some (Inr (code, h, ?b), st1)"
    by (simp add: judge_backend_def assms(5) a)
  then have s: "lb_serve V li r st = (WriteBody ?b (WriteHeader code (?own\<lparr>wr_header := ?h\<rparr>)), Some st1)"
    using lb_serve_routes(7) [OF m assms(1)] assms(4) pre unfolding assms(3) lb_proxy_def Let_def d j by simp
  have "wr_header ?own k = None" if "k \<notin> insert ''Access-Control-Allow-Credentials'' cors_keys" "k \<noteq> ''Vary''" for k
    using that by (auto simp: cors_keys_def setCORS_def Header_Set_def fresh_writer_def Let_def split: option.split)
  then have other: "?h k = h k" if "k \<notin> insert ''Access-Control-Allow-Credentials'' cors_keys" "k \<noteq> ''Vary''" for k
    using that by (auto simp: add_headers_def proxy_ModifyResponse_def cors_keys_def)
  have "?h ''Vary'' = add_headers (wr_header ?own) h ''Vary''" "?h ''Access-Control-Allow-Origin'' = from_origin (lv_originSet V) r"
    by (simp_all add: add_headers_def proxy_ModifyResponse_def split: option.split)
  moreover have "wr_sent ?own = None" "wr_body ?own = []" by (simp_all add: setCORS_def Header_Set_def fresh_writer_def Let_def split: option.split)
  ultimately show ?thesis using a s other
    by - (rule exI [of _ "WriteBody ?b (WriteHeader code (?own\<lparr>wr_header := ?h\<rparr>))"], rule exI [of _ code],
      rule exI [of _ h], rule exI [of _ ?h], simp add: writer_defs Let_def)
qed

text \<open>Both services on one empty store, for the witnesses.\<close>

definition demo_lb :: "(string, (unit, store) service_state) lb_service" where
  "demo_lb = \<lparr>lv_parse = (\<lambda>v. Inr (Some Map.empty)), lv_jstr = (\<lambda>x. x), lv_srv = shared_redis (ref_server []), lv_originSet = Some {''https://a''},
     lv_ts = None, lv_judge = Some ('''', judge_backend (\<lambda>b. ''json'') demo_service None demo_input)\<rparr>"

definition demo_lb_input :: "string \<Rightarrow> lb_input" where
  "demo_lb_input path = \<lparr>li_Path = path, li_RawQuery = '''', li_limit = '''', li_hours = '''', li_canFlush = True, li_events = []\<rparr>"

lemma leaderboard_service_only_reads_witness:
  "\<exists>w st1 code h. lb_serve demo_lb (demo_lb_input ''/leaderboard'') \<lparr>rq_Method = ''GET'', rq_Origin = ''https://b''\<rparr> demo_state = (w, Some st1) \<and>
     ss_redis st1 = empty_store \<and> ss_queue st1 = [] \<and> wr_sent w = Some (code, h) \<and> h ''Access-Control-Allow-Origin'' = None"
proof -
  let ?r = "\<lparr>rq_Method = ''GET'', rq_Origin = ''https://b''\<rparr>" and ?view = "\<lambda>st :: (unit, store) service_state. id (ss_redis st)"
  have law: "redis_law (lv_srv demo_lb) ?view"
    unfolding demo_lb_def lb_service.simps by (rule shared_redis_law) (rule ref_server_law)
  have fr: "ss_queue (snd (lv_srv demo_lb c s)) = ss_queue s" for c s
    by (simp add: demo_lb_def shared_redis_def split: prod.split)
  obtain w st' where j: "lb_serve demo_lb (demo_lb_input ''/leaderboard'') ?r demo_state = (w, st')"
    by (metis surj_pair)
  have m: "lb_mux (lv_judge demo_lb \<noteq> None) (li_Path (demo_lb_input ''/leaderboard'')) = LLeaderboard"
    by (simp add: lb_mux_def pattern_defs demo_lb_input_def)
  have o: "from_origin (lv_originSet demo_lb) ?r = None" by (simp add: from_origin_def demo_lb_def)
  have p: "\<not> has_prefix ''/proxy/judge/'' (li_Path (demo_lb_input ''/leaderboard''))"
    by (simp add: has_prefix_def demo_lb_input_def)
  have q: "ss_queue demo_state = []" by (simp add: demo_state_def)
  from leaderboard_service_only_reads [where view = ?view and frame = ss_queue, OF law fr j] j p q
  show ?thesis unfolding m o by auto
qed

lemma proxy_passes_the_judge_witness:
  "\<exists>w h'. lb_serve demo_lb (demo_lb_input ''/proxy/judge/healthz'') \<lparr>rq_Method = ''GET'', rq_Origin = ''https://a''\<rparr>
       demo_state = (w, Some demo_state) \<and>
     wr_sent w = Some (200, h') \<and> h' ''Access-Control-Allow-Origin'' = Some ''https://a''"
proof -
  let ?r = "\<lparr>rq_Method = ''GET'', rq_Origin = ''https://a''\<rparr>"
  have d: "lv_judge demo_lb = Some ('''', judge_backend (\<lambda>b. ''json'') demo_service None demo_input)" "'''' \<in> {'''', ''/''}"
    "li_Path (demo_lb_input ''/proxy/judge/healthz'') = ''/proxy/judge/'' @ ''healthz''" "rq_Method ?r \<noteq> ''OPTIONS''"
    by (simp_all add: demo_lb_def demo_lb_input_def)
  have m: "judge_mux ''GET'' [''healthz''] = Inr RHealthz" by (simp add: judge_mux_def mux_matches_cases method_ok_def)
  have s: "split_on (CHR ''/'') ''healthz'' = [''healthz'']" by simp
  have j: "judge_serve demo_service None demo_input (split_on (CHR ''/'') ''healthz'') ?r demo_state =
      (WriteHeader 200 (cors_writer None ?r), Some demo_state)"
    unfolding s using m by (simp add: judge_serve_steps judge_handle_def Let_def)
  have c: "wr_sent (WriteHeader 200 (cors_writer None ?r)) = Some (code, h) \<Longrightarrow> code = 200" for code h
    by (simp add: WriteHeader_def)
  have o: "from_origin (lv_originSet demo_lb) ?r = Some ''https://a''" by (simp add: from_origin_def demo_lb_def)
  from proxy_passes_the_judge [OF d j] obtain w code h h' where
    w: "lb_serve demo_lb (demo_lb_input ''/proxy/judge/healthz'') ?r demo_state = (w, Some demo_state)"
    "wr_sent (WriteHeader 200 (cors_writer None ?r)) = Some (code, h)" "wr_sent w = Some (code, h')"
    "h' ''Access-Control-Allow-Origin'' = from_origin (lv_originSet demo_lb) ?r" by (elim exE conjE)
  show ?thesis by (rule exI [of _ w], rule exI [of _ h']) (simp only: w(1,3,4) o c [OF w(2)])
qed

end
