(* ===== verification/Spec2Isabelle.thy ===== *)
theory Spec2Isabelle
  imports RingRace Stats Pipeline Arena LeaderboardService
begin

text \<open>
  A development for the IICPC distributed benchmarking platform (Go). Contestants submit container
  images of a matching engine; the platform runs each in a sandbox, fires bots at it, judges the
  replies, and ranks the contestants live.

  \<^bold>\<open>The program.\<close> cmd/judge_api takes registrations and submissions over HTTP, stores them through
  internal/registry in Redis and queues the submissions on a channel; one worker hands them to the
  engine of internal/judge. A run of the engine starts a container (internal/sandbox), waits for its
  gRPC port, probes it, lets the bots of internal/botfleet trade with it, and drains the ring buffer
  of internal/telemetry, in which the bots leave one metric per judged order, into a result, which
  it saves in Redis. cmd/bot_fleet runs the same bots alone and sends their metrics to Kafka.
  cmd/telemetry_ingester reads those records, gathers them in the windows of
  internal/ingest and, once per tick or full batch, writes the scored windows to the leaderboard in
  Redis and the raw records to TimescaleDB (internal/store). cmd/leaderboard_api serves the
  leaderboard, its event stream, the history and a proxy to the judge service.

  \<^bold>\<open>The theories\<close>, from the bottom up. A definition has the name of the Go function or type it
  translates; a struct is a record, an error a left value of a sum or an option, a panic or an
  endless loop the value \<open>None\<close>.
  \<^item> \<open>Prelude\<close>, \<open>GoText\<close>, \<open>GoFloat\<close>: what the source uses of Go itself: 64-bit words, byte strings and
    strconv, and float64 as exact rationals rounded to 53 bits.
  \<^item> \<open>RingBuffer\<close> (internal/telemetry/ringbuffer.go): the ring run by one goroutine at a time,
    refined to a bounded queue. The locale \<open>bounded_queue\<close> is that contract; its lemmas on filling
    and draining are proved once from it and interpreted on the ring.
    \<open>RingRace\<close>: the same code cut at each access to shared memory, for every schedule.
  \<^item> \<open>Stats\<close> (internal/telemetry/stats.go, cmd/bot_fleet/main.go): running statistics and the consumer's tick,
    with the bots pushing between its calls of \<open>PopInto\<close>.
  \<^item> \<open>JudgeStats\<close> (internal/judge/judge.go): \<open>drainRingBuffer\<close>, \<open>percentiles\<close>, the score.
  \<^item> \<open>Trading\<close> (cmd/mock_matcher_go), \<open>BotFleet\<close> (internal/botfleet, internal/kafka/producer.go): the
    reference matcher, and a bot as two goroutines with the step relation \<open>bot_step\<close>; beside it the bots'
    loops alone, to say when a bot returns.
  \<^item> \<open>Sandbox\<close> (internal/sandbox/docker.go, cmd/sandbox_manager): the Docker client's calls are the
    argument \<open>docker_ops\<close>. \<open>docker_law\<close> says which calls can make a container and that a forced remove
    that succeeds removes it; about a call that answered an error it promises nothing, \<open>errored\<close> records it.
  \<^item> \<open>Redis\<close>: the interface to the server. \<open>redis_exec\<close> writes down the documented effect of the
    commands sent; the locale \<open>redis_client\<close> is a server that follows it or fails, and
    \<open>redis_running\<close> extends it by answering; both are interpreted on a reference server.
  \<^item> \<open>JudgeEngine\<close> (internal/judge/judge.go): \<open>judge_Run\<close> with every failure path. \<open>run_env\<close> holds what the
    clock, gRPC, the engine under test and the bots deliver, and what ends the bots.
  \<^item> \<open>Registry\<close> (internal/registry/registry.go): records and lists in Redis; submissions refine a log.
  \<^item> \<open>Http\<close>, \<open>JudgeApi\<close> (cmd/judge_api/main.go): writer and middleware, every handler, and the queue
    between requests and worker as the step relation \<open>judge_step\<close>, one channel operation or counter
    update at a time.
  \<^item> \<open>JudgeService\<close> (cmd/judge_api/main.go): the table of routes, the service as one function from a request
    to an answer, and how it starts.
  \<^item> \<open>Aggregator\<close> (internal/ingest/aggregator.go): \<open>Add\<close>, \<open>FlushAndReset\<close>, \<open>ComputeScore\<close>; the histogram
    library and the exponential function are arguments.
  \<^item> \<open>Timescale\<close> (internal/store/timescale.go), \<open>Ingester\<close> (cmd/telemetry_ingester/main.go): rows and
    queries; the workers' turn, the collector's three events and \<open>flush\<close>.
  \<^item> \<open>Pipeline\<close> (cmd/telemetry_ingester/main.go): flags and start, and the ingester as a whole as the step
    relation \<open>ingest_step\<close>: any number of workers, the channel of 4096 and the collector, one fetch, channel
    operation or turn of the loop at a time, from the bots' \<open>publishMetric\<close> to the windows. The Kafka
    writer is asynchronous: an argument, of which \<open>async_writer\<close> says that it delivers nothing it was not handed.
  \<^item> \<open>LeaderboardApi\<close> (cmd/leaderboard_api/main.go): every handler and helper. \<open>LeaderboardService\<close>: its
    routes, the service as one function, its start, and the judge service behind its proxy, both over one
    state, as they share one Redis.
  \<^item> \<open>Arena\<close>: \<open>runBot\<close> and the reference matcher's loop joined by a stream, the step relation
    \<open>session_step\<close>, and a judged run whose container is that matcher.
  \<^item> This theory: what spans the parts, from a request to the result it leads to, and the two views
    of one run's metrics.

  \<^bold>\<open>What the theorems show.\<close>
  \<^item> The ring is a bounded queue; under every schedule its counters stay ordered, and once the
    producers have returned nothing accepted is lost. A reader beside the producers sees slots before they are written.
  \<^item> The bots judge each order at most once; the judge's and the ingester's statistics are exactly those
    of the recorded metrics, in range, monotone where they should be, and agree with each other where that is true.
  \<^item> A run returns when its rate is one a ticker can have and its contexts end. What it returns it stores,
    and every container it leaves is one about which Docker answered with an error. One that behaves
    completes, and one of the reference matcher gets full marks, however bots and matcher interleave.
  \<^item> Inside the ingester every message is in exactly one place; it cannot get stuck, what reaches the topic
    is scored exactly once, and it shuts down. With one worker it commits in order, with more it need not.
  \<^item> The submission queue is first-in first-out and bounded. While runs return and no interrupt has come
    the worker can always go on, and every accepted submission is judged.
  \<^item> Redis: registration, the log of submissions, the cut of the leaderboard to its best entries,
    and the keys the deletions may touch. The collector stores and scores every record once, and
    the page shows the best of what was flushed and what was there before.
  \<^item> The judge service answers every request under its origin policy, reads change nothing, and what it
    registers it serves. The leaderboard service by itself answers everything and only reads, and it passes the
    judge service's answers on with only the headers about origins, and \<open>Vary\<close>, changed. Ids, origins and event
    frames are safe whatever the input.

  Some theorems state what the code does against its documentation or purpose: slots read before
  they are written, a container that stays after a failed start, a rate that ends the process, a
  refused submission that is stored, a commit that overtakes a message still held, a score that correctness does not dominate, and others
  beside the operations they concern.

  \<^bold>\<open>Bounds and loops.\<close> Loops that could run for ever are partial functions into options, with theorems
  that they return: the drain loops because each turn empties slots, the wait for the port because
  the clock advances by its 300 ms pause while the deadline is 10 s away, the bots' because their
  context ends. The deletion scans return
  when the server's cursor comes to an end, which is Redis's to grant; what they leave is shown of
  those that return. That the ingester drains and stops is bounded in steps: three for a message in the topic,
  two for one held, one for one in the channel, and one flush. After cancellation \<open>to_shut_down\<close> bounds
  every run, the ticker's flushes apart, and one step for each worker and one more can end it.
  Theorems bound the pushes of a run by \<open>2 ^ 64\<close> (the counters), counts by \<open>2 ^ 46\<close> or \<open>2 ^ 53\<close> where they become floats, and time stamps by \<open>2 ^ 63\<close> where they become signed.

  \<^bold>\<open>Not modelled.\<close> The main functions' wiring (connection pools, signals, timeouts, the matcher's server), log
  lines, the Python twin of the mock matcher, the web frontend, deployment files, and the generated
  protobuf code, which is not in the repository. Docker, Redis, Kafka, gRPC, TimescaleDB, JSON, the
  HdrHistogram and the exponential function are arguments, with named laws where a theorem needs them. Contexts appear as
  the errors they cause and, where a loop waits for one, as its end (\<open>context_ends\<close>, \<open>ig_ctxDone\<close>, \<open>q_ctxDone\<close>). Go's memory model is taken as sequentially consistent.
\<close>

section \<open>From a submission to its result\<close>

lemma run_keys_apart [simp]:
  "''submission:'' @ i \<noteq> ''run:'' @ j" "''submission:'' @ i \<noteq> ''runs:submission:'' @ j" "''submission:'' @ i \<noteq> ''runs:contestant:'' @ j"
  "''submissions:contestant:'' @ i \<noteq> ''run:'' @ j" "''submissions:contestant:'' @ i \<noteq> ''runs:submission:'' @ j"
  "''submissions:contestant:'' @ i \<noteq> ''runs:contestant:'' @ j"
  by simp_all

text \<open>
  C5: a submission that the service accepts is judged under its own id and can be looked up: a
  request for a known contestant with room in the queue is answered 202 and queued; once the
  engine has run it, both lookups by id answer 200 with the submission and with the result the
  run returned, and the log of submissions is still the one the request left.
\<close>

theorem accepted_submission_gets_a_result:
  fixes nano now :: int and cid tag :: string
  defines "sub \<equiv> new_submission cid tag nano now"
  assumes "redis_up srv view" "holds_log S (view s) subs" "dec reqBody = Inr (cid, tag)" "cid \<noteq> ''''" "tag \<noteq> ''''"
    and "decodes C c" "st_keys (view s) (''contestant:'' @ cid) = Some (VStr (marshal C c))"
    and "sub_ID sub \<notin> sub_ID ` set subs" "decodes S sub" "length queue < 20"
    and "read_list (st_keys (view s) (''runs:submission:'' @ sub_ID sub)) = Some []"
    and "read_list (st_keys (view s) (''runs:contestant:'' @ cid)) = Some runs"
    and "createSubmission C S dec srv True nano now reqBody fresh_writer (s, queue, pending) = (w1, s1, queue1, pending1)"
    and "judge_Run D J srv cfg env sub d s1 = Some ((res, err), d2, s2)" "decodes J res"
  shows "status_of w1 = Some 202 \<and> queue1 = queue @ [sub] \<and>
    (\<exists>s3. getSubmission S srv (sub_ID sub) fresh_writer s2 = (jsonResp 200 (BSubmission sub) fresh_writer, s3)) \<and>
    (\<exists>s3. getRun J srv (run_id sub env) fresh_writer s2 = (jsonResp 200 (BRun res) fresh_writer, s3)) \<and>
    rr_SubmissionID res = sub_ID sub \<and> rr_ContestantID res = cid \<and> holds_log S (view s2) (sub # subs)"
proof -
  have k: "st_keys (view s) (''contestant:'' @ cid) = (if True then Some (VStr (marshal C c)) else None)"
    using assms(8) by simp
  have q: "try_send sub queue = Some (queue @ [sub])" using assms(11) by (simp add: try_send_def maxQueue_def)
  obtain s0 where "holds_log S (view s0) (sub # subs)"
    and frame: "\<forall>k. k \<noteq> ''submission:'' @ sub_ID sub \<longrightarrow> k \<noteq> ''submissions:contestant:'' @ cid \<longrightarrow> st_keys (view s0) k = st_keys (view s) k"
    and "createSubmission C S dec srv True nano now reqBody fresh_writer (s, queue, pending) =
      (jsonResp 202 (BSubmission sub) fresh_writer, s0, queue @ [sub], pending + 1)"
    using createSubmission_up [where dec = dec and reqBody = reqBody and cid = cid and tag = tag and view = view and s = s
      and hasEngine = True and w = fresh_writer and queue = queue and pending = pending,
      OF assms(2-7) k assms(9) [unfolded sub_def], folded sub_def] q by auto
  then have post: "w1 = jsonResp 202 (BSubmission sub) fresh_writer" "queue1 = queue @ [sub]" "holds_log S (view s1) (sub # subs)" "s0 = s1"
    using assms(14) by auto
  have c: "sub_ContestantID sub = cid" by (simp add: sub_def new_submission_def)
  have "read_list (st_keys (view s1) (''runs:submission:'' @ sub_ID sub)) = Some []"
    "read_list (st_keys (view s1) (''runs:contestant:'' @ sub_ContestantID sub)) = Some runs"
    using frame assms(12,13) post(4) c by simp_all
  note stored = run_end_stored [OF assms(2,15) this, unfolded c]
  have log: "holds_log S (view s2) (sub # subs)"
    using stored holds_log_cong [of "view s2" "view s1" S "sub # subs"] post(3) by simp
  obtain s3 where g: "GetSubmission S srv (sub_ID sub) s2 = (Inr sub, s3)"
    using holds_log_get [OF assms(2) log, of sub] assms(10) by auto
  obtain s4 where r: "GetRunResult J srv (run_id sub env) s2 = (Inr res, s4)"
    using get_json_up [OF assms(2), of s2 "''run:''" "run_id sub env" "Some (marshal J res)" J "''run''"] stored assms(16)
    by (auto simp: GetRunResult_def decodes_def)
  show ?thesis
    using post(1,2) stored log g r by (auto simp: getSubmission_def getRun_def respond_found_def fresh_writer_def)
qed

lemma accepted_submission_gets_a_result_witness:
  "\<exists>J w1 s1 q p res err d2 s2 s3. createSubmission (one_codec demo_contestant) (one_codec (new_submission ''alice'' ''img'' 7 8))
       (\<lambda>b. Inr (''alice'', ''img'')) (ref_server []) True 7 8 ''body'' fresh_writer (demo_store, [], 0) = (w1, s1, q, p) \<and>
     judge_Run toy_docker J (ref_server []) DefaultConfig demo_env (new_submission ''alice'' ''img'' 7 8) [] s1 = Some ((res, err), d2, s2) \<and>
     status_of w1 = Some 202 \<and>
     getRun J (ref_server []) (run_id (new_submission ''alice'' ''img'' 7 8) demo_env) fresh_writer s2 =
       (jsonResp 200 (BRun res) fresh_writer, s3)"
proof -
  let ?sub = "new_submission ''alice'' ''img'' 7 8" and ?dec = "\<lambda>b. Inr (''alice'', ''img'') :: string + string \<times> string"
  let ?C = "one_codec demo_contestant" and ?S = "one_codec ?sub"
  have t: "sub_ImageTag ?sub \<noteq> ''''" by (simp add: new_submission_def)
  obtain st where st: "summary [zero_metric] = Some st" using summary_defined [of "[zero_metric]"] by auto
  let ?res = "completed_result ((running_result ?sub demo_env)\<lparr>rr_FinishedAt := 5\<rparr>) st"
  obtain w1 s1 q p where c: "createSubmission ?C ?S ?dec (ref_server []) True 7 8 ''body'' fresh_writer (demo_store, [], 0) = (w1, s1, q, p)"
    by (metis surj_pair)
  obtain d2 s2 where j: "judge_Run toy_docker (one_codec ?res) (ref_server []) DefaultConfig demo_env ?sub [] s1 = Some ((?res, None), d2, s2)"
    using demo_judge_run [OF t, of "one_codec ?res" "ref_server []" s1] st by auto
  have h: "holds_log ?S (id demo_store) []" "?dec ''body'' = Inr (''alice'', ''img'')" "''alice'' \<noteq> ''''" "''img'' \<noteq> ''''"
    "st_keys (id demo_store) (''contestant:'' @ ''alice'') = Some (VStr (marshal ?C demo_contestant))"
    "sub_ID ?sub \<notin> sub_ID ` set []" "length ([] :: submission list) < 20"
    "read_list (st_keys (id demo_store) (''runs:submission:'' @ sub_ID ?sub)) = Some []"
    "read_list (st_keys (id demo_store) (''runs:contestant:'' @ ''alice'')) = Some []"
    by (simp_all add: holds_log_def of_contestant_def demo_store_def empty_store_def one_codec_def)
  from accepted_submission_gets_a_result [where dec = ?dec, OF ref_server_up [of "[]"] h(1-4) one_codec_decodes h(5,6)
      one_codec_decodes h(7-9) c j one_codec_decodes] c j show ?thesis by blast
qed

section \<open>Two views of one run\<close>

text \<open>
  A metric of a bot reaches the score twice: through the ring to the judge, and as a record through
  Kafka to the ingester's window.
\<close>

lemma samples_of_fleet:
  assumes "\<forall>m \<in> set ms. m_ContestantID m = cid" "cid \<noteq> ''''"
  shows "samples_of cid (samples (map (call_of \<circ> metric_record) ms)) =
    map (\<lambda>m. Sample cid (if timed m then latency_us m else 1) (m_IsCorrect m)) ms"
  using assms by (induction ms)
    (simp_all add: samples_of_def samples_def call_of_def sample_of_def ingest_latency_of_metric latency_us_def Let_def)

lemma samples_of_fleet_cid:
  assumes "\<forall>m \<in> set ms. m_ContestantID m = cid" "cid \<noteq> ''''" "ms \<noteq> []"
  shows "s_cid ` set (samples (map (call_of \<circ> metric_record) ms)) = {cid}"
  using assms by (cases ms) (auto simp: samples_def call_of_def sample_of_def image_iff)

text \<open>
  C14: the judge's result and the leaderboard's window of the same metrics agree on the number of
  orders and, to the bit, on the share of correct ones. They agree on the range of latencies when no
  metric was received before it was sent; one such metric makes the window's minimum 1
  microsecond, while the judge leaves it out.
\<close>

theorem judge_and_leaderboard_agree:
  fixes ms :: "metric list"
  defines "calls \<equiv> map (call_of \<circ> metric_record) ms"
  assumes "ms \<noteq> []" "length ms \<le> 500000" "\<forall>m \<in> set ms. m_ContestantID m = cid" "cid \<noteq> ''''"
    and "fleet_Run None inputs ms fcfg (NewRingBuffer 500000) = Some (None, rb)"
  shows "\<exists>rb' st w. drainRingBuffer rb = Some (rb', st) \<and>
    FlushAndReset H E [cid] now nextWindow (Add_all H calls (NewAggregatorWithParams t0 win p)) =
      Some (NewAggregatorWithParams now nextWindow p, [w]) \<and>
    w_ContestantID w = cid \<and> w_Count w = l_Count st \<and> w_CorrectRatio w = l_CorrectRatio st \<and>
    (if \<forall>m \<in> set ms. timed m
     then w_MinUs w = Min (latency_us ` set ms) \<and> w_MaxUs w = Max (latency_us ` set ms)
     else w_MinUs w = 1)"
proof -
  let ?a = "Add_all H calls (NewAggregatorWithParams t0 win p)" and ?es = "samples_of cid (samples calls)"
  let ?lat = "\<lambda>m. if timed m then latency_us m else 1 :: u64"
  have es: "?es = map (\<lambda>m. Sample cid (?lat m) (m_IsCorrect m)) ms"
    unfolding calls_def by (rule samples_of_fleet [OF assms(4,5)])
  have n: "length calls \<le> 2 ^ 53" using assms(3) by (simp add: calls_def)
  have "agg_describes H ?a (samples calls)" using agg_describes_all [OF agg_describes_new, of H calls] by simp
  from cnt_dom [OF this] have o: "set [cid] = dom (ag_cnt ?a)"
    using samples_of_fleet_cid [OF assms(4,5,2)] by (simp add: calls_def)
  from flush_run [OF n o, of E now nextWindow] obtain w where
    f: "FlushAndReset H E [cid] now nextWindow ?a = Some (NewAggregatorWithParams now nextWindow p, [w])"
    and k: "key_ok H ?a cid ?es" and w: "window_of H E ?a cid (of_nat (length ?es)) = Some w"
    by (auto simp: list_all2_Cons1)
  have ne: "?es \<noteq> []" using es assms(2) by simp
  note fields = window_fields [OF k w ne]
  have len: "length ?es = length ms" "length (filter s_ok ?es) = length (filter m_IsCorrect ms)" "s_lat ` set ?es = ?lat ` set ms"
    by (simp_all add: es filter_map o_def image_image)
  have "length ms < 2 ^ 64" "take 500000 ms = ms" using assms(3) by simp_all
  then obtain rb' st where d: "drainRingBuffer rb = Some (rb', st)" "summary ms = Some st"
    using drained_fleet [of ms] assms(6) by (auto simp: fleet_Run_def split: sum.splits option.splits if_splits)
  have small: "length ms \<le> 2 ^ 46" using assms(3) by simp
  have st: "l_Count st = of_nat (length ms)" "l_CorrectRatio st = Fin (ratio_rat (length (filter m_IsCorrect ms)) (length ms))"
    using summary_eq [OF assms(2) small] d(2) by auto
  have r: "w_CorrectRatio w = l_CorrectRatio st"
    unfolding fields(7) st(2) len using assms(2) small by (intro ratio_f64) (auto simp: length_filter_le)
  have "w_MinUs w = 1" if "m \<in> set ms" "\<not> timed m" for m
  proof -
    have "1 \<in> ?lat ` set ms" using that by (intro image_eqI [of _ _ m]) auto
    moreover have "\<forall>x \<in> ?lat ` set ms. 1 \<le> x" by (auto simp: latency_us_def Let_def word_le_nat_alt unat_gt_0 Suc_le_eq)
    ultimately show ?thesis unfolding fields(4) len by (intro Min_eqI) auto
  qed
  moreover have "w_MinUs w = Min (latency_us ` set ms) \<and> w_MaxUs w = Max (latency_us ` set ms)" if "\<forall>m \<in> set ms. timed m"
  proof -
    have "?lat ` set ms = latency_us ` set ms" using that by (intro image_cong) auto
    then show ?thesis unfolding fields(4,5) len by simp
  qed
  ultimately show ?thesis using f d(1) fields(1) st(1) r fields(2) len(1)
    by (intro exI [of _ rb'] exI [of _ st] exI [of _ w]) auto
qed

lemma judge_and_leaderboard_agree_witness:
  "\<exists>rb rb' st w. fleet_Run None (re_bots demo_env) [zero_metric\<lparr>m_ContestantID := ''a''\<rparr>]
      (fleet_config DefaultConfig demo_sub ''h'' ''r'') (NewRingBuffer 500000) = Some (None, rb) \<and>
    drainRingBuffer rb = Some (rb', st) \<and>
    FlushAndReset max_hist step_exp [''a''] 9 7 (Add_all max_hist (map (call_of \<circ> metric_record) [zero_metric\<lparr>m_ContestantID := ''a''\<rparr>])
      (NewAggregatorWithParams 5 7 DefaultScoringParams)) = Some (NewAggregatorWithParams 9 7 DefaultScoringParams, [w]) \<and>
    w_Count w = l_Count st \<and> w_CorrectRatio w = l_CorrectRatio st"
proof -
  let ?ms = "[zero_metric\<lparr>m_ContestantID := ''a''\<rparr>]"
  obtain rb where rb: "fleet_Run None (re_bots demo_env) ?ms (fleet_config DefaultConfig demo_sub ''h'' ''r'') (NewRingBuffer 500000) = Some (None, rb)"
    using fleet_Run_Some [OF demo_can_end] fleet_Run_err by blast
  have h: "?ms \<noteq> []" "length ?ms \<le> 500000" "\<forall>m \<in> set ?ms. m_ContestantID m = ''a''" "''a'' \<noteq> ''''" by simp_all
  from judge_and_leaderboard_agree [OF h rb, of max_hist step_exp 9 7 5 7 DefaultScoringParams] rb show ?thesis by blast
qed

end
